theory Spec2Isabelle
  imports Main "HOL-Library.Word" "HOL-Library.Multiset"
begin

section \<open>Messages (runtime/messages.go)\<close>

text \<open>The closed set of message kinds. Only the fields that the modelled code inspects
  are kept: the coordinates of a mouse message and the dimensions of a resize.\<close>

datatype Message =
    KeyMsg int
  | ResizeMsg int int
  | MouseMsg int int
  | PasteMsg string
  | TickMsg
  | QueueFlushMsg
  | InvalidateMsg

section \<open>Coalesced scheduling primitives (runtime/invalidator.go, runtime/queue_scheduler.go)\<close>

text \<open>The post function of the source is a Go closure \<open>func(Message) bool\<close> that may
  change state outside the primitive (the message channel of the App, a counter in the
  tests). It is modelled as a state transformer over an environment \<open>'e\<close>. The world
  threads that environment together with the log of all calls made to the post function.\<close>

type_synonym 'e PostFunc = "'e \<Rightarrow> Message \<Rightarrow> bool \<times> 'e"

record 'e World =
  env :: 'e
  attempts :: "Message list"

definition call_post :: "'e PostFunc \<Rightarrow> 'e World \<Rightarrow> Message \<Rightarrow> bool \<times> 'e World" where
  "call_post p w m =
     (case p (env w) m of
        (ok, e') \<Rightarrow> (ok, \<lparr>env = e', attempts = attempts w @ [m]\<rparr>))"

text \<open>\<open>Invalidator\<close>: a nil-able post function and the atomic pending flag. The receiver
  is a pointer, so a call on an absent receiver is a call on \<open>None\<close>.\<close>

record 'e Invalidator =
  inv_post :: "'e PostFunc option"
  inv_pending :: bool

definition NewInvalidator :: "'e PostFunc option \<Rightarrow> 'e Invalidator" where
  "NewInvalidator p = \<lparr>inv_post = p, inv_pending = False\<rparr>"

text \<open>\<open>Invalidate\<close>: the compare-and-swap from false to true succeeds exactly when the flag
  is false; the winner posts, and a failed post stores false again.\<close>

definition Invalidate :: "'e Invalidator option \<Rightarrow> 'e World \<Rightarrow> 'e Invalidator option \<times> 'e World" where
  "Invalidate i w =
     (case i of
        None \<Rightarrow> (None, w)
      | Some iv \<Rightarrow>
          (case inv_post iv of
             None \<Rightarrow> (Some iv, w)
           | Some p \<Rightarrow>
               if \<not> inv_pending iv then
                 (case call_post p w InvalidateMsg of
                    (ok, w') \<Rightarrow>
                      if \<not> ok then (Some (iv\<lparr>inv_pending := False\<rparr>), w')
                      else (Some (iv\<lparr>inv_pending := True\<rparr>), w'))
               else (Some iv, w)))"

definition inv_resetPending :: "'e Invalidator option \<Rightarrow> 'e Invalidator option" where
  "inv_resetPending i =
     (case i of None \<Rightarrow> None | Some iv \<Rightarrow> Some (iv\<lparr>inv_pending := False\<rparr>))"

text \<open>\<open>state.Queue\<close> (widgets/component.go): the list of pending callbacks. A callback is
  an opaque value of type \<open>'c\<close>; a nil callback is \<open>None\<close>.\<close>

definition Queue_Schedule :: "'c list option \<Rightarrow> 'c option \<Rightarrow> 'c list option" where
  "Queue_Schedule q fn =
     (case q of
        None \<Rightarrow> None
      | Some pending \<Rightarrow> (case fn of None \<Rightarrow> Some pending | Some f \<Rightarrow> Some (pending @ [f])))"

record ('e, 'c) QueueScheduler =
  qs_queue :: "'c list option"
  qs_post :: "'e PostFunc option"
  qs_pending :: bool

definition NewQueueScheduler :: "'c list option \<Rightarrow> 'e PostFunc option \<Rightarrow> ('e, 'c) QueueScheduler" where
  "NewQueueScheduler queue p =
     \<lparr>qs_queue = (case queue of None \<Rightarrow> Some [] | Some q \<Rightarrow> Some q),
      qs_post = p, qs_pending = False\<rparr>"

definition Schedule ::
  "('e, 'c) QueueScheduler option \<Rightarrow> 'c option \<Rightarrow> 'e World \<Rightarrow> ('e, 'c) QueueScheduler option \<times> 'e World" where
  "Schedule s fn w =
     (case s of
        None \<Rightarrow> (None, w)
      | Some qs \<Rightarrow>
          if qs_queue qs = None \<or> fn = None then (Some qs, w)
          else
            (let qs1 = qs\<lparr>qs_queue := Queue_Schedule (qs_queue qs) fn\<rparr> in
             case qs_post qs1 of
               None \<Rightarrow> (Some qs1, w)
             | Some p \<Rightarrow>
                 if \<not> qs_pending qs1 then
                   (case call_post p w QueueFlushMsg of
                      (ok, w') \<Rightarrow>
                        if \<not> ok then (Some (qs1\<lparr>qs_pending := False\<rparr>), w')
                        else (Some (qs1\<lparr>qs_pending := True\<rparr>), w'))
                 else (Some qs1, w)))"

definition qs_resetPending :: "('e, 'c) QueueScheduler option \<Rightarrow> ('e, 'c) QueueScheduler option" where
  "qs_resetPending s =
     (case s of None \<Rightarrow> None | Some qs \<Rightarrow> Some (qs\<lparr>qs_pending := False\<rparr>))"

text \<open>Sequences of calls: \<open>n\<close> calls of \<open>Invalidate\<close>, and one \<open>Schedule\<close> call per callback
  of a list.\<close>

fun invalidate_n :: "nat \<Rightarrow> 'e Invalidator option \<times> 'e World \<Rightarrow> 'e Invalidator option \<times> 'e World" where
  "invalidate_n 0 st = st"
| "invalidate_n (Suc n) st = invalidate_n n (Invalidate (fst st) (snd st))"

fun schedule_all ::
  "'c option list \<Rightarrow> ('e, 'c) QueueScheduler option \<times> 'e World \<Rightarrow> ('e, 'c) QueueScheduler option \<times> 'e World" where
  "schedule_all [] st = st"
| "schedule_all (fn # fns) st = schedule_all fns (Schedule (fst st) fn (snd st))"

text \<open>The two post functions of the tests: one that counts and accepts, one that counts
  and refuses.\<close>

definition post_accept :: "nat PostFunc" where
  "post_accept e m = (True, Suc e)"

definition post_refuse :: "nat PostFunc" where
  "post_refuse e m = (False, Suc e)"

definition pending_of :: "'e Invalidator option \<Rightarrow> bool" where
  "pending_of i = (case i of None \<Rightarrow> False | Some iv \<Rightarrow> inv_pending iv)"

definition qs_pending_of :: "('e, 'c) QueueScheduler option \<Rightarrow> bool" where
  "qs_pending_of s = (case s of None \<Rightarrow> False | Some qs \<Rightarrow> qs_pending qs)"

section \<open>Run-time failures\<close>

text \<open>Every way in which the modelled Go code can panic is a value of this type; a
  fallible operation returns \<open>Inl\<close> of it.\<close>

datatype panic =
    NilDereference
  | IndexOutOfRange
  | SliceBoundsOutOfRange
  | MakeSliceLenOutOfRange
  | DivideByZero

definition bindR :: "panic + 'a \<Rightarrow> ('a \<Rightarrow> panic + 'b) \<Rightarrow> panic + 'b" where
  "bindR m f = (case m of Inl e \<Rightarrow> Inl e | Inr v \<Rightarrow> f v)"

definition deref :: "'a option \<Rightarrow> panic + 'a" where
  "deref p = (case p of None \<Rightarrow> Inl NilDereference | Some v \<Rightarrow> Inr v)"

section \<open>Cell buffer (runtime/buffer.go)\<close>

text \<open>Go's \<open>int\<close> has 64 bits and its arithmetic wraps around. A Go \<open>int\<close> is modelled
  as an \<open>int\<close> in the range from \<open>-2^63\<close> up to \<open>2^63 - 1\<close>, and every sum, difference and
  product of the source is reduced to that range (\<open>add64\<close>, \<open>sub64\<close>, \<open>mul64\<close>). The
  generation counter and the stamps are \<open>uint32\<close>, so they are 32-bit words.\<close>

definition i64 :: "int \<Rightarrow> int" where
  "i64 n = (n + 9223372036854775808) mod 18446744073709551616 - 9223372036854775808"

definition is_i64 :: "int \<Rightarrow> bool" where
  "is_i64 n = (- 9223372036854775808 \<le> n \<and> n < 9223372036854775808)"

definition add64 :: "int \<Rightarrow> int \<Rightarrow> int" where
  "add64 a b = i64 (a + b)"

definition sub64 :: "int \<Rightarrow> int \<Rightarrow> int" where
  "sub64 a b = i64 (a - b)"

definition mul64 :: "int \<Rightarrow> int \<Rightarrow> int" where
  "mul64 a b = i64 (a * b)"

text \<open>Modelled from the spec: \<open>backend.Cell\<close> and \<open>backend.Style\<close> are declared outside the
  sources. A cell is a display character plus a style attribute; a style is an opaque
  value compared by equality, whose zero value is \<open>0\<close>.\<close>

type_synonym Style = nat

datatype Cell = Cell (Rune: int) (Style: Style)

definition DefaultStyle :: Style where
  "DefaultStyle = 0"

datatype Rect = Rect (X: int) (Y: int) (Width: int) (Height: int)

record Buffer =
  cells :: "Cell list"
  width :: int
  height :: int
  dirtyStamp :: "32 word list"
  dirtyGen :: "32 word"
  dirtyAll :: bool
  dirtyCount :: int
  dirtyRect :: Rect
  dirtyIndices :: "int list"
  dirtyListCap :: int
  dirtyListEnabled :: bool

definition calcDirtyListCap :: "int \<Rightarrow> int" where
  "calcDirtyListCap tot =
     (if tot \<le> 0 then 0
      else
        let capacity = tot div 4;
            capacity = (if capacity < 256 then 256 else capacity);
            capacity = (if capacity > 8192 then 8192 else capacity);
            capacity = (if capacity > tot then tot else capacity)
        in capacity)"

text \<open>\<open>make([]T, n)\<close> panics for a negative length. Memory is not modelled: for every
  other length the allocation succeeds.\<close>

definition NewBuffer :: "int \<Rightarrow> int \<Rightarrow> panic + Buffer" where
  "NewBuffer w h =
     (let tot = mul64 w h in
      if tot < 0 then Inl MakeSliceLenOutOfRange
      else Inr \<lparr>cells = replicate (nat tot) (Cell 0 0),
                width = w, height = h,
                dirtyStamp = replicate (nat tot) 0,
                dirtyGen = 1,
                dirtyAll = False,
                dirtyCount = 0,
                dirtyRect = Rect 0 0 0 0,
                dirtyIndices = [],
                dirtyListCap = calcDirtyListCap tot,
                dirtyListEnabled = True\<rparr>)"

definition Size :: "Buffer \<Rightarrow> int \<times> int" where
  "Size b = (width b, height b)"

subsection \<open>Dirty tracking\<close>

text \<open>The expansion of the bounding rectangle in \<open>markCellDirty\<close> (the branch taken when
  the cell is not the first dirty one).\<close>

definition expandRect :: "Rect \<Rightarrow> int \<Rightarrow> int \<Rightarrow> Rect" where
  "expandRect r x y =
     (let r1 = (if x < X r then Rect x (Y r) (add64 (Width r) (sub64 (X r) x)) (Height r)
                else if x \<ge> add64 (X r) (Width r) then Rect (X r) (Y r) (add64 (sub64 x (X r)) 1) (Height r)
                else r);
          r2 = (if y < Y r1 then Rect (X r1) y (Width r1) (add64 (Height r1) (sub64 (Y r1) y))
                else if y \<ge> add64 (Y r1) (Height r1) then Rect (X r1) (Y r1) (Width r1) (add64 (sub64 y (Y r1)) 1)
                else r1)
      in r2)"

definition markCellDirty :: "Buffer \<Rightarrow> int \<Rightarrow> int \<Rightarrow> int \<Rightarrow> panic + Buffer" where
  "markCellDirty b x y idx =
     (if dirtyAll b then Inr b
      else if idx < 0 \<or> idx \<ge> int (length (dirtyStamp b)) then Inl IndexOutOfRange
      else if dirtyStamp b ! nat idx \<noteq> dirtyGen b then
        (let b1 = b\<lparr>dirtyStamp := (dirtyStamp b)[nat idx := dirtyGen b],
                     dirtyCount := add64 (dirtyCount b) 1\<rparr>;
             b2 = (if dirtyCount b1 = 1 then b1\<lparr>dirtyRect := Rect x y 1 1\<rparr>
                   else b1\<lparr>dirtyRect := expandRect (dirtyRect b1) x y\<rparr>);
             b3 = (if dirtyListEnabled b2 then
                     (if dirtyCount b2 \<le> dirtyListCap b2
                      then b2\<lparr>dirtyIndices := dirtyIndices b2 @ [idx]\<rparr>
                      else b2\<lparr>dirtyListEnabled := False, dirtyIndices := []\<rparr>)
                   else b2)
         in Inr b3)
      else Inr b)"

definition MarkAllDirty :: "Buffer \<Rightarrow> Buffer" where
  "MarkAllDirty b =
     b\<lparr>dirtyAll := True,
       dirtyCount := mul64 (width b) (height b),
       dirtyRect := Rect 0 0 (width b) (height b),
       dirtyListEnabled := False,
       dirtyIndices := []\<rparr>"

definition advanceDirtyGen :: "Buffer \<Rightarrow> Buffer" where
  "advanceDirtyGen b =
     (let b1 = b\<lparr>dirtyGen := dirtyGen b + 1\<rparr> in
      if dirtyGen b1 = 0
      then b1\<lparr>dirtyStamp := map (\<lambda>_. 0) (dirtyStamp b1), dirtyGen := 1\<rparr>
      else b1)"

definition ClearDirty :: "Buffer \<Rightarrow> Buffer" where
  "ClearDirty b =
     advanceDirtyGen
       (b\<lparr>dirtyAll := False,
          dirtyCount := 0,
          dirtyRect := Rect 0 0 0 0,
          dirtyListEnabled := True,
          dirtyIndices := []\<rparr>)"

definition IsDirty :: "Buffer \<Rightarrow> bool" where
  "IsDirty b = (dirtyAll b \<or> dirtyCount b > 0)"

definition DirtyCount :: "Buffer \<Rightarrow> int" where
  "DirtyCount b = (if dirtyAll b then mul64 (width b) (height b) else dirtyCount b)"

definition DirtyRect :: "Buffer \<Rightarrow> Rect" where
  "DirtyRect b = (if dirtyAll b then Rect 0 0 (width b) (height b) else dirtyRect b)"

definition IsCellDirty :: "Buffer \<Rightarrow> int \<Rightarrow> int \<Rightarrow> panic + bool" where
  "IsCellDirty b x y =
     (if x < 0 \<or> x \<ge> width b \<or> y < 0 \<or> y \<ge> height b then Inr False
      else if dirtyAll b then Inr True
      else let idx = add64 (mul64 y (width b)) x in
        if idx < 0 \<or> idx \<ge> int (length (dirtyStamp b)) then Inl IndexOutOfRange
        else Inr (dirtyStamp b ! nat idx = dirtyGen b))"

subsection \<open>Reads and writes\<close>

definition Buffer_Get :: "Buffer \<Rightarrow> int \<Rightarrow> int \<Rightarrow> panic + Cell" where
  "Buffer_Get b x y =
     (if x < 0 \<or> x \<ge> width b \<or> y < 0 \<or> y \<ge> height b then Inr (Cell 32 0)
      else let idx = add64 (mul64 y (width b)) x in
        if idx < 0 \<or> idx \<ge> int (length (cells b)) then Inl IndexOutOfRange
        else Inr (cells b ! nat idx))"

text \<open>The write step that \<open>Set\<close>, \<open>SetString\<close> and \<open>Fill\<close> each spell out: read the old
  cell at \<open>idx\<close>, and only when it differs from the new one store the new cell and mark it
  dirty. (\<open>Fill\<close> compares the whole struct, which for a cell of a rune and a style is the
  same test.)\<close>

definition put_cell :: "Buffer \<Rightarrow> int \<Rightarrow> int \<Rightarrow> int \<Rightarrow> Cell \<Rightarrow> panic + Buffer" where
  "put_cell b x y idx c =
     (if idx < 0 \<or> idx \<ge> int (length (cells b)) then Inl IndexOutOfRange
      else let old = cells b ! nat idx in
        if Rune old \<noteq> Rune c \<or> Style old \<noteq> Style c
        then markCellDirty (b\<lparr>cells := (cells b)[nat idx := c]\<rparr>) x y idx
        else Inr b)"

definition Buffer_Set :: "Buffer \<Rightarrow> int \<Rightarrow> int \<Rightarrow> int \<Rightarrow> Style \<Rightarrow> panic + Buffer" where
  "Buffer_Set b x y r s =
     (if x < 0 \<or> x \<ge> width b \<or> y < 0 \<or> y \<ge> height b then Inr b
      else put_cell b x y (add64 (mul64 y (width b)) x) (Cell r s))"

subsection \<open>Strings\<close>

text \<open>A Go string is a sequence of bytes. \<open>for i, r := range s\<close> decodes it as UTF-8 and
  yields, for every rune, the byte offset \<open>i\<close> at which it starts; an invalid or truncated
  encoding yields the replacement rune \<open>0xFFFD\<close> and advances by one byte. The offsets are
  below the length of the string, which in Go is below \<open>2^63\<close>, so they do not wrap.\<close>

definition cont_byte :: "nat \<Rightarrow> bool" where
  "cont_byte c = (128 \<le> c \<and> c \<le> 191)"

fun decodeRune :: "nat list \<Rightarrow> int \<times> nat" where
  "decodeRune [] = (65533, 0)"
| "decodeRune (b0 # rest) =
     (if b0 < 128 then (int b0, 1)
      else if b0 < 194 then (65533, 1)
      else if b0 < 224 then
        (case rest of
           b1 # _ \<Rightarrow> if cont_byte b1 then (int ((b0 mod 32) * 64 + b1 mod 64), 2) else (65533, 1)
         | _ \<Rightarrow> (65533, 1))
      else if b0 < 240 then
        (case rest of
           b1 # b2 # _ \<Rightarrow>
             if (if b0 = 224 then 160 \<le> b1 \<and> b1 \<le> 191
                 else if b0 = 237 then 128 \<le> b1 \<and> b1 \<le> 159
                 else cont_byte b1) \<and> cont_byte b2
             then (int ((b0 mod 16) * 4096 + (b1 mod 64) * 64 + b2 mod 64), 3)
             else (65533, 1)
         | _ \<Rightarrow> (65533, 1))
      else if b0 < 245 then
        (case rest of
           b1 # b2 # b3 # _ \<Rightarrow>
             if (if b0 = 240 then 144 \<le> b1 \<and> b1 \<le> 191
                 else if b0 = 244 then 128 \<le> b1 \<and> b1 \<le> 143
                 else cont_byte b1) \<and> cont_byte b2 \<and> cont_byte b3
             then (int ((b0 mod 8) * 262144 + (b1 mod 64) * 4096 + (b2 mod 64) * 64 + b3 mod 64), 4)
             else (65533, 1)
         | _ \<Rightarrow> (65533, 1))
      else (65533, 1))"

text \<open>The pairs \<open>(i, r)\<close> of a \<open>range\<close> loop over the bytes \<open>bs\<close>, the offsets counted from
  \<open>i\<close>. The decoder consumes at least one byte of a non-empty input.\<close>

function range_runes :: "int \<Rightarrow> nat list \<Rightarrow> (int \<times> int) list" where
  "range_runes i [] = []"
| "range_runes i (b0 # rest) =
     (case decodeRune (b0 # rest) of
        (r, n) \<Rightarrow> (i, r) # range_runes (i + int n) (drop (n - 1) rest))"
  by pat_completeness auto
termination
  by (relation "measure (\<lambda>(i, bs). length bs)") auto

definition bytes_of :: "string \<Rightarrow> nat list" where
  "bytes_of s = map of_char s"

text \<open>The first loop of \<open>SetString\<close>: single-byte characters are written directly. It
  stops at the end of the string, at the right edge of the buffer, or at the first byte
  \<open>\<ge> 0x80\<close>, and returns the number \<open>i\<close> of bytes consumed.\<close>

fun ascii_loop :: "Buffer \<Rightarrow> int \<Rightarrow> int \<Rightarrow> nat \<Rightarrow> nat list \<Rightarrow> Style \<Rightarrow> panic + (Buffer \<times> nat)" where
  "ascii_loop b px y i [] style = Inr (b, i)"
| "ascii_loop b px y i (ch # rest) style =
     (if \<not> px < width b then Inr (b, i)
      else if ch \<ge> 128 then Inr (b, i)
      else
        (case put_cell b px y (add64 (mul64 y (width b)) px) (Cell (int ch) style) of
           Inl e \<Rightarrow> Inl e
         | Inr b' \<Rightarrow> ascii_loop b' (add64 px 1) y (Suc i) rest style))"

text \<open>The \<open>range\<close> loops of \<open>SetString\<close>: the column is the start column plus the byte
  offset of the rune; columns left of the buffer are skipped, the first column right of
  it ends the loop.\<close>

fun range_loop :: "Buffer \<Rightarrow> int \<Rightarrow> int \<Rightarrow> (int \<times> int) list \<Rightarrow> Style \<Rightarrow> panic + Buffer" where
  "range_loop b off y [] style = Inr b"
| "range_loop b off y ((j, r) # rest) style =
     (let px = add64 off j in
      if px < 0 then range_loop b off y rest style
      else if px \<ge> width b then Inr b
      else
        (case put_cell b px y (add64 (mul64 y (width b)) px) (Cell r style) of
           Inl e \<Rightarrow> Inl e
         | Inr b' \<Rightarrow> range_loop b' off y rest style))"

definition Buffer_SetString :: "Buffer \<Rightarrow> int \<Rightarrow> int \<Rightarrow> string \<Rightarrow> Style \<Rightarrow> panic + Buffer" where
  "Buffer_SetString b x y s style =
     (if y < 0 \<or> y \<ge> height b then Inr b
      else if x \<ge> width b then Inr b
      else if x \<ge> 0 then
        (case ascii_loop b x y 0 (bytes_of s) style of
           Inl e \<Rightarrow> Inl e
         | Inr (b1, i) \<Rightarrow>
             if i \<ge> length s then Inr b1
             else range_loop b1 (add64 x (int i)) y (range_runes 0 (drop i (bytes_of s))) style)
      else range_loop b x y (range_runes 0 (bytes_of s)) style)"

subsection \<open>Fill\<close>

text \<open>The inner loop of \<open>Fill\<close> over the columns of one row; \<open>idx\<close> is incremented with the
  column, as in the source.\<close>

fun fill_row :: "Buffer \<Rightarrow> int \<Rightarrow> int \<Rightarrow> int list \<Rightarrow> Cell \<Rightarrow> panic + Buffer" where
  "fill_row b y idx [] c = Inr b"
| "fill_row b y idx (x # xs) c =
     (case put_cell b x y idx c of
        Inl e \<Rightarrow> Inl e
      | Inr b' \<Rightarrow> fill_row b' y (add64 idx 1) xs c)"

fun fill_rows :: "Buffer \<Rightarrow> int list \<Rightarrow> int \<Rightarrow> int \<Rightarrow> Cell \<Rightarrow> panic + Buffer" where
  "fill_rows b [] x0 x1 c = Inr b"
| "fill_rows b (y # ys) x0 x1 c =
     (case fill_row b y (add64 (mul64 y (width b)) x0) [x0..x1 - 1] c of
        Inl e \<Rightarrow> Inl e
      | Inr b' \<Rightarrow> fill_rows b' ys x0 x1 c)"

definition Buffer_Fill :: "Buffer \<Rightarrow> Rect \<Rightarrow> int \<Rightarrow> Style \<Rightarrow> panic + Buffer" where
  "Buffer_Fill b r ch s =
     (let x0 = max 0 (X r);
          y0 = max 0 (Y r);
          x1 = min (width b) (add64 (X r) (Width r));
          y1 = min (height b) (add64 (Y r) (Height r))
      in fill_rows b [y0..y1 - 1] x0 x1 (Cell ch s))"

subsection \<open>Resize\<close>

text \<open>One \<open>copy(newCells[y*w : y*w+minW], b.cells[y*bw : y*bw+minW])\<close>. A slice expression
  \<open>s[lo:hi]\<close> panics unless \<open>0 \<le> lo \<le> hi \<le> cap s\<close>; both slices here have their capacity
  equal to their length. \<open>copy\<close> moves as many elements as the shorter of the two slices
  has.\<close>

definition slice_ok :: "int \<Rightarrow> int \<Rightarrow> nat \<Rightarrow> bool" where
  "slice_ok lo hi n = (0 \<le> lo \<and> lo \<le> hi \<and> hi \<le> int n)"

definition copy_row :: "Cell list \<Rightarrow> Cell list \<Rightarrow> int \<Rightarrow> int \<Rightarrow> int \<Rightarrow> int \<Rightarrow> panic + Cell list" where
  "copy_row newCells old y w bw minW =
     (let lo1 = mul64 y w; hi1 = add64 (mul64 y w) minW;
          lo2 = mul64 y bw; hi2 = add64 (mul64 y bw) minW
      in if slice_ok lo1 hi1 (length newCells) \<and> slice_ok lo2 hi2 (length old)
         then
           (let n = min (nat (hi1 - lo1)) (nat (hi2 - lo2))
            in Inr (take (nat lo1) newCells
                    @ take n (drop (nat lo2) old)
                    @ drop (nat lo1 + n) newCells))
         else Inl SliceBoundsOutOfRange)"

fun copy_rows :: "Cell list \<Rightarrow> Cell list \<Rightarrow> int list \<Rightarrow> int \<Rightarrow> int \<Rightarrow> int \<Rightarrow> panic + Cell list" where
  "copy_rows newCells old [] w bw minW = Inr newCells"
| "copy_rows newCells old (y # ys) w bw minW =
     (case copy_row newCells old y w bw minW of
        Inl e \<Rightarrow> Inl e
      | Inr newCells' \<Rightarrow> copy_rows newCells' old ys w bw minW)"

definition Buffer_Resize :: "Buffer \<Rightarrow> int \<Rightarrow> int \<Rightarrow> panic + Buffer" where
  "Buffer_Resize b w h =
     (if w = width b \<and> h = height b then Inr b
      else if mul64 w h < 0 then Inl MakeSliceLenOutOfRange
      else
        (let minW = min w (width b);
             minH = min h (height b)
         in case copy_rows (replicate (nat (mul64 w h)) (Cell 0 0)) (cells b) [0..minH - 1] w (width b) minW of
              Inl e \<Rightarrow> Inl e
            | Inr newCells \<Rightarrow>
                Inr (MarkAllDirty
                  (b\<lparr>cells := newCells,
                     dirtyStamp := replicate (nat (mul64 w h)) 0,
                     dirtyGen := 1,
                     dirtyAll := False,
                     dirtyCount := 0,
                     dirtyRect := Rect 0 0 0 0,
                     width := w,
                     height := h,
                     dirtyListCap := calcDirtyListCap (mul64 w h),
                     dirtyListEnabled := True,
                     dirtyIndices := []\<rparr>))))"

definition Clear :: "Buffer \<Rightarrow> panic + Buffer" where
  "Clear b = Buffer_Fill b (Rect 0 0 (width b) (height b)) 32 DefaultStyle"

definition ClearRect :: "Buffer \<Rightarrow> Rect \<Rightarrow> panic + Buffer" where
  "ClearRect b r = Buffer_Fill b r 32 DefaultStyle"

text \<open>The buffer that \<open>markCellDirty\<close> returns for a cell whose stamp is not yet the
  current generation (with \<open>dirtyAll\<close> false and \<open>idx\<close> in range).\<close>

definition mark_new :: "Buffer \<Rightarrow> int \<Rightarrow> int \<Rightarrow> int \<Rightarrow> Buffer" where
  "mark_new b x y idx =
     b\<lparr>dirtyStamp := (dirtyStamp b)[nat idx := dirtyGen b],
       dirtyCount := add64 (dirtyCount b) 1,
       dirtyRect := (if add64 (dirtyCount b) 1 = 1 then Rect x y 1 1 else expandRect (dirtyRect b) x y),
       dirtyIndices := (if dirtyListEnabled b \<and> add64 (dirtyCount b) 1 \<le> dirtyListCap b
                        then dirtyIndices b @ [idx]
                        else if dirtyListEnabled b then [] else dirtyIndices b),
       dirtyListEnabled := (dirtyListEnabled b \<and> add64 (dirtyCount b) 1 \<le> dirtyListCap b)\<rparr>"

subsection \<open>Well-formedness and the dirty-tracking invariant\<close>

definition in_bounds :: "Buffer \<Rightarrow> int \<Rightarrow> int \<Rightarrow> bool" where
  "in_bounds b x y = (0 \<le> x \<and> x < width b \<and> 0 \<le> y \<and> y < height b)"

text \<open>The dimensions are Go integers whose product does not wrap around: the area
  \<open>width * height\<close> is the mathematical product.\<close>

definition dims_fit :: "int \<Rightarrow> int \<Rightarrow> bool" where
  "dims_fit w h = (is_i64 w \<and> is_i64 h \<and> 0 \<le> w * h \<and> w * h < 9223372036854775808)"

text \<open>The backing arrays have \<open>width * height\<close> entries.\<close>

definition buf_wf :: "Buffer \<Rightarrow> bool" where
  "buf_wf b =
     (dims_fit (width b) (height b)
      \<and> length (cells b) = nat (width b * height b)
      \<and> length (dirtyStamp b) = nat (width b * height b))"

text \<open>The indices of the cells whose stamp equals the current generation.\<close>

definition stamped :: "Buffer \<Rightarrow> nat list" where
  "stamped b = filter (\<lambda>i. dirtyStamp b ! i = dirtyGen b) [0..<length (dirtyStamp b)]"

definition rect_contains :: "Rect \<Rightarrow> int \<Rightarrow> int \<Rightarrow> bool" where
  "rect_contains r x y = (X r \<le> x \<and> x < X r + Width r \<and> Y r \<le> y \<and> y < Y r + Height r)"

definition rect_within :: "Buffer \<Rightarrow> Rect \<Rightarrow> bool" where
  "rect_within b r =
     (0 \<le> X r \<and> 0 \<le> Y r \<and> 0 < Width r \<and> 0 < Height r
      \<and> X r + Width r \<le> width b \<and> Y r + Height r \<le> height b)"

text \<open>The column and the row of a cell index.\<close>

definition col_of :: "Buffer \<Rightarrow> nat \<Rightarrow> int" where
  "col_of b i = int i mod width b"

definition row_of :: "Buffer \<Rightarrow> nat \<Rightarrow> int" where
  "row_of b i = int i div width b"

text \<open>What the accessors and iteration helpers rely on while \<open>dirtyAll\<close> is false: the
  count is the number of stamped cells, every stamped cell lies in the bounding rectangle,
  and an enabled sparse list holds exactly the stamped indices, each once.\<close>

definition dirty_agree :: "Buffer \<Rightarrow> bool" where
  "dirty_agree b =
     (dirtyCount b = int (length (stamped b))
      \<and> (\<forall>i\<in>set (stamped b). rect_contains (dirtyRect b) (col_of b i) (row_of b i))
      \<and> (dirtyListEnabled b \<longrightarrow>
            distinct (dirtyIndices b) \<and> set (dirtyIndices b) = set (map int (stamped b))))"

text \<open>The full invariant adds what makes \<open>dirty_agree\<close> inductive: no stamp lies ahead of
  the generation counter, the counter is never the stamp of a fresh array, and a
  non-empty bounding rectangle lies inside the buffer.\<close>

definition buf_inv :: "Buffer \<Rightarrow> bool" where
  "buf_inv b =
     (buf_wf b
      \<and> dirtyGen b \<noteq> 0
      \<and> (\<forall>s\<in>set (dirtyStamp b). s \<le> dirtyGen b)
      \<and> (\<not> dirtyAll b \<longrightarrow>
            dirty_agree b \<and> (0 < dirtyCount b \<longrightarrow> rect_within b (dirtyRect b))))"

text \<open>The buffers that the public operations can produce.\<close>

inductive reachable :: "Buffer \<Rightarrow> bool" where
  r_new: "NewBuffer w h = Inr b \<Longrightarrow> reachable b"
| r_set: "reachable b \<Longrightarrow> Buffer_Set b x y r s = Inr b' \<Longrightarrow> reachable b'"
| r_setString: "reachable b \<Longrightarrow> Buffer_SetString b x y str s = Inr b' \<Longrightarrow> reachable b'"
| r_fill: "reachable b \<Longrightarrow> Buffer_Fill b rc ch s = Inr b' \<Longrightarrow> reachable b'"
| r_markAll: "reachable b \<Longrightarrow> reachable (MarkAllDirty b)"
| r_clearDirty: "reachable b \<Longrightarrow> reachable (ClearDirty b)"
| r_resize: "reachable b \<Longrightarrow> Buffer_Resize b w h = Inr b' \<Longrightarrow> reachable b'"

text \<open>A run of single-cell writes at in-bounds coordinates, with the log of the positions
  and cells written, in order.\<close>

inductive cell_writes :: "((int \<times> int) \<times> Cell) list \<Rightarrow> Buffer \<Rightarrow> Buffer \<Rightarrow> bool" where
  cw_nil: "cell_writes [] b b"
| cw_step: "in_bounds b x y \<Longrightarrow> put_cell b x y (y * width b + x) c = Inr b1
            \<Longrightarrow> cell_writes ws b1 b2 \<Longrightarrow> cell_writes (((x, y), c) # ws) b b2"

text \<open>The writes of a \<open>range\<close> loop of \<open>SetString\<close> over the runes \<open>rs\<close> on a buffer of
  width \<open>w\<close>: the loop ends at the first column at or past the width, and skips the
  columns left of the buffer.\<close>

definition range_writes :: "int \<Rightarrow> int \<Rightarrow> int \<Rightarrow> (int \<times> int) list \<Rightarrow> Style \<Rightarrow> ((int \<times> int) \<times> Cell) list" where
  "range_writes w off y rs st =
     map (\<lambda>jr. ((add64 off (fst jr), y), Cell (snd jr) st))
         (filter (\<lambda>jr. 0 \<le> add64 off (fst jr))
                 (takeWhile (\<lambda>jr. add64 off (fst jr) < w) rs))"

text \<open>The writes of \<open>Fill\<close> on the columns from \<open>x0\<close> up to \<open>x1\<close> of the rows from \<open>y0\<close> up to
  \<open>y1\<close>, row by row.\<close>

definition fill_writes :: "int \<Rightarrow> int \<Rightarrow> int \<Rightarrow> int \<Rightarrow> Cell \<Rightarrow> ((int \<times> int) \<times> Cell) list" where
  "fill_writes x0 x1 y0 y1 c = concat (map (\<lambda>y. map (\<lambda>x. ((x, y), c)) [x0..x1 - 1]) [y0..y1 - 1])"

subsection \<open>Concrete buffers\<close>

text \<open>A fresh 2 by 2 buffer, and the same buffer after the rune \<open>X\<close> (88) has been written
  at \<open>(1, 0)\<close>; a fresh 10 by 10 buffer for the sizes below the floor of the threshold.\<close>

definition buf2x2 :: Buffer where
  "buf2x2 =
     \<lparr>cells = [Cell 0 0, Cell 0 0, Cell 0 0, Cell 0 0],
      width = 2, height = 2,
      dirtyStamp = [0, 0, 0, 0],
      dirtyGen = 1,
      dirtyAll = False,
      dirtyCount = 0,
      dirtyRect = Rect 0 0 0 0,
      dirtyIndices = [],
      dirtyListCap = 4,
      dirtyListEnabled = True\<rparr>"

definition buf2x2_X :: Buffer where
  "buf2x2_X =
     \<lparr>cells = [Cell 0 0, Cell 88 0, Cell 0 0, Cell 0 0],
      width = 2, height = 2,
      dirtyStamp = [0, 1, 0, 0],
      dirtyGen = 1,
      dirtyAll = False,
      dirtyCount = 1,
      dirtyRect = Rect 1 0 1 1,
      dirtyIndices = [1],
      dirtyListCap = 4,
      dirtyListEnabled = True\<rparr>"

text \<open>Buffers whose area wraps around. \<open>2^32 * 2^32\<close> is \<open>2^64\<close>, which wraps to \<open>0\<close>: the
  buffer has the dimensions \<open>2^32\<close> by \<open>2^32\<close> and no cell. \<open>3 * 6148914691236517206\<close> is
  \<open>2^64 + 2\<close>, which wraps to \<open>2\<close>: the buffer has two cells; the second one shown is that
  buffer after the rune \<open>X\<close> has been written at \<open>(1, 6148914691236517205)\<close>, whose index
  \<open>3 * 6148914691236517205 + 1 = 2^64\<close> wraps to \<open>0\<close>.\<close>

definition buf_wrap0 :: Buffer where
  "buf_wrap0 =
     \<lparr>cells = [],
      width = 4294967296, height = 4294967296,
      dirtyStamp = [],
      dirtyGen = 1,
      dirtyAll = False,
      dirtyCount = 0,
      dirtyRect = Rect 0 0 0 0,
      dirtyIndices = [],
      dirtyListCap = 0,
      dirtyListEnabled = True\<rparr>"

definition buf_wrap2 :: Buffer where
  "buf_wrap2 =
     \<lparr>cells = [Cell 0 0, Cell 0 0],
      width = 3, height = 6148914691236517206,
      dirtyStamp = [0, 0],
      dirtyGen = 1,
      dirtyAll = False,
      dirtyCount = 0,
      dirtyRect = Rect 0 0 0 0,
      dirtyIndices = [],
      dirtyListCap = 2,
      dirtyListEnabled = True\<rparr>"

definition buf_wrap2_X :: Buffer where
  "buf_wrap2_X =
     \<lparr>cells = [Cell 88 0, Cell 0 0],
      width = 3, height = 6148914691236517206,
      dirtyStamp = [1, 0],
      dirtyGen = 1,
      dirtyAll = False,
      dirtyCount = 1,
      dirtyRect = Rect 1 6148914691236517205 1 1,
      dirtyIndices = [0],
      dirtyListCap = 2,
      dirtyListEnabled = True\<rparr>"

section \<open>Widgets and lifecycle hooks (runtime/lifecycle.go, the bind helpers)\<close>

text \<open>Modelled from the spec: the \<open>Widget\<close> interface and the optional capability
  interfaces (\<open>Lifecycle\<close>, \<open>Bindable\<close>, \<open>Unbindable\<close>, \<open>ChildProvider\<close>, \<open>BoundsProvider\<close>) are
  declared outside the sources. A widget value is a node that records which capabilities
  it implements: an identity standing for the Go pointer, whether it has mount/unmount
  hooks, whether it has a \<open>Bind\<close> and an \<open>Unbind\<close> hook, the slice that \<open>ChildWidgets()\<close>
  returns when it is a \<open>ChildProvider\<close> (the slice may hold nil widgets), and the rectangle
  that \<open>Bounds()\<close> returns when it is a \<open>BoundsProvider\<close>. A nil widget is \<open>None\<close>.\<close>

datatype Widget =
  Widget (wid: nat) (hasLifecycle: bool) (hasBind: bool) (hasUnbind: bool)
         (childProvider: "Widget option list option") (boundsProvider: "Rect option")

text \<open>Every call that the runtime makes into a widget is logged as an event.\<close>

datatype Event =
    Mount nat
  | Unmount nat
  | Bind nat
  | Unbind nat
  | Layout nat Rect
  | HandleMsg nat Message

fun mountWidget :: "Widget option \<Rightarrow> Event list" where
  "mountWidget None = []"
| "mountWidget (Some (Widget i lc hb hu cp bp)) =
     (if lc then [Mount i] else [])
     @ (case cp of
        None \<Rightarrow> []
      | Some children \<Rightarrow> concat (map mountWidget children))"

fun unmountWidget :: "Widget option \<Rightarrow> Event list" where
  "unmountWidget None = []"
| "unmountWidget (Some (Widget i lc hb hu cp bp)) =
     (case cp of
        None \<Rightarrow> []
      | Some children \<Rightarrow> concat (map unmountWidget children))
     @ (if lc then [Unmount i] else [])"

definition MountTree :: "Widget option \<Rightarrow> Event list" where
  "MountTree root = mountWidget root"

definition UnmountTree :: "Widget option \<Rightarrow> Event list" where
  "UnmountTree root = unmountWidget root"

fun bindWidget :: "Widget option \<Rightarrow> Event list" where
  "bindWidget None = []"
| "bindWidget (Some (Widget i lc hb hu cp bp)) =
     (if hb then [Bind i] else [])
     @ (case cp of
        None \<Rightarrow> []
      | Some children \<Rightarrow> concat (map bindWidget children))"

fun unbindWidget :: "Widget option \<Rightarrow> Event list" where
  "unbindWidget None = []"
| "unbindWidget (Some (Widget i lc hb hu cp bp)) =
     (case cp of
        None \<Rightarrow> []
      | Some children \<Rightarrow> concat (map unbindWidget children))
     @ (if hu then [Unbind i] else [])"

text \<open>\<open>BindTree\<close> does nothing for the zero \<open>Services\<close> value; the services are passed as the
  flag \<open>services.isZero()\<close>.\<close>

definition BindTree :: "Widget option \<Rightarrow> bool \<Rightarrow> Event list" where
  "BindTree root servicesZero = (if servicesZero then [] else bindWidget root)"

definition UnbindTree :: "Widget option \<Rightarrow> Event list" where
  "UnbindTree root = unbindWidget root"

section \<open>Commands and results (runtime/commands.go)\<close>

datatype Command =
    Quit
  | Refresh
  | SendMsg "Message option"
  | Submit string
  | Cancel
  | Effect
  | FileSelected string
  | FocusNext
  | FocusPrev
  | PushOverlay "Widget option" bool
  | PopOverlay
  | PaletteSelected string

text \<open>Modelled from the spec: \<open>HandleResult\<close> and \<open>Unhandled()\<close> are declared outside the
  sources. A result says whether the message was consumed and carries zero or more
  commands; \<open>Unhandled()\<close> is the result that consumed nothing and carries no command.\<close>

record HandleResult =
  Handled :: bool
  Commands :: "Command list"

definition Unhandled :: HandleResult where
  "Unhandled = \<lparr>Handled = False, Commands = []\<rparr>"

text \<open>What a widget answers to a message is the widget's own code; it is a parameter of the
  dispatch, given per widget identity.\<close>

type_synonym Handler = "nat \<Rightarrow> Message \<Rightarrow> HandleResult"

section \<open>Screen and layers (runtime/screen.go)\<close>

text \<open>The focus scope of a layer is declared outside the sources and takes no part in the
  mount order or in the routing of a message to layer roots; it is left out of the
  model, and the calls into it (\<open>ClearFocus\<close>, \<open>FocusNext\<close>, \<open>FocusPrev\<close>, the focus
  registration) are steps without an effect on the modelled state.\<close>

record Layer =
  Root :: "Widget option"
  Modal :: bool

text \<open>Modelled from the spec: the hit grid is declared outside the sources. It records the
  widgets added to it with their bounds, and a pointer position resolves to the
  narrowest recorded widget under the pointer (among equally narrow ones, the one added
  last).\<close>

record HitGrid =
  entries :: "(Widget \<times> Rect) list"

definition NewHitGrid :: "int \<Rightarrow> int \<Rightarrow> HitGrid" where
  "NewHitGrid w h = \<lparr>entries = []\<rparr>"

definition HitGrid_Add :: "HitGrid \<Rightarrow> Widget \<Rightarrow> Rect \<Rightarrow> HitGrid" where
  "HitGrid_Add g w r = g\<lparr>entries := entries g @ [(w, r)]\<rparr>"

fun narrowest :: "(Widget \<times> Rect) \<Rightarrow> (Widget \<times> Rect) list \<Rightarrow> Widget" where
  "narrowest best [] = fst best"
| "narrowest best (e # es) =
     (if Width (snd e) * Height (snd e) \<le> Width (snd best) * Height (snd best)
      then narrowest e es else narrowest best es)"

definition WidgetAt :: "HitGrid \<Rightarrow> int \<Rightarrow> int \<Rightarrow> Widget option" where
  "WidgetAt g x y =
     (case filter (\<lambda>e. rect_contains (snd e) x y) (entries g) of
        [] \<Rightarrow> None
      | e # es \<Rightarrow> Some (narrowest e es))"

record Screen =
  scr_width :: int
  scr_height :: int
  layers :: "Layer list"
  buffer :: "Buffer option"
  hitGrid :: "HitGrid option"
  hitGridModal :: bool
  servicesZero :: bool
  autoRegisterFocus :: bool
  hitGridDirty :: bool

definition NewScreen :: "int \<Rightarrow> int \<Rightarrow> panic + Screen" where
  "NewScreen w h =
     (case NewBuffer w h of
        Inl e \<Rightarrow> Inl e
      | Inr b \<Rightarrow>
          Inr \<lparr>scr_width = w, scr_height = h, layers = [], buffer = Some b,
               hitGrid = Some (NewHitGrid w h), hitGridModal = False,
               servicesZero = True, autoRegisterFocus = False, hitGridDirty = True\<rparr>)"

text \<open>The calls made on an incoming root: bind, layout, mount.\<close>

definition attach_root :: "Screen \<Rightarrow> Widget option \<Rightarrow> Event list" where
  "attach_root s root =
     (case root of
        None \<Rightarrow> []
      | Some r \<Rightarrow>
          BindTree root (servicesZero s)
          @ [Layout (wid r) (Rect 0 0 (scr_width s) (scr_height s))]
          @ MountTree root)"

text \<open>The calls made on an outgoing root: unmount, then unbind.\<close>

definition detach_root :: "Widget option \<Rightarrow> Event list" where
  "detach_root root =
     (case root of
        None \<Rightarrow> []
      | Some r \<Rightarrow> UnmountTree root @ UnbindTree root)"

definition SetRoot :: "Screen \<Rightarrow> Widget option \<Rightarrow> Screen \<times> Event list" where
  "SetRoot s root =
     (case layers s of
        [] \<Rightarrow>
          (let s1 = s\<lparr>layers := [\<lparr>Root = root, Modal = False\<rparr>], hitGridDirty := True\<rparr>
           in (s1, attach_root s1 root))
      | base # rest \<Rightarrow>
          (let oldRoot = Root base;
               s1 = s\<lparr>layers := base\<lparr>Root := root\<rparr> # rest, hitGridDirty := True\<rparr>
           in (s1, detach_root oldRoot @ attach_root s1 root)))"

definition PushLayer :: "Screen \<Rightarrow> Widget option \<Rightarrow> bool \<Rightarrow> Screen \<times> Event list" where
  "PushLayer s root modal =
     (let s1 = s\<lparr>layers := layers s @ [\<lparr>Root = root, Modal = modal\<rparr>], hitGridDirty := True\<rparr>
      in (s1, attach_root s1 root))"

definition PopLayer :: "Screen \<Rightarrow> bool \<times> Screen \<times> Event list" where
  "PopLayer s =
     (if length (layers s) \<le> 1 then (False, s, [])
      else
        (let top = last (layers s)
         in (True, s\<lparr>layers := butlast (layers s), hitGridDirty := True\<rparr>,
             detach_root (Root top))))"

definition TopLayer :: "Screen \<Rightarrow> Layer option" where
  "TopLayer s = (if layers s = [] then None else Some (last (layers s)))"

definition LayerCount :: "Screen \<Rightarrow> int" where
  "LayerCount s = int (length (layers s))"

text \<open>\<open>Resize\<close> stores the dimensions, resizes the buffer behind its pointer and lays every
  layer root out again.\<close>

definition Screen_Resize :: "Screen \<Rightarrow> int \<Rightarrow> int \<Rightarrow> panic + (Screen \<times> Event list)" where
  "Screen_Resize s w h =
     (case buffer s of
        None \<Rightarrow> Inl NilDereference
      | Some b \<Rightarrow>
          (case Buffer_Resize b w h of
             Inl e \<Rightarrow> Inl e
           | Inr b' \<Rightarrow>
               Inr (s\<lparr>scr_width := w, scr_height := h, buffer := Some b', hitGridDirty := True\<rparr>,
                    concat (map (\<lambda>layer. case Root layer of
                                            None \<Rightarrow> []
                                          | Some r \<Rightarrow> [Layout (wid r) (Rect 0 0 w h)])
                                (layers s)))))"

subsection \<open>Hit grid construction\<close>

fun addHitWidgets :: "HitGrid \<Rightarrow> Widget option \<Rightarrow> HitGrid" where
  "addHitWidgets g None = g"
| "addHitWidgets g (Some (Widget i lc hb hu cp bp)) =
     (case cp of
        Some (c # cs) \<Rightarrow> fold (\<lambda>child g'. addHitWidgets g' child) (c # cs) g
      | _ \<Rightarrow>
          (case bp of
             None \<Rightarrow> g
           | Some bounds \<Rightarrow>
               if Width bounds \<le> 0 \<or> Height bounds \<le> 0 then g
               else HitGrid_Add g (Widget i lc hb hu cp bp) bounds))"

definition buildHitGrid :: "Screen \<Rightarrow> Screen" where
  "buildHitGrid s =
     (let g0 = NewHitGrid (scr_width s) (scr_height s);
          s1 = s\<lparr>hitGrid := Some g0, hitGridDirty := False, hitGridModal := False\<rparr>
      in if layers s = [] then s1
         else
           (let modal = Modal (last (layers s));
                start = (if modal then length (layers s) - 1 else 0);
                g = fold (\<lambda>layer g'. addHitWidgets g' (Root layer)) (drop start (layers s)) g0
            in s1\<lparr>hitGrid := Some g, hitGridModal := modal\<rparr>))"

subsection \<open>Message dispatch\<close>

definition handleCommand :: "Screen \<Rightarrow> Command \<Rightarrow> Screen \<times> Event list" where
  "handleCommand s cmd =
     (case cmd of
        PopOverlay \<Rightarrow> (case PopLayer s of (ok, s', evs) \<Rightarrow> (s', evs))
      | PushOverlay w modal \<Rightarrow> PushLayer s w modal
      | _ \<Rightarrow> (s, []))"

fun handleCommands :: "Screen \<Rightarrow> Command list \<Rightarrow> Screen \<times> Event list" where
  "handleCommands s [] = (s, [])"
| "handleCommands s (cmd # cmds) =
     (case handleCommand s cmd of
        (s1, evs1) \<Rightarrow> (case handleCommands s1 cmds of (s2, evs2) \<Rightarrow> (s2, evs1 @ evs2)))"

text \<open>The loop \<open>for i := len(s.layers) - 1; i >= 0; i--\<close>: the first argument is \<open>i + 1\<close>.
  The slice \<open>s.layers\<close> is read again at every round, after the commands of the round
  before may have changed it.\<close>

fun dispatch_layers ::
  "Handler \<Rightarrow> Message \<Rightarrow> nat \<Rightarrow> Screen \<Rightarrow> Event list \<Rightarrow> panic + (HandleResult \<times> Screen \<times> Event list)" where
  "dispatch_layers hm msg 0 s evs = Inr (Unhandled, s, evs)"
| "dispatch_layers hm msg (Suc i) s evs =
     (if i \<ge> length (layers s) then Inl IndexOutOfRange
      else
        (let layer = layers s ! i in
         case Root layer of
           None \<Rightarrow> dispatch_layers hm msg i s evs
         | Some root \<Rightarrow>
             (let result = hm (wid root) msg in
              case handleCommands s (Commands result) of
                (s', cevs) \<Rightarrow>
                  if Handled result then Inr (result, s', evs @ [HandleMsg (wid root) msg] @ cevs)
                  else if Modal layer then Inr (Unhandled, s', evs @ [HandleMsg (wid root) msg] @ cevs)
                  else dispatch_layers hm msg i s' (evs @ [HandleMsg (wid root) msg] @ cevs))))"

definition HandleMessage ::
  "Handler \<Rightarrow> Screen \<Rightarrow> Message \<Rightarrow> panic + (HandleResult \<times> Screen \<times> Event list)" where
  "HandleMessage hm s msg =
     (case (msg, hitGrid s) of
        (MouseMsg mx my, Some g0) \<Rightarrow>
          (let s1 = (if hitGridDirty s then buildHitGrid s else s) in
           case hitGrid s1 of
             None \<Rightarrow> Inl NilDereference
           | Some g \<Rightarrow>
               (case WidgetAt g mx my of
                  Some target \<Rightarrow>
                    (let result = hm (wid target) msg in
                     case handleCommands s1 (Commands result) of
                       (s2, cevs) \<Rightarrow>
                         if Handled result \<or> hitGridModal s2
                         then Inr (result, s2, [HandleMsg (wid target) msg] @ cevs)
                         else dispatch_layers hm msg (length (layers s2)) s2
                                ([HandleMsg (wid target) msg] @ cevs))
                | None \<Rightarrow>
                    if hitGridModal s1 then Inr (Unhandled, s1, [])
                    else dispatch_layers hm msg (length (layers s1)) s1 []))
      | _ \<Rightarrow> dispatch_layers hm msg (length (layers s)) s [])"

subsection \<open>Widget trees\<close>

text \<open>The non-nil children of a widget, and all widgets of the tree below a root. The
  identities of a tree are distinct when no widget occurs in it twice.\<close>

definition children_of :: "Widget \<Rightarrow> Widget list" where
  "children_of w =
     (case childProvider w of
        None \<Rightarrow> []
      | Some cs \<Rightarrow> concat (map (\<lambda>c. case c of None \<Rightarrow> [] | Some v \<Rightarrow> [v]) cs))"

fun subwidgets :: "Widget \<Rightarrow> Widget list" where
  "subwidgets (Widget i lc hb hu cp bp) =
     Widget i lc hb hu cp bp
     # (case cp of
          None \<Rightarrow> []
        | Some cs \<Rightarrow> concat (map (\<lambda>c. case c of None \<Rightarrow> [] | Some v \<Rightarrow> subwidgets v) cs))"

definition tree_ids :: "Widget \<Rightarrow> nat list" where
  "tree_ids root = map wid (subwidgets root)"

fun mount_ids :: "Event list \<Rightarrow> nat list" where
  "mount_ids [] = []"
| "mount_ids (Mount i # es) = i # mount_ids es"
| "mount_ids (e # es) = mount_ids es"

fun unmount_ids :: "Event list \<Rightarrow> nat list" where
  "unmount_ids [] = []"
| "unmount_ids (Unmount i # es) = i # unmount_ids es"
| "unmount_ids (e # es) = unmount_ids es"

text \<open>\<open>a\<close> occurs in \<open>xs\<close>, and \<open>b\<close> occurs after the first \<open>a\<close>.\<close>

definition before :: "nat \<Rightarrow> nat \<Rightarrow> nat list \<Rightarrow> bool" where
  "before a b xs = (a \<in> set xs \<and> b \<in> set (tl (dropWhile (\<lambda>x. x \<noteq> a) xs)))"

text \<open>The identities of the widgets of a tree that have mount/unmount hooks.\<close>

definition lifecycle_ids :: "Widget \<Rightarrow> nat set" where
  "lifecycle_ids root = wid ` {w \<in> set (subwidgets root). hasLifecycle w}"

text \<open>The tree of the lifecycle test: a root with one child, both with hooks.\<close>

definition leaf2 :: Widget where
  "leaf2 = Widget 2 True False False (Some []) None"

definition root1 :: Widget where
  "root1 = Widget 1 True False False (Some [Some leaf2]) None"

definition screen0 :: Screen where
  "screen0 =
     \<lparr>scr_width = 2, scr_height = 2, layers = [], buffer = Some buf2x2,
      hitGrid = Some (NewHitGrid 2 2), hitGridModal = False,
      servicesZero = True, autoRegisterFocus = False, hitGridDirty = True\<rparr>"

definition subwidgets_opt :: "Widget option \<Rightarrow> Widget list" where
  "subwidgets_opt wo = (case wo of None \<Rightarrow> [] | Some w \<Rightarrow> subwidgets w)"

text \<open>A handler under which no widget consumes any message, and the screen obtained by
  \<open>SetRoot(root1)\<close> followed by \<open>PushLayer(nil, true)\<close>: a base layer below a modal layer
  whose root is absent.\<close>

definition never_handles :: Handler where
  "never_handles i m = Unhandled"

definition screen_modal_nil :: Screen where
  "screen_modal_nil = fst (PushLayer (fst (SetRoot screen0 (Some root1))) None True)"

text \<open>The identities of the widgets whose \<open>HandleMessage\<close> was called, in call order.\<close>

fun dispatched :: "Event list \<Rightarrow> nat list" where
  "dispatched [] = []"
| "dispatched (HandleMsg i m # es) = i # dispatched es"
| "dispatched (e # es) = dispatched es"

section \<open>Pointer receivers\<close>

text \<open>The methods of \<open>Buffer\<close>, \<open>Screen\<close> and \<open>App\<close> have pointer receivers, and Go runs a
  method on a nil pointer until it first reads or writes a field. The functions below
  are the methods named by the nil-receiver claim, with the receiver as an option.\<close>

text \<open>\<open>Buffer.Get\<close> and \<open>Buffer.Set\<close> start with
  \<open>x < 0 || x >= b.width || ...\<close>: the first disjunct is decided without the receiver,
  the second reads \<open>b.width\<close>.\<close>

definition Buffer_Get_recv :: "Buffer option \<Rightarrow> int \<Rightarrow> int \<Rightarrow> panic + Cell" where
  "Buffer_Get_recv bp x y =
     (if x < 0 then Inr (Cell 32 0)
      else case bp of None \<Rightarrow> Inl NilDereference | Some b \<Rightarrow> Buffer_Get b x y)"

definition Buffer_Set_recv :: "Buffer option \<Rightarrow> int \<Rightarrow> int \<Rightarrow> int \<Rightarrow> Style \<Rightarrow> panic + Buffer option" where
  "Buffer_Set_recv bp x y r s =
     (if x < 0 then Inr bp
      else case bp of
             None \<Rightarrow> Inl NilDereference
           | Some b \<Rightarrow> (case Buffer_Set b x y r s of Inl e \<Rightarrow> Inl e | Inr b' \<Rightarrow> Inr (Some b')))"

text \<open>\<open>Screen.Resize\<close> starts with the store \<open>s.width = w\<close>, \<open>Screen.SetRoot\<close> with the read
  \<open>len(s.layers)\<close>.\<close>

definition Screen_Resize_recv :: "Screen option \<Rightarrow> int \<Rightarrow> int \<Rightarrow> panic + (Screen option \<times> Event list)" where
  "Screen_Resize_recv sp w h =
     (case sp of
        None \<Rightarrow> Inl NilDereference
      | Some s \<Rightarrow>
          (case Screen_Resize s w h of Inl e \<Rightarrow> Inl e | Inr (s', evs) \<Rightarrow> Inr (Some s', evs)))"

definition Screen_SetRoot_recv :: "Screen option \<Rightarrow> Widget option \<Rightarrow> panic + (Screen option \<times> Event list)" where
  "Screen_SetRoot_recv sp root =
     (case sp of
        None \<Rightarrow> Inl NilDereference
      | Some s \<Rightarrow> (case SetRoot s root of (s', evs) \<Rightarrow> Inr (Some s', evs)))"

text \<open>The part of \<open>App\<close> behind \<open>Post\<close>: the buffered message channel (nil when absent) and
  its capacity. A send in a \<open>select\<close> with a \<open>default\<close> branch succeeds when the buffer has
  room and reports failure otherwise; it never blocks.\<close>

record App =
  messages :: "Message list option"
  messageBuffer :: nat

definition App_tryPost :: "App option \<Rightarrow> Message \<Rightarrow> bool \<times> App option" where
  "App_tryPost ap msg =
     (case ap of
        None \<Rightarrow> (False, None)
      | Some a \<Rightarrow>
          (case messages a of
             None \<Rightarrow> (False, Some a)
           | Some q \<Rightarrow>
               if length q < messageBuffer a then (True, Some (a\<lparr>messages := Some (q @ [msg])\<rparr>))
               else (False, Some a)))"

definition App_TryPost :: "App option \<Rightarrow> Message \<Rightarrow> bool \<times> App option" where
  "App_TryPost ap msg = App_tryPost ap msg"

definition App_Post :: "App option \<Rightarrow> Message \<Rightarrow> App option" where
  "App_Post ap msg = snd (App_tryPost ap msg)"

section \<open>Dirty iteration and the render flush (runtime/buffer.go, App.render)\<close>

text \<open>Go's integer division truncates towards zero.\<close>

definition go_div :: "int \<Rightarrow> int \<Rightarrow> int" where
  "go_div a b = sgn a * sgn b * (\<bar>a\<bar> div \<bar>b\<bar>)"

definition cell_at :: "Buffer \<Rightarrow> int \<Rightarrow> panic + Cell" where
  "cell_at b idx =
     (if idx < 0 \<or> idx \<ge> int (length (cells b)) then Inl IndexOutOfRange
      else Inr (cells b ! nat idx))"

definition stamp_at :: "Buffer \<Rightarrow> int \<Rightarrow> panic + 32 word" where
  "stamp_at b idx =
     (if idx < 0 \<or> idx \<ge> int (length (dirtyStamp b)) then Inl IndexOutOfRange
      else Inr (dirtyStamp b ! nat idx))"

text \<open>A loop whose body may panic and otherwise reports a list of callback invocations:
  the invocations of all rounds, in order, up to the first panic.\<close>

fun collectR :: "('a \<Rightarrow> panic + 'b list) \<Rightarrow> 'a list \<Rightarrow> panic + 'b list" where
  "collectR f [] = Inr []"
| "collectR f (x # xs) =
     (case f x of
        Inl e \<Rightarrow> Inl e
      | Inr ys \<Rightarrow> (case collectR f xs of Inl e \<Rightarrow> Inl e | Inr zs \<Rightarrow> Inr (ys @ zs)))"

text \<open>\<open>ForEachDirtyCell\<close> returns the arguments \<open>(x, y, cell)\<close> of the calls of \<open>fn\<close>, in
  call order.\<close>

definition visit_cell :: "Buffer \<Rightarrow> int \<Rightarrow> int \<Rightarrow> int \<Rightarrow> panic + (int \<times> int \<times> Cell) list" where
  "visit_cell b x y idx = (case cell_at b idx of Inl e \<Rightarrow> Inl e | Inr c \<Rightarrow> Inr [(x, y, c)])"

definition visit_if_stamped :: "Buffer \<Rightarrow> int \<Rightarrow> int \<Rightarrow> int \<Rightarrow> panic + (int \<times> int \<times> Cell) list" where
  "visit_if_stamped b x y idx =
     (case stamp_at b idx of
        Inl e \<Rightarrow> Inl e
      | Inr s \<Rightarrow> if s = dirtyGen b then visit_cell b x y idx else Inr [])"

definition visit_listed :: "Buffer \<Rightarrow> int \<Rightarrow> panic + (int \<times> int \<times> Cell) list" where
  "visit_listed b idx =
     (case stamp_at b idx of
        Inl e \<Rightarrow> Inl e
      | Inr s \<Rightarrow>
          if s \<noteq> dirtyGen b then Inr []
          else if width b = 0 then Inl DivideByZero
          else
            (let y = go_div idx (width b);
                 x = sub64 idx (mul64 y (width b))
             in visit_cell b x y idx))"

definition ForEachDirtyCell :: "Buffer \<Rightarrow> panic + (int \<times> int \<times> Cell) list" where
  "ForEachDirtyCell b =
     (if dirtyAll b then
        collectR (\<lambda>y. collectR (\<lambda>x. visit_cell b x y (add64 (mul64 y (width b)) x)) [0..width b - 1])
                 [0..height b - 1]
      else if dirtyCount b = 0 then Inr []
      else if dirtyCount b > go_div (mul64 (width b) (height b)) 2 then
        collectR (\<lambda>y. collectR (\<lambda>x. visit_if_stamped b x y (add64 (mul64 y (width b)) x))
                         [0..width b - 1])
                 [0..height b - 1]
      else if dirtyListEnabled b \<and> int (length (dirtyIndices b)) = dirtyCount b
              \<and> mul64 (Width (dirtyRect b)) (Height (dirtyRect b)) > mul64 (dirtyCount b) 2 then
        collectR (visit_listed b) (dirtyIndices b)
      else
        collectR
          (\<lambda>y. collectR (\<lambda>idx. visit_if_stamped b (sub64 idx (mul64 y (width b))) y idx)
                   [add64 (mul64 y (width b)) (X (dirtyRect b))
                    ..add64 (mul64 y (width b))
                        (min (width b) (add64 (X (dirtyRect b)) (Width (dirtyRect b)))) - 1])
          [Y (dirtyRect b)..min (add64 (Y (dirtyRect b)) (Height (dirtyRect b))) (height b) - 1])"

text \<open>The inner loop of \<open>ForEachDirtySpan\<close>: skip the stamped columns that follow the start
  of a span; the result is the list of columns still to scan.\<close>

fun span_end :: "Buffer \<Rightarrow> int \<Rightarrow> int list \<Rightarrow> panic + int list" where
  "span_end b rowStart [] = Inr []"
| "span_end b rowStart (x # xs) =
     (case stamp_at b (add64 rowStart x) of
        Inl e \<Rightarrow> Inl e
      | Inr s \<Rightarrow> if s = dirtyGen b then span_end b rowStart xs else Inr (x # xs))"

text \<open>The scan of one row from the columns \<open>xs\<close> up to \<open>xEnd\<close>.\<close>

function span_row :: "Buffer \<Rightarrow> int \<Rightarrow> int \<Rightarrow> int list \<Rightarrow> int \<Rightarrow> panic + (int \<times> int \<times> int) list" where
  "span_row b y rowStart [] xEnd = Inr []"
| "span_row b y rowStart (x # xs) xEnd =
     (case stamp_at b (add64 rowStart x) of
        Inl e \<Rightarrow> Inl e
      | Inr s \<Rightarrow>
          if s \<noteq> dirtyGen b then span_row b y rowStart xs xEnd
          else
            (case span_end b rowStart xs of
               Inl e \<Rightarrow> Inl e
             | Inr rest \<Rightarrow>
                 (case span_row b y rowStart rest xEnd of
                    Inl e \<Rightarrow> Inl e
                  | Inr spans \<Rightarrow>
                      Inr ((y, x, (case rest of [] \<Rightarrow> xEnd | x' # _ \<Rightarrow> x')) # spans))))"
  by pat_completeness auto
termination
proof (relation "measure (\<lambda>(b, y, rowStart, xs, xEnd). length xs)")
  show "wf (measure (\<lambda>(b, y, rowStart, xs, xEnd). length xs))" by simp
next
  fix b :: Buffer and y rowStart x :: int and xs :: "int list" and xEnd :: int and s :: "32 word"
  show "((b, y, rowStart, xs, xEnd), (b, y, rowStart, x # xs, xEnd))
          \<in> measure (\<lambda>(b, y, rowStart, xs, xEnd). length xs)"
    by simp
next
  fix b :: Buffer and y rowStart x :: int and xs rest :: "int list" and xEnd :: int and s :: "32 word"
  assume r: "span_end b rowStart xs = Inr rest"
  have "\<And>rest. span_end b rowStart xs = Inr rest \<Longrightarrow> length rest \<le> length xs"
  proof (induction xs)
    case Nil
    then show ?case by simp
  next
    case (Cons a as)
    then show ?case by (fastforce split: sum.splits if_splits)
  qed
  from this [OF r]
  show "((b, y, rowStart, rest, xEnd), (b, y, rowStart, x # xs, xEnd))
          \<in> measure (\<lambda>(b, y, rowStart, xs, xEnd). length xs)"
    by simp
qed

text \<open>\<open>ForEachDirtySpan\<close> returns the arguments \<open>(y, startX, endX)\<close> of the calls of \<open>fn\<close>.\<close>

definition ForEachDirtySpan :: "Buffer \<Rightarrow> panic + (int \<times> int \<times> int) list" where
  "ForEachDirtySpan b =
     (if dirtyAll b then Inr (map (\<lambda>y. (y, 0, width b)) [0..height b - 1])
      else if dirtyCount b = 0 then Inr []
      else
        (let rect = dirtyRect b in
         if Width rect \<le> 0 \<or> Height rect \<le> 0 then Inr []
         else
           (let xEnd = min (width b) (add64 (X rect) (Width rect));
                yEnd = min (height b) (add64 (Y rect) (Height rect))
            in collectR (\<lambda>y. span_row b y (mul64 y (width b)) [X rect..xEnd - 1] xEnd)
                        [Y rect..yEnd - 1])))"

definition Cells :: "Buffer \<Rightarrow> Cell list" where
  "Cells b = cells b"

subsection \<open>The display backend\<close>

text \<open>Modelled from the spec: the backend is an external collaborator, known by its
  interface. It is an in-memory grid of cells: \<open>SetContent\<close> stores one cell, \<open>SetRow\<close>
  stores a run of cells from a start column on, and \<open>SetRect\<close> stores a rectangle whose
  cells are given row-major with \<open>width * height\<close> entries.\<close>

type_synonym Backend = "int \<times> int \<Rightarrow> Cell"

definition SetContent :: "Backend \<Rightarrow> int \<Rightarrow> int \<Rightarrow> int \<Rightarrow> Style \<Rightarrow> Backend" where
  "SetContent bk x y r s = bk((x, y) := Cell r s)"

fun SetRow :: "Backend \<Rightarrow> int \<Rightarrow> int \<Rightarrow> Cell list \<Rightarrow> Backend" where
  "SetRow bk y startX [] = bk"
| "SetRow bk y startX (c # cs) = SetRow (bk((startX, y) := c)) y (startX + 1) cs"

fun SetRect_rows :: "Backend \<Rightarrow> int \<Rightarrow> int \<Rightarrow> nat \<Rightarrow> nat \<Rightarrow> Cell list \<Rightarrow> Backend" where
  "SetRect_rows bk x y w 0 cs = bk"
| "SetRect_rows bk x y w (Suc h) cs = SetRect_rows (SetRow bk y x (take w cs)) x (y + 1) w h (drop w cs)"

definition SetRect :: "Backend \<Rightarrow> int \<Rightarrow> int \<Rightarrow> int \<Rightarrow> int \<Rightarrow> Cell list \<Rightarrow> Backend" where
  "SetRect bk x y w h cs = SetRect_rows bk x y (nat w) (nat h) cs"

subsection \<open>The flush of \<open>App.render\<close>\<close>

text \<open>A slice expression \<open>cells[lo:hi]\<close>.\<close>

definition slice :: "Cell list \<Rightarrow> int \<Rightarrow> int \<Rightarrow> panic + Cell list" where
  "slice cs lo hi =
     (if slice_ok lo hi (length cs) then Inr (take (nat (hi - lo)) (drop (nat lo) cs))
      else Inl SliceBoundsOutOfRange)"

text \<open>The three full-redraw loops.\<close>

fun full_rows :: "Backend \<Rightarrow> Cell list \<Rightarrow> int \<Rightarrow> int list \<Rightarrow> panic + Backend" where
  "full_rows bk cs w [] = Inr bk"
| "full_rows bk cs w (y # ys) =
     (case slice cs (mul64 y w) (add64 (mul64 y w) w) of
        Inl e \<Rightarrow> Inl e
      | Inr row \<Rightarrow> full_rows (SetRow bk y 0 row) cs w ys)"

fun content_row :: "Backend \<Rightarrow> int \<Rightarrow> int \<Rightarrow> Cell list \<Rightarrow> Backend" where
  "content_row bk y x [] = bk"
| "content_row bk y x (c # cs) = content_row (SetContent bk x y (Rune c) (Style c)) y (x + 1) cs"

fun full_cells :: "Backend \<Rightarrow> Cell list \<Rightarrow> int \<Rightarrow> int list \<Rightarrow> panic + Backend" where
  "full_cells bk cs w [] = Inr bk"
| "full_cells bk cs w (y # ys) =
     (case slice cs (mul64 y w) (add64 (mul64 y w) w) of
        Inl e \<Rightarrow> Inl e
      | Inr row \<Rightarrow> full_cells (content_row bk y 0 row) cs w ys)"

text \<open>The callbacks handed to \<open>ForEachDirtySpan\<close> and \<open>ForEachDirtyCell\<close>, run over the
  reported invocations.\<close>

fun write_spans :: "Backend \<Rightarrow> Cell list \<Rightarrow> int \<Rightarrow> (int \<times> int \<times> int) list \<Rightarrow> panic + Backend" where
  "write_spans bk cs w [] = Inr bk"
| "write_spans bk cs w ((y, startX, endX) # spans) =
     (case slice cs (add64 (mul64 y w) startX) (add64 (mul64 y w) endX) of
        Inl e \<Rightarrow> Inl e
      | Inr run \<Rightarrow> write_spans (SetRow bk y startX run) cs w spans)"

fun write_cells :: "Backend \<Rightarrow> (int \<times> int \<times> Cell) list \<Rightarrow> Backend" where
  "write_cells bk [] = bk"
| "write_cells bk ((x, y, c) # vs) = write_cells (SetContent bk x y (Rune c) (Style c)) vs"

text \<open>The flush: from \<open>if buf.IsDirty()\<close> to \<open>buf.ClearDirty()\<close>. The two flags say whether
  the backend implements \<open>RowWriter\<close> and \<open>RectWriter\<close>. The render observer and the
  recorder only read and are left out.\<close>

definition render_flush :: "bool \<Rightarrow> bool \<Rightarrow> Buffer \<Rightarrow> Backend \<Rightarrow> panic + (Buffer \<times> Backend)" where
  "render_flush hasRowWriter hasRectWriter buf bk =
     (if IsDirty buf then
        (let dCount = DirtyCount buf;
             w = fst (Size buf);
             h = snd (Size buf);
             totalCells = mul64 w h;
             fullRedraw = (dCount > go_div totalCells 2);
             cs = Cells buf;
             written =
               (if fullRedraw then
                  (if hasRectWriter then Inr (SetRect bk 0 0 w h cs)
                   else if hasRowWriter then full_rows bk cs w [0..h - 1]
                   else full_cells bk cs w [0..h - 1])
                else
                  (let rect = DirtyRect buf;
                       rectArea = mul64 (Width rect) (Height rect);
                       useRect = (hasRectWriter \<and> Width rect = w \<and> rectArea > 0
                                  \<and> mul64 dCount 2 \<ge> rectArea)
                   in if useRect then
                        (case slice cs (mul64 (Y rect) w) (add64 (mul64 (Y rect) w) rectArea) of
                           Inl e \<Rightarrow> Inl e
                         | Inr part \<Rightarrow> Inr (SetRect bk 0 (Y rect) w (Height rect) part))
                      else if hasRowWriter \<and> rectArea > 0 \<and> mul64 dCount 4 \<ge> rectArea then
                        (case ForEachDirtySpan buf of
                           Inl e \<Rightarrow> Inl e
                         | Inr spans \<Rightarrow> write_spans bk cs w spans)
                      else
                        (case ForEachDirtyCell buf of
                           Inl e \<Rightarrow> Inl e
                         | Inr visits \<Rightarrow> Inr (write_cells bk visits))))
         in case written of
              Inl e \<Rightarrow> Inl e
            | Inr bk' \<Rightarrow> Inr (ClearDirty buf, bk'))
      else Inr (buf, bk))"

text \<open>The naive full linear redraw that the specification compares the flush with, written
  from the specification's words: every cell of the buffer, row by row and column by
  column, is stored in the backend at its own position.\<close>

definition all_positions :: "Buffer \<Rightarrow> (int \<times> int) list" where
  "all_positions buf =
     concat (map (\<lambda>y. map (\<lambda>x. (x, y)) [0..width buf - 1]) [0..height buf - 1])"

definition naive_redraw :: "Buffer \<Rightarrow> Backend \<Rightarrow> Backend" where
  "naive_redraw buf bk =
     fold (\<lambda>p bk'. bk'(p := cells buf ! nat (snd p * width buf + fst p))) (all_positions buf) bk"

text \<open>The backend shows the buffer at every cell that is not reported dirty.\<close>

definition clean_cells_synced :: "Buffer \<Rightarrow> Backend \<Rightarrow> bool" where
  "clean_cells_synced buf bk =
     (\<forall>x y. in_bounds buf x y \<and> IsCellDirty buf x y = Inr False
            \<longrightarrow> Buffer_Get buf x y = Inr (bk (x, y)))"

subsection \<open>Concrete backends\<close>

text \<open>A backend that shows a blank on every position, as a cleared terminal does, and one
  that holds the zero cell of a fresh buffer on every position.\<close>

definition blank_backend :: Backend where
  "blank_backend = (\<lambda>p. Cell 32 0)"

definition zero_backend :: Backend where
  "zero_backend = (\<lambda>p. Cell 0 0)"

section \<open>Verification\<close>

subsection \<open>Scheduling primitives\<close>

lemma Invalidate_pending_id:
  "inv_pending iv \<Longrightarrow> inv_post iv = Some p \<Longrightarrow> Invalidate (Some iv) w = (Some iv, w)"
  by (simp add: Invalidate_def)

lemma invalidate_n_pending_id:
  "inv_pending iv \<Longrightarrow> inv_post iv = Some p \<Longrightarrow> invalidate_n n (Some iv, w) = (Some iv, w)"
  by (induction n) (simp_all add: Invalidate_pending_id)

lemma Invalidate_first_ok:
  assumes "\<forall>e m. fst (p e m)" "inv_post iv = Some p" "\<not> inv_pending iv"
  shows "Invalidate (Some iv) w =
           (Some (iv\<lparr>inv_pending := True\<rparr>),
            \<lparr>env = snd (p (env w) InvalidateMsg), attempts = attempts w @ [InvalidateMsg]\<rparr>)"
proof -
  obtain ok e' where pe: "p (env w) InvalidateMsg = (ok, e')" by (cases "p (env w) InvalidateMsg")
  with assms(1) have "ok" by (metis fst_conv)
  with pe assms(2,3) show ?thesis by (simp add: Invalidate_def call_post_def)
qed

lemma invalidate_n_ok:
  assumes "\<forall>e m. fst (p e m)" "inv_post iv = Some p" "\<not> inv_pending iv" "1 \<le> n"
  shows "invalidate_n n (Some iv, w) =
           (Some (iv\<lparr>inv_pending := True\<rparr>),
            \<lparr>env = snd (p (env w) InvalidateMsg), attempts = attempts w @ [InvalidateMsg]\<rparr>)"
proof -
  from assms(4) obtain k where n: "n = Suc k" by (cases n) auto
  show ?thesis
    unfolding n using assms(2)
    by (simp add: Invalidate_first_ok [OF assms(1-3)] invalidate_n_pending_id)
qed

lemma Invalidate_first_fail:
  assumes "\<forall>e m. \<not> fst (p e m)" "inv_post iv = Some p" "\<not> inv_pending iv"
  shows "Invalidate (Some iv) w =
           (Some iv,
            \<lparr>env = snd (p (env w) InvalidateMsg), attempts = attempts w @ [InvalidateMsg]\<rparr>)"
proof -
  obtain ok e' where pe: "p (env w) InvalidateMsg = (ok, e')" by (cases "p (env w) InvalidateMsg")
  with assms(1) have "\<not> ok" by (metis fst_conv)
  with pe assms(2,3) show ?thesis by (simp add: Invalidate_def call_post_def)
qed

lemma Schedule_pending_id:
  "qs_pending qs \<Longrightarrow> qs_post qs = Some p \<Longrightarrow> qs_queue qs = Some q \<Longrightarrow>
   Schedule (Some qs) (Some f) w = (Some (qs\<lparr>qs_queue := Some (q @ [f])\<rparr>), w)"
  by (simp add: Schedule_def Queue_Schedule_def)

lemma schedule_all_pending:
  "qs_pending qs \<Longrightarrow> qs_post qs = Some p \<Longrightarrow> qs_queue qs = Some q \<Longrightarrow>
   schedule_all (map Some fs) (Some qs, w) = (Some (qs\<lparr>qs_queue := Some (q @ fs)\<rparr>), w)"
proof (induction fs arbitrary: qs q)
  case Nil
  then show ?case by simp
next
  case (Cons f fs)
  have "schedule_all (map Some (f # fs)) (Some qs, w)
        = schedule_all (map Some fs) (Some (qs\<lparr>qs_queue := Some (q @ [f])\<rparr>), w)"
    using Cons.prems by (simp add: Schedule_pending_id)
  also have "\<dots> = (Some (qs\<lparr>qs_queue := Some ((q @ [f]) @ fs)\<rparr>), w)"
    using Cons.prems by (subst Cons.IH [where q = "q @ [f]"]) simp_all
  finally show ?case by simp
qed

lemma Schedule_first_ok:
  assumes "\<forall>e m. fst (p e m)" "qs_post qs = Some p" "\<not> qs_pending qs" "qs_queue qs = Some q"
  shows "Schedule (Some qs) (Some f) w =
           (Some (qs\<lparr>qs_queue := Some (q @ [f]), qs_pending := True\<rparr>),
            \<lparr>env = snd (p (env w) QueueFlushMsg), attempts = attempts w @ [QueueFlushMsg]\<rparr>)"
proof -
  obtain ok e' where pe: "p (env w) QueueFlushMsg = (ok, e')" by (cases "p (env w) QueueFlushMsg")
  with assms(1) have "ok" by (metis fst_conv)
  with pe assms(2-4) show ?thesis by (simp add: Schedule_def call_post_def Queue_Schedule_def)
qed

lemma Schedule_first_fail:
  assumes "\<forall>e m. \<not> fst (p e m)" "qs_post qs = Some p" "\<not> qs_pending qs" "qs_queue qs = Some q"
  shows "Schedule (Some qs) (Some f) w =
           (Some (qs\<lparr>qs_queue := Some (q @ [f])\<rparr>),
            \<lparr>env = snd (p (env w) QueueFlushMsg), attempts = attempts w @ [QueueFlushMsg]\<rparr>)"
proof -
  obtain ok e' where pe: "p (env w) QueueFlushMsg = (ok, e')" by (cases "p (env w) QueueFlushMsg")
  with assms(1) have "\<not> ok" by (metis fst_conv)
  with pe assms(2-4) show ?thesis by (simp add: Schedule_def call_post_def Queue_Schedule_def)
qed

lemma schedule_all_ok:
  assumes "\<forall>e m. fst (p e m)" "qs_post qs = Some p" "\<not> qs_pending qs" "qs_queue qs = Some q"
    "fs \<noteq> []"
  shows "schedule_all (map Some fs) (Some qs, w) =
           (Some (qs\<lparr>qs_queue := Some (q @ fs), qs_pending := True\<rparr>),
            \<lparr>env = snd (p (env w) QueueFlushMsg), attempts = attempts w @ [QueueFlushMsg]\<rparr>)"
proof -
  from assms(5) obtain g gs where fs: "fs = g # gs" by (cases fs) auto
  show ?thesis
    unfolding fs using assms(2,4)
    by (simp add: Schedule_first_ok [OF assms(1-4)]
          schedule_all_pending [where p = p and q = "q @ [g]"])
qed

text \<open>Claim C1 (coalescing). While the post function succeeds, any number \<open>n \<ge> 1\<close> of
  \<open>Invalidate\<close> calls (or \<open>Schedule\<close> calls with non-nil callbacks) made on a primitive whose
  pending flag is clear posts exactly one wake message; after \<open>resetPending\<close> the next call
  posts again, which makes two posts in total.\<close>

theorem coalescing_one_wake:
  assumes "\<forall>e m. fst (p e m)" and "1 \<le> n"
    and "inv_post iv = Some p" and "\<not> inv_pending iv"
    and "qs_post qs = Some p" and "\<not> qs_pending qs" and "qs_queue qs = Some q"
    and "length fs = n"
  shows "attempts (snd (invalidate_n n (Some iv, w))) = attempts w @ [InvalidateMsg]
       \<and> attempts (snd (Invalidate (inv_resetPending (fst (invalidate_n n (Some iv, w))))
                              (snd (invalidate_n n (Some iv, w)))))
           = attempts w @ [InvalidateMsg, InvalidateMsg]
       \<and> attempts (snd (schedule_all (map Some fs) (Some qs, w))) = attempts w @ [QueueFlushMsg]
       \<and> attempts (snd (Schedule (qs_resetPending (fst (schedule_all (map Some fs) (Some qs, w))))
                            (Some f) (snd (schedule_all (map Some fs) (Some qs, w)))))
           = attempts w @ [QueueFlushMsg, QueueFlushMsg]"
proof -
  have fs: "fs \<noteq> []" using assms(2,8) by auto
  note i = invalidate_n_ok [OF assms(1,3,4,2), of w]
  note s = schedule_all_ok [OF assms(1,5,6,7) fs, of w]
  have a: "attempts (snd (invalidate_n n (Some iv, w))) = attempts w @ [InvalidateMsg]"
    by (simp add: i)
  have b: "attempts (snd (Invalidate (inv_resetPending (fst (invalidate_n n (Some iv, w))))
                              (snd (invalidate_n n (Some iv, w)))))
           = attempts w @ [InvalidateMsg, InvalidateMsg]"
    using assms(3)
    by (simp add: i inv_resetPending_def Invalidate_first_ok [OF assms(1)])
  have c: "attempts (snd (schedule_all (map Some fs) (Some qs, w))) = attempts w @ [QueueFlushMsg]"
    by (simp add: s)
  have d: "attempts (snd (Schedule (qs_resetPending (fst (schedule_all (map Some fs) (Some qs, w))))
                            (Some f) (snd (schedule_all (map Some fs) (Some qs, w)))))
           = attempts w @ [QueueFlushMsg, QueueFlushMsg]"
    using assms(5,7)
    by (simp add: s qs_resetPending_def Schedule_first_ok [OF assms(1), where q = "q @ fs"])
  from a b c d show ?thesis by blast
qed

theorem coalescing_one_wake_witness:
  "attempts (snd (invalidate_n 3 (Some (NewInvalidator (Some post_accept)), \<lparr>env = 0, attempts = []\<rparr>)))
     = [InvalidateMsg]
   \<and> attempts (snd (Invalidate
         (inv_resetPending (fst (invalidate_n 3 (Some (NewInvalidator (Some post_accept)), \<lparr>env = 0, attempts = []\<rparr>))))
         (snd (invalidate_n 3 (Some (NewInvalidator (Some post_accept)), \<lparr>env = 0, attempts = []\<rparr>)))))
     = [InvalidateMsg, InvalidateMsg]
   \<and> attempts (snd (schedule_all (map Some [(), (), ()])
        (Some (NewQueueScheduler None (Some post_accept)), \<lparr>env = 0, attempts = []\<rparr>)))
     = [QueueFlushMsg]"
  using coalescing_one_wake [of post_accept 3 "NewInvalidator (Some post_accept)"
      "NewQueueScheduler None (Some post_accept)" "[]" "[(), (), ()]" "\<lparr>env = 0, attempts = []\<rparr>" "()"]
  by (simp add: post_accept_def NewInvalidator_def NewQueueScheduler_def)

lemma invalidate_n_fail:
  assumes "\<forall>e m. \<not> fst (p e m)" "inv_post iv = Some p" "\<not> inv_pending iv"
  shows "fst (invalidate_n n (Some iv, w)) = Some iv
       \<and> attempts (snd (invalidate_n n (Some iv, w))) = attempts w @ replicate n InvalidateMsg"
proof (induction n arbitrary: w)
  case 0
  show ?case by simp
next
  case (Suc n)
  show ?case
    using Suc.IH [of "\<lparr>env = snd (p (env w) InvalidateMsg), attempts = attempts w @ [InvalidateMsg]\<rparr>"]
    by (simp add: Invalidate_first_fail [OF assms] replicate_app_Cons_same)
qed

lemma schedule_all_fail:
  assumes "\<forall>e m. \<not> fst (p e m)" "qs_post qs = Some p" "\<not> qs_pending qs" "qs_queue qs = Some q"
  shows "fst (schedule_all (map Some fs) (Some qs, w)) = Some (qs\<lparr>qs_queue := Some (q @ fs)\<rparr>)
       \<and> attempts (snd (schedule_all (map Some fs) (Some qs, w)))
           = attempts w @ replicate (length fs) QueueFlushMsg"
  using assms(2-4)
proof (induction fs arbitrary: w qs q)
  case Nil
  then show ?case by simp
next
  case (Cons f fs)
  let ?qs = "qs\<lparr>qs_queue := Some (q @ [f])\<rparr>"
  let ?w = "\<lparr>env = snd (p (env w) QueueFlushMsg), attempts = attempts w @ [QueueFlushMsg]\<rparr>"
  have step: "Schedule (Some qs) (Some f) w = (Some ?qs, ?w)"
    using Schedule_first_fail [OF assms(1) Cons.prems] .
  have ih: "fst (schedule_all (map Some fs) (Some ?qs, ?w)) = Some (?qs\<lparr>qs_queue := Some ((q @ [f]) @ fs)\<rparr>)
       \<and> attempts (snd (schedule_all (map Some fs) (Some ?qs, ?w)))
           = attempts ?w @ replicate (length fs) QueueFlushMsg"
    using Cons.prems by (intro Cons.IH) simp_all
  show ?case using ih by (simp add: step replicate_app_Cons_same)
qed

text \<open>Claim C3 (failed-post retry). If the post function refuses every message, each of
  \<open>n\<close> calls makes its own post attempt: the log holds exactly \<open>n\<close> attempts, and the pending
  flag is false after every call.\<close>

theorem failed_post_retry:
  assumes "\<forall>e m. \<not> fst (p e m)"
    and "inv_post iv = Some p" and "\<not> inv_pending iv"
    and "qs_post qs = Some p" and "\<not> qs_pending qs" and "qs_queue qs = Some q"
  shows "length (attempts (snd (invalidate_n n (Some iv, w)))) = length (attempts w) + n
       \<and> attempts (snd (invalidate_n n (Some iv, w))) = attempts w @ replicate n InvalidateMsg
       \<and> (\<forall>k\<le>n. \<not> pending_of (fst (invalidate_n k (Some iv, w))))
       \<and> attempts (snd (schedule_all (map Some fs) (Some qs, w)))
           = attempts w @ replicate (length fs) QueueFlushMsg
       \<and> (\<forall>k\<le>length fs. \<not> qs_pending_of (fst (schedule_all (map Some (take k fs)) (Some qs, w))))"
  using assms(3,5)
  by (simp add: invalidate_n_fail [OF assms(1-3)] schedule_all_fail [OF assms(1,4-6)]
        pending_of_def qs_pending_of_def)

theorem failed_post_retry_witness:
  "attempts (snd (invalidate_n 4 (Some (NewInvalidator (Some post_refuse)), \<lparr>env = 0, attempts = []\<rparr>)))
     = [InvalidateMsg, InvalidateMsg, InvalidateMsg, InvalidateMsg]
   \<and> \<not> pending_of (fst (invalidate_n 2 (Some (NewInvalidator (Some post_refuse)), \<lparr>env = 0, attempts = []\<rparr>)))
   \<and> attempts (snd (schedule_all (map Some [(), ()])
        (Some (NewQueueScheduler None (Some post_refuse)), \<lparr>env = 0, attempts = []\<rparr>)))
     = [QueueFlushMsg, QueueFlushMsg]"
  using failed_post_retry [of post_refuse "NewInvalidator (Some post_refuse)"
      "NewQueueScheduler None (Some post_refuse)" "[]" 4 "\<lparr>env = 0, attempts = []\<rparr>" "[(), ()]"]
  by (simp add: post_refuse_def NewInvalidator_def NewQueueScheduler_def numeral_eq_Suc
        Invalidate_def call_post_def Schedule_def Queue_Schedule_def pending_of_def)

subsection \<open>Wrapping arithmetic\<close>

lemma i64_id: "is_i64 n \<Longrightarrow> i64 n = n"
  by (simp add: i64_def is_i64_def)

lemma is_i64_i64: "is_i64 (i64 n)"
  by (simp add: i64_def is_i64_def)

lemma i64_add_left: "i64 (i64 a + b) = i64 (a + b)"
proof -
  have "(i64 a + b + 9223372036854775808) mod 18446744073709551616
      = ((a + 9223372036854775808) mod 18446744073709551616 + b) mod 18446744073709551616"
    by (simp add: i64_def algebra_simps)
  also have "\<dots> = (a + 9223372036854775808 + b) mod 18446744073709551616"
    by (rule mod_add_left_eq)
  finally show ?thesis by (simp add: i64_def algebra_simps)
qed

lemma add64_id: "is_i64 (a + b) \<Longrightarrow> add64 a b = a + b"
  by (simp add: add64_def i64_id)

lemma sub64_id: "is_i64 (a - b) \<Longrightarrow> sub64 a b = a - b"
  by (simp add: sub64_def i64_id)

lemma mul64_id: "is_i64 (a * b) \<Longrightarrow> mul64 a b = a * b"
  by (simp add: mul64_def i64_id)

lemma add64_assoc: "add64 (add64 a b) c = add64 a (b + c)"
  by (simp add: add64_def i64_add_left add.assoc)

lemma add64_zero: "is_i64 a \<Longrightarrow> add64 a 0 = a"
  by (simp add: add64_def i64_id)

lemma add64_cases:
  assumes "is_i64 a" "0 \<le> j" "j < 9223372036854775808"
  shows "add64 a j = (if a + j < 9223372036854775808 then a + j else a + j - 18446744073709551616)"
proof (cases "a + j < 9223372036854775808")
  case True
  then have "is_i64 (a + j)" using assms by (simp add: is_i64_def)
  then show ?thesis using True by (simp add: add64_id)
next
  case False
  have "(a + j + 9223372036854775808) mod 18446744073709551616
      = (a + j + 9223372036854775808 - 18446744073709551616) mod 18446744073709551616"
    by (simp only: minus_mod_self2)
  also have "\<dots> = a + j + 9223372036854775808 - 18446744073709551616"
    using False assms by (intro mod_pos_pos_trivial) (simp_all add: is_i64_def)
  finally show ?thesis using False by (simp add: add64_def i64_def)
qed

lemma dims_fit_mul64: "dims_fit w h \<Longrightarrow> mul64 w h = w * h"
  by (simp add: dims_fit_def mul64_id is_i64_def)

subsection \<open>Cell buffer: indices, single writes, loops\<close>

lemma idx_in_range:
  assumes "buf_wf b" "in_bounds b x y"
  shows "0 \<le> y * width b + x" "y * width b + x < width b * height b"
    "0 < width b" "0 < height b" "0 \<le> y * width b" "y * width b < width b * height b"
proof -
  from assms(2) have x: "0 \<le> x" "x < width b" and y: "0 \<le> y" "y < height b"
    by (simp_all add: in_bounds_def)
  show w: "0 < width b" using x by simp
  show "0 < height b" using y by simp
  show "0 \<le> y * width b + x" using x y w by simp
  show yw: "0 \<le> y * width b" using y w by simp
  have "y * width b + x < y * width b + width b" using x by simp
  also have "\<dots> = (y + 1) * width b" by (simp add: algebra_simps)
  also have "\<dots> \<le> height b * width b"
    using y w by (intro mult_right_mono) simp_all
  finally show l: "y * width b + x < width b * height b" by (simp add: mult.commute)
  show "y * width b < width b * height b" using l x by linarith
qed

lemma area_fits:
  assumes "buf_wf b"
  shows "0 \<le> width b * height b" "width b * height b < 9223372036854775808"
    "is_i64 (width b)" "is_i64 (height b)"
  using assms by (simp_all add: buf_wf_def dims_fit_def)

lemma idx64:
  assumes "buf_wf b" "in_bounds b x y"
  shows "add64 (mul64 y (width b)) x = y * width b + x" "mul64 y (width b) = y * width b"
    "add64 (y * width b) x = y * width b + x"
proof -
  note r = idx_in_range [OF assms] area_fits [OF assms(1)]
  have "is_i64 (y * width b)" unfolding is_i64_def using r(5,6,8) by linarith
  then show m: "mul64 y (width b) = y * width b" by (rule mul64_id)
  have "is_i64 (y * width b + x)" unfolding is_i64_def using r(1,2,8) by linarith
  then show a: "add64 (y * width b) x = y * width b + x" by (rule add64_id)
  show "add64 (mul64 y (width b)) x = y * width b + x"
    unfolding m by (rule a)
qed

lemma idx_nat_range:
  assumes "buf_wf b" "in_bounds b x y"
  shows "nat (y * width b + x) < length (cells b)" "nat (y * width b + x) < length (dirtyStamp b)"
  using idx_in_range [OF assms] assms(1) by (simp_all add: buf_wf_def nat_less_iff)

lemma col_row_of_idx:
  assumes "in_bounds b x y"
  shows "col_of b (nat (y * width b + x)) = x" "row_of b (nat (y * width b + x)) = y"
proof -
  from assms have x: "0 \<le> x" "x < width b" and y: "0 \<le> y" "y < height b"
    by (simp_all add: in_bounds_def)
  have nn: "0 \<le> y * width b + x" using x y by simp
  show "col_of b (nat (y * width b + x)) = x"
    using x nn by (simp add: col_of_def)
  show "row_of b (nat (y * width b + x)) = y"
    using x nn by (simp add: row_of_def)
qed

lemma set_stamped: "set (stamped b) = {i. i < length (dirtyStamp b) \<and> dirtyStamp b ! i = dirtyGen b}"
  by (auto simp: stamped_def)

lemma distinct_stamped: "distinct (stamped b)"
  by (simp add: stamped_def)

lemma length_stamped: "length (stamped b) = card (set (stamped b))"
  by (simp add: distinct_card distinct_stamped)

lemma length_stamped_le: "length (stamped b) \<le> length (dirtyStamp b)"
  unfolding stamped_def using length_filter_le [of _ "[0..<length (dirtyStamp b)]"] by simp

lemma expandRect_plain:
  assumes "rect_within b r" "in_bounds b x y" "is_i64 (width b)" "is_i64 (height b)"
  shows "expandRect r x y =
     (let r1 = (if x < X r then Rect x (Y r) (Width r + (X r - x)) (Height r)
                else if x \<ge> X r + Width r then Rect (X r) (Y r) (x - X r + 1) (Height r)
                else r);
          r2 = (if y < Y r1 then Rect (X r1) y (Width r1) (Height r1 + (Y r1 - y))
                else if y \<ge> Y r1 + Height r1 then Rect (X r1) (Y r1) (Width r1) (y - Y r1 + 1)
                else r1)
      in r2)"
proof -
  from assms have b: "0 \<le> X r" "0 \<le> Y r" "0 < Width r" "0 < Height r"
    "X r + Width r \<le> width b" "Y r + Height r \<le> height b"
    "0 \<le> x" "x < width b" "0 \<le> y" "y < height b"
    "width b < 9223372036854775808" "height b < 9223372036854775808"
    by (simp_all add: rect_within_def in_bounds_def is_i64_def)
  have x1: "sub64 (X r) x = X r - x" using b by (intro sub64_id) (simp add: is_i64_def)
  have x2: "add64 (Width r) (X r - x) = Width r + (X r - x)" using b by (intro add64_id) (simp add: is_i64_def)
  have x3: "add64 (X r) (Width r) = X r + Width r" using b by (intro add64_id) (simp add: is_i64_def)
  have x4: "sub64 x (X r) = x - X r" using b by (intro sub64_id) (simp add: is_i64_def)
  have x5: "add64 (x - X r) 1 = x - X r + 1" using b by (intro add64_id) (simp add: is_i64_def)
  have y1: "sub64 (Y r) y = Y r - y" using b by (intro sub64_id) (simp add: is_i64_def)
  have y2: "add64 (Height r) (Y r - y) = Height r + (Y r - y)" using b by (intro add64_id) (simp add: is_i64_def)
  have y3: "add64 (Y r) (Height r) = Y r + Height r" using b by (intro add64_id) (simp add: is_i64_def)
  have y4: "sub64 y (Y r) = y - Y r" using b by (intro sub64_id) (simp add: is_i64_def)
  have y5: "add64 (y - Y r) 1 = y - Y r + 1" using b by (intro add64_id) (simp add: is_i64_def)
  show ?thesis
    by (simp add: expandRect_def Let_def x1 x2 x3 x4 x5 y1 y2 y3 y4 y5)
qed

lemma expandRect_contains:
  assumes "rect_within b r" "in_bounds b x y" "is_i64 (width b)" "is_i64 (height b)"
  shows "rect_contains (expandRect r x y) x y"
    and "rect_contains r u v \<Longrightarrow> rect_contains (expandRect r x y) u v"
  using assms(1) unfolding expandRect_plain [OF assms]
  by (auto simp: rect_contains_def rect_within_def Let_def)

lemma expandRect_within:
  assumes "rect_within b r" "in_bounds b x y" "is_i64 (width b)" "is_i64 (height b)"
  shows "rect_within b (expandRect r x y)"
  using assms(1,2) unfolding expandRect_plain [OF assms]
  by (auto simp: rect_within_def Let_def in_bounds_def)

lemma markCellDirty_cases:
  "markCellDirty b x y idx =
     (if dirtyAll b then Inr b
      else if idx < 0 \<or> idx \<ge> int (length (dirtyStamp b)) then Inl IndexOutOfRange
      else if dirtyStamp b ! nat idx \<noteq> dirtyGen b then Inr (mark_new b x y idx)
      else Inr b)"
  by (simp add: markCellDirty_def mark_new_def Let_def)

lemma mark_new_fields [simp]:
  "cells (mark_new b x y idx) = cells b"
  "width (mark_new b x y idx) = width b"
  "height (mark_new b x y idx) = height b"
  "dirtyGen (mark_new b x y idx) = dirtyGen b"
  "dirtyAll (mark_new b x y idx) = dirtyAll b"
  "dirtyListCap (mark_new b x y idx) = dirtyListCap b"
  "dirtyCount (mark_new b x y idx) = add64 (dirtyCount b) 1"
  "dirtyStamp (mark_new b x y idx) = (dirtyStamp b)[nat idx := dirtyGen b]"
  by (simp_all add: mark_new_def)

lemma mark_new_rect:
  "dirtyRect (mark_new b x y idx) =
     (if add64 (dirtyCount b) 1 = 1 then Rect x y 1 1 else expandRect (dirtyRect b) x y)"
  by (simp add: mark_new_def)

lemma mark_new_list:
  "dirtyIndices (mark_new b x y idx) =
     (if dirtyListEnabled b \<and> add64 (dirtyCount b) 1 \<le> dirtyListCap b
      then dirtyIndices b @ [idx]
      else if dirtyListEnabled b then [] else dirtyIndices b)"
  "dirtyListEnabled (mark_new b x y idx) = (dirtyListEnabled b \<and> add64 (dirtyCount b) 1 \<le> dirtyListCap b)"
  by (simp_all add: mark_new_def)

lemma stamped_mark_new:
  assumes "nat idx < length (dirtyStamp b)"
  shows "set (stamped (mark_new b x y idx)) = insert (nat idx) (set (stamped b))"
  using assms by (auto simp: set_stamped nth_list_update)

lemma col_row_mark_new [simp]:
  "col_of (mark_new b x y idx) i = col_of b i" "row_of (mark_new b x y idx) i = row_of b i"
  by (simp_all add: col_of_def row_of_def)

lemma dirtyCount_inc:
  assumes wf: "buf_wf b" and cnt: "dirtyCount b = int (length (stamped b))"
    and k: "nat idx < length (dirtyStamp b)" and ns: "dirtyStamp b ! nat idx \<noteq> dirtyGen b"
  shows "add64 (dirtyCount b) 1 = dirtyCount b + 1"
proof -
  note fit = area_fits [OF wf]
  have st: "set (stamped (mark_new b 0 0 idx)) = insert (nat idx) (set (stamped b))"
    by (rule stamped_mark_new [OF k])
  have notin: "nat idx \<notin> set (stamped b)" using ns by (simp add: set_stamped)
  have "card (insert (nat idx) (set (stamped b))) \<le> length (dirtyStamp b)"
    using length_stamped_le [of "mark_new b 0 0 idx"] st by (simp add: length_stamped)
  then have "dirtyCount b + 1 \<le> width b * height b"
    using notin cnt wf fit by (simp add: length_stamped buf_wf_def)
  moreover have "0 \<le> dirtyCount b" using cnt by simp
  ultimately show ?thesis using fit by (intro add64_id) (simp add: is_i64_def)
qed

lemma mark_new_inv:
  assumes inv: "buf_inv b" and ib: "in_bounds b x y" and nd: "\<not> dirtyAll b"
    and idx: "idx = y * width b + x" and ns: "dirtyStamp b ! nat idx \<noteq> dirtyGen b"
  shows "buf_inv (mark_new b x y idx)"
proof -
  let ?b = "mark_new b x y idx"
  from inv have wf: "buf_wf b" and g0: "dirtyGen b \<noteq> 0"
    and le: "\<forall>s\<in>set (dirtyStamp b). s \<le> dirtyGen b"
    and ag: "dirty_agree b" and rw: "0 < dirtyCount b \<longrightarrow> rect_within b (dirtyRect b)"
    using nd by (simp_all add: buf_inv_def)
  note fit = area_fits [OF wf]
  have k: "nat idx < length (dirtyStamp b)" and i0: "0 \<le> idx"
    using idx_nat_range [OF wf ib] idx_in_range [OF wf ib] idx by simp_all
  have st: "set (stamped ?b) = insert (nat idx) (set (stamped b))"
    by (rule stamped_mark_new [OF k])
  have notin: "nat idx \<notin> set (stamped b)" using ns by (simp add: set_stamped)
  have cnt: "dirtyCount b = int (length (stamped b))" using ag by (simp add: dirty_agree_def)
  have inc: "add64 (dirtyCount b) 1 = dirtyCount b + 1"
    by (rule dirtyCount_inc [OF wf cnt k ns])
  have rect: "dirtyRect ?b = (if dirtyCount b = 0 then Rect x y 1 1 else expandRect (dirtyRect b) x y)"
    unfolding mark_new_rect inc by simp
  have lst: "dirtyIndices ?b =
     (if dirtyListEnabled b \<and> dirtyCount b + 1 \<le> dirtyListCap b
      then dirtyIndices b @ [idx]
      else if dirtyListEnabled b then [] else dirtyIndices b)"
    "dirtyListEnabled ?b = (dirtyListEnabled b \<and> dirtyCount b + 1 \<le> dirtyListCap b)"
    unfolding mark_new_list inc by simp_all
  have cnt': "dirtyCount ?b = dirtyCount b + 1" using inc by simp
  have wf': "buf_wf ?b" using wf by (simp add: buf_wf_def)
  have le': "\<forall>s\<in>set (dirtyStamp ?b). s \<le> dirtyGen ?b"
    using le set_update_subset_insert [of "dirtyStamp b" "nat idx" "dirtyGen b"] by auto
  have c1: "dirtyCount ?b = int (length (stamped ?b))"
    unfolding cnt' using cnt notin st by (simp add: length_stamped)
  have coords: "col_of b (nat idx) = x" "row_of b (nat idx) = y"
    using col_row_of_idx [OF ib] idx by simp_all
  have c2: "\<forall>i\<in>set (stamped ?b). rect_contains (dirtyRect ?b) (col_of ?b i) (row_of ?b i)"
  proof (cases "dirtyCount b = 0")
    case True
    then have "set (stamped b) = {}" using cnt by simp
    then show ?thesis using st coords True
      by (simp add: rect rect_contains_def)
  next
    case False
    then have pos: "0 < dirtyCount b" using cnt by simp
    then have rwb: "rect_within b (dirtyRect b)" using rw by simp
    have old: "\<forall>i\<in>set (stamped b). rect_contains (dirtyRect b) (col_of b i) (row_of b i)"
      using ag by (simp add: dirty_agree_def)
    have r: "dirtyRect ?b = expandRect (dirtyRect b) x y" using False by (simp add: rect)
    show ?thesis
      unfolding st r using old coords expandRect_contains [OF rwb ib fit(3,4)] by auto
  qed
  have c3: "dirtyListEnabled ?b \<longrightarrow>
            distinct (dirtyIndices ?b) \<and> set (dirtyIndices ?b) = set (map int (stamped ?b))"
  proof
    assume en: "dirtyListEnabled ?b"
    then have e: "dirtyListEnabled b" "dirtyCount b + 1 \<le> dirtyListCap b"
      by (simp_all add: lst)
    then have l: "dirtyIndices ?b = dirtyIndices b @ [idx]" by (simp add: lst)
    from ag e have old: "distinct (dirtyIndices b)" "set (dirtyIndices b) = set (map int (stamped b))"
      by (simp_all add: dirty_agree_def)
    have "idx \<notin> set (dirtyIndices b)"
    proof
      assume "idx \<in> set (dirtyIndices b)"
      then obtain j where "j \<in> set (stamped b)" "idx = int j" using old(2) by auto
      then show False using notin by simp
    qed
    then show "distinct (dirtyIndices ?b) \<and> set (dirtyIndices ?b) = set (map int (stamped ?b))"
      using old i0 by (simp add: l st)
  qed
  have c4: "0 < dirtyCount ?b \<longrightarrow> rect_within ?b (dirtyRect ?b)"
  proof (cases "dirtyCount b = 0")
    case True
    then show ?thesis using ib by (simp add: rect rect_within_def in_bounds_def)
  next
    case False
    then have "rect_within b (dirtyRect b)" using rw cnt by simp
    from expandRect_within [OF this ib fit(3,4)] show ?thesis using False
      by (simp add: rect rect_within_def)
  qed
  show ?thesis
    unfolding buf_inv_def using wf' g0 le' c1 c2 c3 c4 nd
    by (simp add: dirty_agree_def)
qed

lemma buf_inv_cells_update:
  "buf_inv b \<Longrightarrow> buf_inv (b\<lparr>cells := (cells b)[k := c]\<rparr>)"
  by (simp add: buf_inv_def buf_wf_def dirty_agree_def stamped_def col_of_def row_of_def rect_within_def)

lemma in_bounds_cells_update [simp]:
  "in_bounds (b\<lparr>cells := cs\<rparr>) x y = in_bounds b x y"
  by (simp add: in_bounds_def)

lemma put_cell_ok:
  assumes inv: "buf_inv b" and ib: "in_bounds b x y"
  shows "\<exists>b'. put_cell b x y (y * width b + x) c = Inr b'
           \<and> buf_inv b'
           \<and> cells b' = (cells b)[nat (y * width b + x) := c]
           \<and> width b' = width b \<and> height b' = height b
           \<and> dirtyAll b' = dirtyAll b \<and> dirtyGen b' = dirtyGen b
           \<and> dirtyListCap b' = dirtyListCap b"
proof -
  let ?idx = "y * width b + x"
  let ?b1 = "b\<lparr>cells := (cells b)[nat ?idx := c]\<rparr>"
  from inv have wf: "buf_wf b" by (simp add: buf_inv_def)
  have r: "0 \<le> ?idx" "nat ?idx < length (cells b)" "nat ?idx < length (dirtyStamp b)"
    using idx_in_range [OF wf ib] idx_nat_range [OF wf ib] by simp_all
  have r': "\<not> (?idx < 0 \<or> ?idx \<ge> int (length (cells b)))"
    "\<not> (?idx < 0 \<or> ?idx \<ge> int (length (dirtyStamp b)))" using r by linarith+
  have inv1: "buf_inv ?b1" by (rule buf_inv_cells_update [OF inv])
  show ?thesis
  proof (cases "Rune (cells b ! nat ?idx) \<noteq> Rune c \<or> Style (cells b ! nat ?idx) \<noteq> Style c")
    case False
    then have "cells b ! nat ?idx = c" by (simp add: Cell.expand)
    then have "(cells b)[nat ?idx := c] = cells b" by (metis list_update_id)
    then show ?thesis using False r' inv by (simp add: put_cell_def)
  next
    case True
    then have pc: "put_cell b x y ?idx c = markCellDirty ?b1 x y ?idx"
      using r' by (simp add: put_cell_def)
    show ?thesis
    proof (cases "dirtyAll b \<or> dirtyStamp b ! nat ?idx = dirtyGen b")
      case True
      then have "markCellDirty ?b1 x y ?idx = Inr ?b1"
        using r' by (auto simp: markCellDirty_cases)
      then show ?thesis using pc inv1 by simp
    next
      case False
      then have m: "markCellDirty ?b1 x y ?idx = Inr (mark_new ?b1 x y ?idx)"
        using r' by (auto simp: markCellDirty_cases)
      have "buf_inv (mark_new ?b1 x y ?idx)"
        using False by (intro mark_new_inv [OF inv1]) (simp_all add: ib)
      then show ?thesis using pc m by simp
    qed
  qed
qed

text \<open>What a single write keeps on every buffer, well-formed or not.\<close>

lemma put_cell_keeps:
  assumes "put_cell b x y idx c = Inr b'"
  shows "width b' = width b \<and> height b' = height b \<and> dirtyListCap b' = dirtyListCap b
       \<and> dirtyAll b' = dirtyAll b \<and> dirtyGen b' = dirtyGen b"
  using assms by (auto simp: put_cell_def markCellDirty_cases Let_def split: if_splits)

lemma put_cell_disabled:
  assumes "put_cell b x y idx c = Inr b'" "\<not> dirtyListEnabled b"
  shows "\<not> dirtyListEnabled b' \<and> dirtyIndices b' = dirtyIndices b"
  using assms
  by (auto simp: put_cell_def markCellDirty_cases mark_new_list Let_def split: if_splits)


subsection \<open>Runs of writes\<close>

lemma cell_writes_one:
  "in_bounds b x y \<Longrightarrow> put_cell b x y (y * width b + x) c = Inr b' \<Longrightarrow> cell_writes [((x, y), c)] b b'"
  by (rule cw_step [OF _ _ cw_nil])

lemma cell_writes_append:
  "cell_writes ws a b \<Longrightarrow> cell_writes ws' b c \<Longrightarrow> cell_writes (ws @ ws') a c"
  by (induction rule: cell_writes.induct) (auto intro: cell_writes.intros)

lemma cell_writes_inv:
  assumes "cell_writes ws b b'" "buf_inv b"
  shows "buf_inv b' \<and> width b' = width b \<and> height b' = height b
       \<and> length (cells b') = length (cells b)
       \<and> dirtyAll b' = dirtyAll b \<and> dirtyGen b' = dirtyGen b \<and> dirtyListCap b' = dirtyListCap b"
  using assms
proof (induction rule: cell_writes.induct)
  case (cw_nil b)
  then show ?case by simp
next
  case (cw_step b x y c b1 ws b2)
  from put_cell_ok [OF cw_step.prems cw_step.hyps(1), of c] cw_step.hyps(2)
  have "buf_inv b1 \<and> cells b1 = (cells b)[nat (y * width b + x) := c]
           \<and> width b1 = width b \<and> height b1 = height b
           \<and> dirtyAll b1 = dirtyAll b \<and> dirtyGen b1 = dirtyGen b
           \<and> dirtyListCap b1 = dirtyListCap b" by auto
  then show ?case using cw_step.IH by simp
qed

lemma cell_writes_disabled:
  assumes "cell_writes ws b b'" "\<not> dirtyListEnabled b"
  shows "\<not> dirtyListEnabled b' \<and> dirtyIndices b' = dirtyIndices b"
  using assms
  by (induction rule: cell_writes.induct) (auto dest: put_cell_disabled)

lemma in_bounds_cong: "width b' = width b \<Longrightarrow> height b' = height b \<Longrightarrow> in_bounds b' x y = in_bounds b x y"
  by (simp add: in_bounds_def)

lemma idx_inj:
  assumes "in_bounds b x y" "in_bounds b u v" "y * width b + x = v * width b + u"
  shows "x = u \<and> y = v"
  using col_row_of_idx [OF assms(1)] col_row_of_idx [OF assms(2)] assms(3) by simp

lemma Buffer_Get_eq:
  assumes "buf_wf b"
  shows "Buffer_Get b x y = Inr (if in_bounds b x y then cells b ! nat (y * width b + x) else Cell 32 0)"
proof (cases "in_bounds b x y")
  case False
  then show ?thesis by (auto simp: Buffer_Get_def in_bounds_def)
next
  case True
  have "0 \<le> y * width b + x" "nat (y * width b + x) < length (cells b)"
    using idx_in_range [OF assms True] idx_nat_range [OF assms True] by simp_all
  then have "\<not> (y * width b + x < 0 \<or> y * width b + x \<ge> int (length (cells b)))" by linarith
  then show ?thesis using True by (simp add: Buffer_Get_def in_bounds_def Let_def idx64 [OF assms True])
qed

lemma put_cell_Get:
  assumes inv: "buf_inv b" and ib: "in_bounds b x y"
    and pc: "put_cell b x y (y * width b + x) c = Inr b1"
  shows "Buffer_Get b1 u v = (if (u, v) = (x, y) then Inr c else Buffer_Get b u v)"
proof -
  from put_cell_ok [OF inv ib, of c] pc
  have i1: "buf_inv b1" and c1: "cells b1 = (cells b)[nat (y * width b + x) := c]"
    and w: "width b1 = width b" and h: "height b1 = height b" by auto
  have wf: "buf_wf b" "buf_wf b1" using inv i1 by (simp_all add: buf_inv_def)
  have ibe: "in_bounds b1 u v = in_bounds b u v" by (rule in_bounds_cong [OF w h])
  show ?thesis
  proof (cases "in_bounds b u v")
    case False
    then have "(u, v) \<noteq> (x, y)" using ib by auto
    then show ?thesis using False ibe by (auto simp: Buffer_Get_eq [OF wf(1)] Buffer_Get_eq [OF wf(2)])
  next
    case True
    have n: "0 \<le> y * width b + x" "0 \<le> v * width b + u" "nat (y * width b + x) < length (cells b)"
      using idx_in_range [OF wf(1) ib] idx_in_range [OF wf(1) True] idx_nat_range [OF wf(1) ib] by simp_all
    show ?thesis
    proof (cases "(u, v) = (x, y)")
      case True
      then show ?thesis using ib ibe n w c1
        by (simp add: Buffer_Get_eq [OF wf(2)])
    next
      case False
      then have "y * width b + x \<noteq> v * width b + u" using idx_inj [OF ib True] by auto
      then have "nat (y * width b + x) \<noteq> nat (v * width b + u)" using n by simp
      then show ?thesis using False True ibe w c1
        by (auto simp: Buffer_Get_eq [OF wf(1)] Buffer_Get_eq [OF wf(2)])
    qed
  qed
qed

text \<open>After a run of writes a cell holds what the last write to its position stored, and
  its old content if no write went there.\<close>

lemma cell_writes_Get:
  assumes "cell_writes ws b b'" "buf_inv b"
  shows "Buffer_Get b' u v = (case map_of (rev ws) (u, v) of None \<Rightarrow> Buffer_Get b u v | Some c \<Rightarrow> Inr c)"
  using assms
proof (induction rule: cell_writes.induct)
  case (cw_nil b)
  then show ?case by simp
next
  case (cw_step b x y c b1 ws b2)
  from put_cell_ok [OF cw_step.prems cw_step.hyps(1), of c] cw_step.hyps(2)
  have i1: "buf_inv b1" by auto
  note g1 = put_cell_Get [OF cw_step.prems cw_step.hyps(1,2), of u v]
  show ?case
    unfolding cw_step.IH [OF i1] g1
    by (auto simp: map_add_def split: option.splits)
qed

lemma cell_writes_Get_const:
  assumes "cell_writes ws b b'" "buf_inv b" "\<forall>pc\<in>set ws. snd pc = c"
  shows "Buffer_Get b' u v = (if (u, v) \<in> fst ` set ws then Inr c else Buffer_Get b u v)"
proof (cases "map_of (rev ws) (u, v)")
  case None
  then have "(u, v) \<notin> fst ` set ws" by (simp add: map_of_eq_None_iff)
  then show ?thesis using None cell_writes_Get [OF assms(1,2), of u v] by simp
next
  case (Some d)
  then have m: "((u, v), d) \<in> set ws" using map_of_SomeD [OF Some] by simp
  then have "d = c" using assms(3) by auto
  moreover have "(u, v) \<in> fst ` set ws" using m by force
  ultimately show ?thesis using Some cell_writes_Get [OF assms(1,2), of u v] by simp
qed

lemma cell_writes_Get_other:
  assumes "cell_writes ws b b'" "buf_inv b" "(u, v) \<notin> fst ` set ws"
  shows "Buffer_Get b' u v = Buffer_Get b u v"
proof -
  from assms(3) have "map_of (rev ws) (u, v) = None" by (simp add: map_of_eq_None_iff)
  then show ?thesis using cell_writes_Get [OF assms(1,2), of u v] by simp
qed

lemma cell_writes_Get_distinct:
  assumes "cell_writes ws b b'" "buf_inv b" "distinct (map fst ws)" "((u, v), c) \<in> set ws"
  shows "Buffer_Get b' u v = Inr c"
proof -
  have "distinct (map fst (rev ws))" using assms(3) by (simp add: rev_map [symmetric])
  then have "map_of (rev ws) (u, v) = Some c" using assms(4) by (intro map_of_is_SomeI) simp_all
  then show ?thesis using cell_writes_Get [OF assms(1,2), of u v] by simp
qed

subsection \<open>What the write loops keep on every buffer\<close>

lemma Buffer_Set_keeps:
  assumes "Buffer_Set b x y r s = Inr b'"
  shows "width b' = width b \<and> height b' = height b \<and> dirtyListCap b' = dirtyListCap b"
  using assms put_cell_keeps by (auto simp: Buffer_Set_def split: if_splits)

lemma ascii_loop_keeps:
  "ascii_loop b px y i bs st = Inr (b', i') \<Longrightarrow>
     width b' = width b \<and> height b' = height b \<and> dirtyListCap b' = dirtyListCap b"
proof (induction bs arbitrary: b px i)
  case Nil
  then show ?case by simp
next
  case (Cons ch rest)
  show ?case
  proof (cases "px < width b \<and> ch < 128")
    case False
    then show ?thesis using Cons.prems by (auto split: if_splits)
  next
    case True
    then obtain b1 where b1: "put_cell b px y (add64 (mul64 y (width b)) px) (Cell (int ch) st) = Inr b1"
      "ascii_loop b1 (add64 px 1) y (Suc i) rest st = Inr (b', i')"
      using Cons.prems by (auto split: sum.splits)
    from Cons.IH [OF b1(2)] put_cell_keeps [OF b1(1)] show ?thesis by simp
  qed
qed

lemma range_loop_keeps:
  "range_loop b off y rs st = Inr b' \<Longrightarrow>
     width b' = width b \<and> height b' = height b \<and> dirtyListCap b' = dirtyListCap b"
proof (induction rs arbitrary: b)
  case Nil
  then show ?case by simp
next
  case (Cons jr rest)
  obtain j r where jr: "jr = (j, r)" by (cases jr)
  show ?case
  proof (cases "add64 off j < 0")
    case True
    then show ?thesis using Cons jr by simp
  next
    case nneg: False
    show ?thesis
    proof (cases "add64 off j \<ge> width b")
      case True
      then show ?thesis using Cons.prems nneg jr by simp
    next
      case False
      then obtain b1 where b1: "put_cell b (add64 off j) y (add64 (mul64 y (width b)) (add64 off j)) (Cell r st) = Inr b1"
        "range_loop b1 off y rest st = Inr b'"
        using Cons.prems nneg jr by (auto simp: Let_def split: sum.splits)
      from Cons.IH [OF b1(2)] put_cell_keeps [OF b1(1)] show ?thesis by simp
    qed
  qed
qed

lemma Buffer_SetString_keeps:
  assumes "Buffer_SetString b x y s st = Inr b'"
  shows "width b' = width b \<and> height b' = height b \<and> dirtyListCap b' = dirtyListCap b"
proof (cases "y < 0 \<or> y \<ge> height b \<or> x \<ge> width b")
  case True
  then show ?thesis using assms by (auto simp: Buffer_SetString_def split: if_splits)
next
  case False
  show ?thesis
  proof (cases "x \<ge> 0")
    case False
    then show ?thesis using assms \<open>\<not> (y < 0 \<or> y \<ge> height b \<or> x \<ge> width b)\<close> range_loop_keeps
      by (auto simp: Buffer_SetString_def)
  next
    case True
    then obtain b1 i where a: "ascii_loop b x y 0 (bytes_of s) st = Inr (b1, i)"
      and r: "(if i \<ge> length s then Inr b1
               else range_loop b1 (add64 x (int i)) y (range_runes 0 (drop i (bytes_of s))) st) = Inr b'"
      using assms \<open>\<not> (y < 0 \<or> y \<ge> height b \<or> x \<ge> width b)\<close>
      by (auto simp: Buffer_SetString_def split: sum.splits)
    from r range_loop_keeps [of b1 "add64 x (int i)" y "range_runes 0 (drop i (bytes_of s))" st b']
    have "width b' = width b1 \<and> height b' = height b1 \<and> dirtyListCap b' = dirtyListCap b1"
      by (auto split: if_splits)
    then show ?thesis using ascii_loop_keeps [OF a] by simp
  qed
qed

lemma fill_row_keeps:
  "fill_row b y idx xs c = Inr b' \<Longrightarrow>
     width b' = width b \<and> height b' = height b \<and> dirtyListCap b' = dirtyListCap b"
proof (induction xs arbitrary: b idx)
  case Nil
  then show ?case by simp
next
  case (Cons x xs)
  then obtain b1 where b1: "put_cell b x y idx c = Inr b1" "fill_row b1 y (add64 idx 1) xs c = Inr b'"
    by (auto split: sum.splits)
  from Cons.IH [OF b1(2)] put_cell_keeps [OF b1(1)] show ?case by simp
qed

lemma fill_rows_keeps:
  "fill_rows b ys x0 x1 c = Inr b' \<Longrightarrow>
     width b' = width b \<and> height b' = height b \<and> dirtyListCap b' = dirtyListCap b"
proof (induction ys arbitrary: b)
  case Nil
  then show ?case by simp
next
  case (Cons y ys)
  then obtain b1 where b1: "fill_row b y (add64 (mul64 y (width b)) x0) [x0..x1 - 1] c = Inr b1"
    "fill_rows b1 ys x0 x1 c = Inr b'"
    by (auto split: sum.splits)
  from Cons.IH [OF b1(2)] fill_row_keeps [OF b1(1)] show ?case by simp
qed

lemma Buffer_Fill_keeps:
  assumes "Buffer_Fill b r ch s = Inr b'"
  shows "width b' = width b \<and> height b' = height b \<and> dirtyListCap b' = dirtyListCap b"
  using assms fill_rows_keeps by (auto simp: Buffer_Fill_def Let_def)


subsection \<open>The writes of \<open>Set\<close>, \<open>SetString\<close> and \<open>Fill\<close>\<close>

lemma Buffer_Set_writes:
  assumes "buf_inv b"
  shows "\<exists>b'. Buffer_Set b x y r s = Inr b'
           \<and> cell_writes (if in_bounds b x y then [((x, y), Cell r s)] else []) b b'"
proof (cases "in_bounds b x y")
  case False
  then have "Buffer_Set b x y r s = Inr b" by (auto simp: Buffer_Set_def in_bounds_def)
  then show ?thesis using False by (auto intro: cw_nil)
next
  case True
  from assms have wf: "buf_wf b" by (simp add: buf_inv_def)
  from True have "Buffer_Set b x y r s = put_cell b x y (y * width b + x) (Cell r s)"
    by (auto simp: Buffer_Set_def in_bounds_def idx64 [OF wf True])
  with put_cell_ok [OF assms True, of "Cell r s"] True show ?thesis
    by (auto intro: cell_writes_one)
qed

lemma decodeRune_len:
  assumes "decodeRune (b0 # rest) = (r, n)"
  shows "1 \<le> n \<and> n \<le> Suc (length rest)"
  using assms by (auto split: if_splits list.splits)

lemma decodeRune_ascii: "b0 < 128 \<Longrightarrow> decodeRune (b0 # rest) = (int b0, 1)"
  by simp

lemma range_runes_shift:
  "range_runes (i + k) bs = map (\<lambda>jr. (fst jr + k, snd jr)) (range_runes i bs)"
proof (induction i bs rule: range_runes.induct)
  case (1 i)
  then show ?case by simp
next
  case (2 i b0 rest)
  obtain r n where d: "decodeRune (b0 # rest) = (r, n)" by (cases "decodeRune (b0 # rest)")
  from 2 [OF d [symmetric]]
  have "range_runes (i + int n + k) (drop (n - 1) rest)
        = map (\<lambda>jr. (fst jr + k, snd jr)) (range_runes (i + int n) (drop (n - 1) rest))" by simp
  then show ?case using d by (simp del: decodeRune.simps add: ac_simps)
qed

lemma range_runes_offsets:
  "sorted (map fst (range_runes i bs)) \<and> distinct (map fst (range_runes i bs))
   \<and> (\<forall>jr\<in>set (range_runes i bs). i \<le> fst jr \<and> fst jr < i + int (length bs))"
proof (induction i bs rule: range_runes.induct)
  case (1 i)
  then show ?case by simp
next
  case (2 i b0 rest)
  obtain r n where d: "decodeRune (b0 # rest) = (r, n)" by (cases "decodeRune (b0 # rest)")
  from decodeRune_len [OF d] have n: "1 \<le> n" "n \<le> Suc (length rest)" by simp_all
  let ?t = "range_runes (i + int n) (drop (n - 1) rest)"
  from 2 [OF d [symmetric]]
  have ih: "sorted (map fst ?t)" "distinct (map fst ?t)"
    "\<forall>jr\<in>set ?t. i + int n \<le> fst jr \<and> fst jr < i + int n + int (length (drop (n - 1) rest))"
    by simp_all
  have e: "range_runes i (b0 # rest) = (i, r) # ?t" using d by (simp del: decodeRune.simps)
  have len: "int n + int (length (drop (n - 1) rest)) = int (Suc (length rest))"
    using n by simp
  have b: "\<forall>jr\<in>set ?t. i < fst jr \<and> fst jr < i + int (length (b0 # rest))"
  proof
    fix jr assume "jr \<in> set ?t"
    with ih(3) have "i + int n \<le> fst jr" "fst jr < i + int n + int (length (drop (n - 1) rest))" by auto
    then show "i < fst jr \<and> fst jr < i + int (length (b0 # rest))" using n len by simp
  qed
  have s: "sorted (map fst ((i, r) # ?t))" using ih(1) b by (auto simp: less_imp_le)
  have dd: "distinct (map fst ((i, r) # ?t))" using ih(2) b by auto
  show ?case unfolding e using s dd b by auto
qed

lemma range_loop_shift:
  "range_loop b off y (map (\<lambda>jr. (fst jr + k, snd jr)) rs) st = range_loop b (add64 off k) y rs st"
proof (induction rs arbitrary: b)
  case Nil
  then show ?case by simp
next
  case (Cons jr rest)
  obtain j r where jr: "jr = (j, r)" by (cases jr)
  have a: "add64 off (j + k) = add64 (add64 off k) j"
    by (simp add: add64_assoc add.commute)
  show ?case using Cons.IH by (simp add: jr a Let_def split: sum.splits)
qed

lemma range_loop_from:
  "range_loop b off y (range_runes k bs) st = range_loop b (add64 off k) y (range_runes 0 bs) st"
  using range_runes_shift [of 0 k bs] range_loop_shift [of b off y k "range_runes 0 bs" st] by simp

lemma ascii_loop_count:
  "ascii_loop b px y i bs st = (case ascii_loop b px y 0 bs st of Inl e \<Rightarrow> Inl e | Inr (b', n) \<Rightarrow> Inr (b', n + i))"
proof (induction bs arbitrary: b px i)
  case Nil
  then show ?case by simp
next
  case (Cons ch rest)
  show ?case
  proof (cases "px < width b \<and> ch < 128")
    case False
    then show ?thesis by auto
  next
    case True
    show ?thesis
    proof (cases "put_cell b px y (add64 (mul64 y (width b)) px) (Cell (int ch) st)")
      case (Inl e)
      then show ?thesis using True by simp
    next
      case (Inr b1)
      show ?thesis
        using True Inr Cons.IH [of b1 "add64 px 1" "Suc i"] Cons.IH [of b1 "add64 px 1" "Suc 0"]
        by (auto split: sum.splits)
    qed
  qed
qed

text \<open>The fast path of \<open>SetString\<close> for single-byte characters does what the \<open>range\<close> loop
  does: on a buffer whose width is a Go integer, \<open>SetString\<close> is the \<open>range\<close> loop over
  the whole string.\<close>

lemma ascii_then_range:
  assumes "is_i64 (width b)" "is_i64 px" "0 \<le> px"
  shows "(case ascii_loop b px y 0 bs st of
            Inl e \<Rightarrow> Inl e
          | Inr (b1, n) \<Rightarrow>
              if n \<ge> length bs then Inr b1
              else range_loop b1 (add64 px (int n)) y (range_runes 0 (drop n bs)) st)
         = range_loop b px y (range_runes 0 bs) st"
  using assms
proof (induction bs arbitrary: b px)
  case Nil
  then show ?case by simp
next
  case (Cons ch rest)
  have z: "add64 px 0 = px" by (rule add64_zero [OF Cons.prems(2)])
  show ?case
  proof (cases "px < width b \<and> ch < 128")
    case False
    then show ?thesis using z by (auto simp del: range_runes.simps range_loop.simps)
  next
    case True
    then have d: "range_runes 0 (ch # rest) = (0, int ch) # range_runes 1 rest"
      by simp
    have inc: "add64 px 1 = px + 1"
      using True Cons.prems by (intro add64_id) (simp add: is_i64_def)
    show ?thesis
    proof (cases "put_cell b px y (add64 (mul64 y (width b)) px) (Cell (int ch) st)")
      case (Inl e)
      then show ?thesis using True Cons.prems(3) z unfolding d by (simp add: Let_def)
    next
      case (Inr b1)
      have w1: "width b1 = width b" using put_cell_keeps [OF Inr] by simp
      have "is_i64 (add64 px 1)" unfolding add64_def by (rule is_i64_i64)
      then have p: "is_i64 (width b1)" "is_i64 (add64 px 1)" "0 \<le> add64 px 1"
        using w1 Cons.prems inc by simp_all
      have r: "range_loop b px y (range_runes 0 (ch # rest)) st
             = range_loop b1 (add64 px 1) y (range_runes 0 rest) st"
        unfolding d using True Cons.prems(3) z Inr
        by (simp add: Let_def range_loop_from [of b1 px y 1 rest st])
      have l: "ascii_loop b px y 0 (ch # rest) st
             = (case ascii_loop b1 (add64 px 1) y 0 rest st of Inl e \<Rightarrow> Inl e | Inr (b', n) \<Rightarrow> Inr (b', Suc n))"
        using True Inr ascii_loop_count [of b1 "add64 px 1" y "Suc 0" rest st]
        by (simp split: sum.splits prod.splits)
      have s: "add64 px (int (Suc n)) = add64 (add64 px 1) (int n)" for n
        by (simp add: add64_assoc)
      show ?thesis
        unfolding r l Cons.IH [OF p, symmetric]
        by (auto split: sum.splits simp: add64_assoc)
    qed
  qed
qed

lemma Buffer_SetString_range:
  assumes "is_i64 (width b)"
  shows "Buffer_SetString b x y s st =
     (if y < 0 \<or> y \<ge> height b \<or> x \<ge> width b then Inr b
      else range_loop b x y (range_runes 0 (bytes_of s)) st)"
proof (cases "y < 0 \<or> y \<ge> height b \<or> x \<ge> width b")
  case True
  then show ?thesis by (auto simp: Buffer_SetString_def)
next
  case False
  show ?thesis
  proof (cases "x \<ge> 0")
    case False
    then show ?thesis using \<open>\<not> (y < 0 \<or> y \<ge> height b \<or> x \<ge> width b)\<close>
      by (simp add: Buffer_SetString_def)
  next
    case True
    then have xi: "is_i64 x" using False assms by (simp add: is_i64_def)
    have len: "length (bytes_of s) = length s" by (simp add: bytes_of_def)
    note a = ascii_then_range [OF assms xi True, where y = y and bs = "bytes_of s" and st = st, unfolded len]
    show ?thesis using True False by (simp add: Buffer_SetString_def a)
  qed
qed

lemma range_loop_writes:
  assumes "buf_inv b" "0 \<le> y" "y < height b"
  shows "\<exists>b'. range_loop b off y rs st = Inr b' \<and> cell_writes (range_writes (width b) off y rs st) b b'"
  using assms
proof (induction rs arbitrary: b)
  case Nil
  then show ?case by (auto simp: range_writes_def intro: cw_nil)
next
  case (Cons jr rest)
  obtain j r where jr: "jr = (j, r)" by (cases jr)
  from Cons.prems have wf: "buf_wf b" by (simp add: buf_inv_def)
  have w0: "0 \<le> width b"
    using area_fits(1) [OF wf] Cons.prems(2,3) by (simp add: zero_le_mult_iff)
  show ?case
  proof (cases "add64 off j < 0")
    case True
    then have "range_writes (width b) off y (jr # rest) st = range_writes (width b) off y rest st"
      using w0 jr by (simp add: range_writes_def)
    then show ?thesis using Cons.IH [OF Cons.prems] jr True by simp
  next
    case nneg: False
    show ?thesis
    proof (cases "add64 off j \<ge> width b")
      case True
      then have "range_writes (width b) off y (jr # rest) st = []"
        using jr by (simp add: range_writes_def)
      then show ?thesis using True nneg jr by (auto intro: cw_nil)
    next
      case False
      let ?px = "add64 off j"
      have ib: "in_bounds b ?px y" using False nneg Cons.prems by (simp add: in_bounds_def)
      from put_cell_ok [OF Cons.prems(1) ib, of "Cell r st"]
      obtain b1 where b1: "put_cell b ?px y (y * width b + ?px) (Cell r st) = Inr b1"
        "buf_inv b1" "height b1 = height b" "width b1 = width b" by auto
      from Cons.IH [of b1] b1 Cons.prems
      obtain b' where r: "range_loop b1 off y rest st = Inr b'"
        "cell_writes (range_writes (width b) off y rest st) b1 b'" by auto
      have e: "range_writes (width b) off y (jr # rest) st
             = ((?px, y), Cell r st) # range_writes (width b) off y rest st"
        using False nneg jr by (simp add: range_writes_def)
      have "cell_writes (range_writes (width b) off y (jr # rest) st) b b'"
        unfolding e by (rule cw_step [OF ib b1(1) r(2)])
      moreover have "range_loop b off y (jr # rest) st = Inr b'"
        using False nneg b1(1) r(1) jr by (simp add: Let_def idx64 [OF wf ib])
      ultimately show ?thesis by blast
    qed
  qed
qed

lemma Buffer_SetString_writes:
  assumes "buf_inv b"
  shows "\<exists>b'. Buffer_SetString b x y s st = Inr b'
           \<and> cell_writes (if 0 \<le> y \<and> y < height b \<and> x < width b
                          then range_writes (width b) x y (range_runes 0 (bytes_of s)) st else []) b b'"
proof -
  from assms have wf: "buf_wf b" by (simp add: buf_inv_def)
  note e = Buffer_SetString_range [OF area_fits(3) [OF wf], of x y s st]
  show ?thesis
  proof (cases "0 \<le> y \<and> y < height b \<and> x < width b")
    case False
    then show ?thesis unfolding e by (auto intro: cw_nil)
  next
    case True
    with range_loop_writes [OF assms, of y x "range_runes 0 (bytes_of s)" st]
    show ?thesis unfolding e by auto
  qed
qed

text \<open>Without wrap-around the writes of a \<open>range\<close> loop are the runes whose column lies in
  the buffer.\<close>

lemma range_writes_plain:
  assumes "is_i64 x" "0 \<le> w" "is_i64 w" "sorted (map fst rs)"
    and "\<forall>jr\<in>set rs. 0 \<le> fst jr \<and> fst jr < 9223372036854775808"
  shows "range_writes w x y rs st =
           map (\<lambda>jr. ((x + fst jr, y), Cell (snd jr) st))
               (filter (\<lambda>jr. 0 \<le> x + fst jr \<and> x + fst jr < w) rs)"
  using assms(4,5)
proof (induction rs)
  case Nil
  then show ?case by (simp add: range_writes_def)
next
  case (Cons jr rest)
  obtain j r where jr: "jr = (j, r)" by (cases jr)
  from Cons.prems have j: "0 \<le> j" "j < 9223372036854775808"
    and srt: "sorted (map fst rest)" and later: "\<forall>q\<in>set rest. j \<le> fst q"
    and rb: "\<forall>q\<in>set rest. 0 \<le> fst q \<and> fst q < 9223372036854775808"
    using jr by auto
  note ac = add64_cases [OF assms(1) j]
  note ih = Cons.IH [OF srt rb]
  have wb: "w < 9223372036854775808" and xb: "- 9223372036854775808 \<le> x" "x < 9223372036854775808"
    using assms(1,3) by (simp_all add: is_i64_def)
  show ?case
  proof (cases "add64 x j < w")
    case True
    have c: "range_writes w x y (jr # rest) st
           = (if 0 \<le> add64 x j then [((add64 x j, y), Cell r st)] else []) @ range_writes w x y rest st"
      using True jr by (simp add: range_writes_def)
    show ?thesis
    proof (cases "x + j < 9223372036854775808")
      case nowrap: True
      then have "add64 x j = x + j" using ac by simp
      then show ?thesis unfolding c ih using True jr by simp
    next
      case False
      then have "add64 x j < 0" "\<not> x + j < w" using ac wb xb j by simp_all
      then show ?thesis unfolding c ih using jr by simp
    qed
  next
    case False
    then have ge: "w \<le> add64 x j" by simp
    have nw: "x + j < 9223372036854775808"
    proof (rule ccontr)
      assume "\<not> x + j < 9223372036854775808"
      then have "add64 x j < 0" using ac wb xb j assms(1) by (simp add: is_i64_def)
      then show False using ge assms(2) by simp
    qed
    then have a: "add64 x j = x + j" using ac by simp
    have "range_writes w x y (jr # rest) st = []" using False jr by (simp add: range_writes_def)
    moreover have "filter (\<lambda>jr. 0 \<le> x + fst jr \<and> x + fst jr < w) (jr # rest) = []"
      using ge a later jr by (auto simp: filter_empty_conv)
    ultimately show ?thesis by simp
  qed
qed

lemma fill_row_writes:
  assumes "buf_inv b" "0 \<le> y" "y < height b" "0 \<le> x0" "x1 \<le> width b"
    and "x0 < x1 \<longrightarrow> idx = y * width b + x0"
  shows "\<exists>b'. fill_row b y idx [x0..x1 - 1] c = Inr b'
           \<and> cell_writes (map (\<lambda>x. ((x, y), c)) [x0..x1 - 1]) b b'"
  using assms
proof (induction "nat (x1 - x0)" arbitrary: x0 b idx)
  case 0
  then have "[x0..x1 - 1] = []" by simp
  then show ?case by (auto intro: cw_nil)
next
  case (Suc n)
  then have lt: "x0 < x1" by linarith
  then have u: "[x0..x1 - 1] = x0 # [x0 + 1..x1 - 1]" by (simp add: upto_rec1)
  from Suc.prems have wf: "buf_wf b" by (simp add: buf_inv_def)
  have idx: "idx = y * width b + x0" using Suc.prems(6) lt by simp
  have ib: "in_bounds b x0 y" using Suc.prems lt by (simp add: in_bounds_def)
  from put_cell_ok [OF Suc.prems(1) ib, of c]
  obtain b1 where b1: "put_cell b x0 y (y * width b + x0) c = Inr b1"
    "buf_inv b1" "height b1 = height b" "width b1 = width b" by auto
  have "is_i64 (idx + 1)"
    unfolding is_i64_def idx using idx_in_range(1,2) [OF wf ib] area_fits(2) [OF wf] by linarith
  then have inc: "add64 idx 1 = y * width b1 + (x0 + 1)" using idx b1(4) by (simp add: add64_id)
  have n: "n = nat (x1 - (x0 + 1))" using Suc.hyps(2) by linarith
  from Suc.hyps(1) [OF n b1(2), of "add64 idx 1"] Suc.prems b1 inc
  obtain b' where r: "fill_row b1 y (add64 idx 1) [x0 + 1..x1 - 1] c = Inr b'"
    "cell_writes (map (\<lambda>x. ((x, y), c)) [x0 + 1..x1 - 1]) b1 b'" by auto
  have "cell_writes (map (\<lambda>x. ((x, y), c)) [x0..x1 - 1]) b b'"
    unfolding u using cw_step [OF ib b1(1) r(2)] by simp
  moreover have "fill_row b y idx [x0..x1 - 1] c = Inr b'"
    unfolding u using b1(1) r(1) idx by simp
  ultimately show ?case by blast
qed

lemma fill_rows_writes:
  assumes "buf_inv b" "0 \<le> y0" "y1 \<le> height b" "0 \<le> x0" "x1 \<le> width b"
  shows "\<exists>b'. fill_rows b [y0..y1 - 1] x0 x1 c = Inr b' \<and> cell_writes (fill_writes x0 x1 y0 y1 c) b b'"
  using assms
proof (induction "nat (y1 - y0)" arbitrary: y0 b)
  case 0
  then have "[y0..y1 - 1] = []" by simp
  then show ?case by (auto simp: fill_writes_def intro: cw_nil)
next
  case (Suc n)
  then have lt: "y0 < y1" by linarith
  then have u: "[y0..y1 - 1] = y0 # [y0 + 1..y1 - 1]" by (simp add: upto_rec1)
  from Suc.prems have wf: "buf_wf b" by (simp add: buf_inv_def)
  have i0: "x0 < x1 \<longrightarrow> add64 (mul64 y0 (width b)) x0 = y0 * width b + x0"
  proof
    assume "x0 < x1"
    then have "in_bounds b x0 y0" using Suc.prems lt by (simp add: in_bounds_def)
    from idx64(1) [OF wf this] show "add64 (mul64 y0 (width b)) x0 = y0 * width b + x0" .
  qed
  from fill_row_writes [OF Suc.prems(1,2) _ Suc.prems(4,5) i0, of c] lt Suc.prems(3)
  obtain b1 where b1: "fill_row b y0 (add64 (mul64 y0 (width b)) x0) [x0..x1 - 1] c = Inr b1"
    "cell_writes (map (\<lambda>x. ((x, y0), c)) [x0..x1 - 1]) b b1" by auto
  from cell_writes_inv [OF b1(2) Suc.prems(1)]
  have i1: "buf_inv b1" and h1: "height b1 = height b" and w1: "width b1 = width b" by simp_all
  have n: "n = nat (y1 - (y0 + 1))" using Suc.hyps(2) by linarith
  from Suc.hyps(1) [OF n i1] Suc.prems h1 w1
  obtain b' where r: "fill_rows b1 [y0 + 1..y1 - 1] x0 x1 c = Inr b'"
    "cell_writes (fill_writes x0 x1 (y0 + 1) y1 c) b1 b'" by auto
  have e: "fill_writes x0 x1 y0 y1 c = map (\<lambda>x. ((x, y0), c)) [x0..x1 - 1] @ fill_writes x0 x1 (y0 + 1) y1 c"
    by (simp add: fill_writes_def u)
  have "cell_writes (fill_writes x0 x1 y0 y1 c) b b'"
    unfolding e by (rule cell_writes_append [OF b1(2) r(2)])
  moreover have "fill_rows b [y0..y1 - 1] x0 x1 c = Inr b'"
    unfolding u using b1(1) r(1) by simp
  ultimately show ?case by blast
qed

lemma Buffer_Fill_writes:
  assumes "buf_inv b"
  shows "\<exists>b'. Buffer_Fill b r ch s = Inr b'
           \<and> cell_writes (fill_writes (max 0 (X r)) (min (width b) (add64 (X r) (Width r)))
                                      (max 0 (Y r)) (min (height b) (add64 (Y r) (Height r))) (Cell ch s)) b b'"
  using fill_rows_writes [OF assms, of "max 0 (Y r)" "min (height b) (add64 (Y r) (Height r))"
      "max 0 (X r)" "min (width b) (add64 (X r) (Width r))" "Cell ch s"]
  by (simp add: Buffer_Fill_def Let_def)

lemma fill_writes_keys:
  "fst ` set (fill_writes x0 x1 y0 y1 c) = {(u, v). x0 \<le> u \<and> u < x1 \<and> y0 \<le> v \<and> v < y1}"
  "\<forall>pc\<in>set (fill_writes x0 x1 y0 y1 c). snd pc = c"
  by (auto simp: fill_writes_def image_iff)


subsection \<open>Construction, dirty flags and resizing\<close>

lemma stamped_Nil_iff: "stamped b = [] \<longleftrightarrow> (\<forall>i<length (dirtyStamp b). dirtyStamp b ! i \<noteq> dirtyGen b)"
  by (auto simp: stamped_def filter_empty_conv)

lemma NewBuffer_fields:
  assumes "NewBuffer w h = Inr b"
  shows "width b = w" "height b = h" "\<not> dirtyAll b" "dirtyCount b = 0" "dirtyGen b = 1"
    "dirtyListCap b = calcDirtyListCap (mul64 w h)" "dirtyListEnabled b" "dirtyIndices b = []"
    "cells b = replicate (nat (mul64 w h)) (Cell 0 0)"
    "dirtyStamp b = replicate (nat (mul64 w h)) 0"
  using assms by (auto simp: NewBuffer_def Let_def split: if_splits)

lemma NewBuffer_inv:
  assumes "NewBuffer w h = Inr b" "dims_fit w h"
  shows "buf_inv b"
proof -
  note f = NewBuffer_fields [OF assms(1)]
  have m: "mul64 w h = w * h" by (rule dims_fit_mul64 [OF assms(2)])
  have st: "stamped b = []" by (simp add: stamped_Nil_iff f)
  show "buf_inv b"
    unfolding buf_inv_def dirty_agree_def st using assms(2) by (simp add: f m buf_wf_def)
qed

lemma NewBuffer_ok:
  assumes "dims_fit w h"
  shows "\<exists>b. NewBuffer w h = Inr b"
  using assms by (simp add: NewBuffer_def Let_def dims_fit_mul64 dims_fit_def)

lemma MarkAllDirty_inv: "buf_inv b \<Longrightarrow> buf_inv (MarkAllDirty b)"
  by (simp add: buf_inv_def MarkAllDirty_def buf_wf_def)

lemma word_succ_gt: "(g :: 32 word) + 1 \<noteq> 0 \<Longrightarrow> g < g + 1"
  by (metis add.commute add.right_inverse inc_less_eq_self_iff_eq verit_comp_simplify1(3))

lemma ClearDirty_inv:
  assumes "buf_inv b"
  shows "buf_inv (ClearDirty b)"
proof -
  from assms have wf: "buf_wf b" and le: "\<forall>s\<in>set (dirtyStamp b). s \<le> dirtyGen b"
    by (simp_all add: buf_inv_def)
  let ?c = "ClearDirty b"
  have f: "width ?c = width b" "height ?c = height b" "length (cells ?c) = length (cells b)"
    "length (dirtyStamp ?c) = length (dirtyStamp b)" "\<not> dirtyAll ?c" "dirtyCount ?c = 0"
    "dirtyListEnabled ?c" "dirtyIndices ?c = []"
    by (simp_all add: ClearDirty_def advanceDirtyGen_def Let_def)
  have g: "dirtyGen ?c \<noteq> 0 \<and> (\<forall>s\<in>set (dirtyStamp ?c). s \<le> dirtyGen ?c \<and> s \<noteq> dirtyGen ?c)"
  proof (cases "dirtyGen b + 1 = 0")
    case True
    then show ?thesis by (auto simp: ClearDirty_def advanceDirtyGen_def Let_def)
  next
    case False
    from word_succ_gt [OF False] le have "\<forall>s\<in>set (dirtyStamp b). s < dirtyGen b + 1" by auto
    then show ?thesis using False by (auto simp: ClearDirty_def advanceDirtyGen_def Let_def)
  qed
  then have st: "stamped ?c = []" by (auto simp: stamped_Nil_iff)
  show ?thesis
    unfolding buf_inv_def dirty_agree_def st using f g wf by (simp add: buf_wf_def)
qed

lemma copy_row_length:
  assumes "copy_row N old y w bw minW = Inr N'"
  shows "length N' = length N"
proof -
  let ?lo1 = "mul64 y w" and ?hi1 = "add64 (mul64 y w) minW"
  let ?lo2 = "mul64 y bw" and ?hi2 = "add64 (mul64 y bw) minW"
  let ?n = "min (nat (?hi1 - ?lo1)) (nat (?hi2 - ?lo2))"
  from assms have ok: "slice_ok ?lo1 ?hi1 (length N)" "slice_ok ?lo2 ?hi2 (length old)"
    and e: "N' = take (nat ?lo1) N @ take ?n (drop (nat ?lo2) old) @ drop (nat ?lo1 + ?n) N"
    by (auto simp: copy_row_def Let_def split: if_splits)
  from ok have a: "nat ?lo1 + ?n \<le> length N" "?n \<le> length old - nat ?lo2" "nat ?lo1 \<le> length N"
    by (simp_all add: slice_ok_def) linarith+
  show ?thesis unfolding e using a by simp
qed

lemma copy_rows_length:
  "copy_rows N old ys w bw minW = Inr N' \<Longrightarrow> length N' = length N"
proof (induction ys arbitrary: N)
  case Nil
  then show ?case by simp
next
  case (Cons y ys)
  then obtain N1 where n: "copy_row N old y w bw minW = Inr N1" "copy_rows N1 old ys w bw minW = Inr N'"
    by (auto split: sum.splits)
  from Cons.IH [OF n(2)] copy_row_length [OF n(1)] show ?case by simp
qed

lemma copy_row_ok:
  assumes "slice_ok (y * w) (y * w + minW) (length N)" "slice_ok (y * bw) (y * bw + minW) (length old)"
    and "int (length N) < 9223372036854775808" "int (length old) < 9223372036854775808"
  shows "\<exists>N'. copy_row N old y w bw minW = Inr N' \<and> length N' = length N
          \<and> (\<forall>i<length N. N' ! i = (if y * w \<le> int i \<and> int i < y * w + minW
                                     then old ! nat (y * bw + (int i - y * w)) else N ! i))"
proof -
  let ?N' = "take (nat (y * w)) N @ take (nat minW) (drop (nat (y * bw)) old) @ drop (nat (y * w + minW)) N"
  from assms have a: "0 \<le> y * w" "0 \<le> minW" "y * w + minW \<le> int (length N)"
    "0 \<le> y * bw" "y * bw + minW \<le> int (length old)" by (simp_all add: slice_ok_def)
  have m1: "mul64 y w = y * w" using a assms(3) by (intro mul64_id) (simp add: is_i64_def)
  have m2: "mul64 y bw = y * bw" using a assms(4) by (intro mul64_id) (simp add: is_i64_def)
  have a1: "add64 (y * w) minW = y * w + minW" using a assms(3) by (intro add64_id) (simp add: is_i64_def)
  have a2: "add64 (y * bw) minW = y * bw + minW" using a assms(4) by (intro add64_id) (simp add: is_i64_def)
  have n: "nat (y * w) + nat minW = nat (y * w + minW)" using a by linarith
  have e: "copy_row N old y w bw minW = Inr ?N'"
    using assms(1,2) a by (simp add: copy_row_def m1 m2 a1 a2 Let_def n)
  have l1: "length (take (nat (y * w)) N) = nat (y * w)" using a by simp
  have l2: "length (take (nat minW) (drop (nat (y * bw)) old)) = nat minW" using a by simp
  have len: "length ?N' = length N" using a by simp
  have nth: "?N' ! i = (if y * w \<le> int i \<and> int i < y * w + minW
                       then old ! nat (y * bw + (int i - y * w)) else N ! i)" if i: "i < length N" for i
  proof -
    consider "int i < y * w" | "y * w \<le> int i" "int i < y * w + minW" | "y * w + minW \<le> int i" by linarith
    then show ?thesis
    proof cases
      case 1
      then have "i < nat (y * w)" by simp
      then have "?N' ! i = N ! i" using l1 by (simp add: nth_append)
      then show ?thesis using 1 by simp
    next
      case 2
      then have ge: "\<not> i < nat (y * w)" and lt: "i - nat (y * w) < nat minW" using a by linarith+
      have "?N' ! i = (take (nat minW) (drop (nat (y * bw)) old)) ! (i - nat (y * w))"
        using ge lt l1 l2 by (simp add: nth_append)
      also have "\<dots> = old ! (nat (y * bw) + (i - nat (y * w)))"
        using lt a by simp
      also have "nat (y * bw) + (i - nat (y * w)) = nat (y * bw + (int i - y * w))"
        using a 2 by linarith
      finally show ?thesis using 2 by simp
    next
      case 3
      then have ge: "\<not> i < nat (y * w)" and ge2: "\<not> i - nat (y * w) < nat minW" using a by linarith+
      have "?N' ! i = (drop (nat (y * w + minW)) N) ! (i - nat (y * w) - nat minW)"
        using ge ge2 l1 l2 by (simp add: nth_append)
      also have "\<dots> = N ! (nat (y * w + minW) + (i - nat (y * w) - nat minW))"
        using a i by simp
      also have "nat (y * w + minW) + (i - nat (y * w) - nat minW) = i" using a 3 by linarith
      finally show ?thesis using 3 by simp
    qed
  qed
  show ?thesis using e len nth by blast
qed

lemma seg_disjoint:
  assumes "0 \<le> (w::int)" "0 \<le> minW" "minW \<le> w" "y \<noteq> y'" "y * w \<le> i" "i < y * w + minW"
  shows "\<not> (y' * w \<le> i \<and> i < y' * w + minW)"
proof
  assume a: "y' * w \<le> i \<and> i < y' * w + minW"
  consider "y' < y" | "y < y'" using assms(4) by linarith
  then show False
  proof cases
    case 1
    then have "(y' + 1) * w \<le> y * w" using assms(1) by (intro mult_right_mono) simp_all
    then show False using a assms by (simp add: algebra_simps)
  next
    case 2
    then have "(y + 1) * w \<le> y' * w" using assms(1) by (intro mult_right_mono) simp_all
    then show False using a assms by (simp add: algebra_simps)
  qed
qed

lemma copy_rows_ok:
  assumes "0 \<le> w" "0 \<le> minW" "minW \<le> w" "minW \<le> bw"
    and "\<forall>y\<in>set ys. 0 \<le> y \<and> (y + 1) * w \<le> int (length N) \<and> (y + 1) * bw \<le> int (length old)"
    and "distinct ys"
    and "int (length N) < 9223372036854775808" "int (length old) < 9223372036854775808"
  shows "\<exists>N'. copy_rows N old ys w bw minW = Inr N' \<and> length N' = length N
          \<and> (\<forall>y\<in>set ys. \<forall>x. 0 \<le> x \<and> x < minW \<longrightarrow> N' ! nat (y * w + x) = old ! nat (y * bw + x))
          \<and> (\<forall>i<length N. (\<forall>y\<in>set ys. \<not> (y * w \<le> int i \<and> int i < y * w + minW)) \<longrightarrow> N' ! i = N ! i)"
  using assms(5,6,7)
proof (induction ys arbitrary: N)
  case Nil
  then show ?case by simp
next
  case (Cons y ys)
  have bw0: "0 \<le> bw" using assms by linarith
  from Cons.prems have y: "0 \<le> y" "(y + 1) * w \<le> int (length N)" "(y + 1) * bw \<le> int (length old)"
    and ynot: "y \<notin> set ys" and d: "distinct ys" by simp_all
  have yw: "0 \<le> y * w" "0 \<le> y * bw" using y(1) assms(1) bw0 by simp_all
  have s1: "slice_ok (y * w) (y * w + minW) (length N)"
    using y yw assms(1-4) by (simp add: slice_ok_def algebra_simps)
  have s2: "slice_ok (y * bw) (y * bw + minW) (length old)"
    using y yw assms(1-4) by (simp add: slice_ok_def algebra_simps)
  from copy_row_ok [OF s1 s2 Cons.prems(3) assms(8)]
  obtain N1 where N1: "copy_row N old y w bw minW = Inr N1" "length N1 = length N"
    "\<forall>i<length N. N1 ! i = (if y * w \<le> int i \<and> int i < y * w + minW
                                     then old ! nat (y * bw + (int i - y * w)) else N ! i)" by blast
  have pre: "\<forall>y\<in>set ys. 0 \<le> y \<and> (y + 1) * w \<le> int (length N1) \<and> (y + 1) * bw \<le> int (length old)"
    using Cons.prems(1) N1(2) by simp
  have l1: "int (length N1) < 9223372036854775808" using Cons.prems(3) N1(2) by simp
  from Cons.IH [OF pre d l1]
  obtain N' where N': "copy_rows N1 old ys w bw minW = Inr N'" "length N' = length N1"
    "\<forall>y\<in>set ys. \<forall>x. 0 \<le> x \<and> x < minW \<longrightarrow> N' ! nat (y * w + x) = old ! nat (y * bw + x)"
    "\<forall>i<length N1. (\<forall>y\<in>set ys. \<not> (y * w \<le> int i \<and> int i < y * w + minW)) \<longrightarrow> N' ! i = N1 ! i"
    by blast
  have e: "copy_rows N old (y # ys) w bw minW = Inr N'" using N1(1) N'(1) by simp
  have rowy: "N' ! nat (y * w + x) = old ! nat (y * bw + x)" if x: "0 \<le> x" "x < minW" for x
  proof -
    let ?i = "nat (y * w + x)"
    have ii: "int ?i = y * w + x" using yw x by simp
    have lt: "?i < length N" using y(2) x assms(3) yw by (simp add: algebra_simps nat_less_iff)
    have "\<forall>y'\<in>set ys. \<not> (y' * w \<le> int ?i \<and> int ?i < y' * w + minW)"
    proof
      fix y' assume "y' \<in> set ys"
      then have "y \<noteq> y'" using ynot by auto
      from seg_disjoint [OF assms(1,2,3) this, of "int ?i"] x ii
      show "\<not> (y' * w \<le> int ?i \<and> int ?i < y' * w + minW)" by simp
    qed
    then have "N' ! ?i = N1 ! ?i" using N'(4) lt N1(2) by simp
    also have "\<dots> = old ! nat (y * bw + (int ?i - y * w))" using N1(3) lt ii x by simp
    finally show ?thesis using ii by simp
  qed
  have other: "N' ! i = N ! i"
    if "i < length N" "\<forall>y'\<in>set (y # ys). \<not> (y' * w \<le> int i \<and> int i < y' * w + minW)" for i
  proof -
    from that(2) have ny: "\<not> (y * w \<le> int i \<and> int i < y * w + minW)"
      and nys: "\<forall>y'\<in>set ys. \<not> (y' * w \<le> int i \<and> int i < y' * w + minW)" by simp_all
    have "N' ! i = N1 ! i" using N'(4) nys that(1) N1(2) by metis
    also have "N1 ! i = (if y * w \<le> int i \<and> int i < y * w + minW
                                     then old ! nat (y * bw + (int i - y * w)) else N ! i)"
      using N1(3) that(1) by blast
    also have "\<dots> = N ! i" using ny by (simp only: if_False)
    finally show ?thesis .
  qed
  show ?case using e N'(2) N1(2) N'(3) rowy other by auto
qed

lemma Buffer_Resize_same:
  "w = width b \<Longrightarrow> h = height b \<Longrightarrow> Buffer_Resize b w h = Inr b"
  by (simp add: Buffer_Resize_def)

text \<open>What a successful \<open>Resize\<close> to other dimensions returns, on every buffer.\<close>

lemma Buffer_Resize_fields:
  assumes "Buffer_Resize b w h = Inr b'" "\<not> (w = width b \<and> h = height b)"
  shows "width b' = w" "height b' = h" "length (cells b') = nat (mul64 w h)"
    "dirtyStamp b' = replicate (nat (mul64 w h)) 0" "dirtyGen b' = 1" "dirtyAll b'"
    "dirtyListCap b' = calcDirtyListCap (mul64 w h)" "\<not> dirtyListEnabled b'" "dirtyIndices b' = []"
proof -
  let ?N = "replicate (nat (mul64 w h)) (Cell 0 0)"
  from assms obtain N' where
    c: "copy_rows ?N (cells b) [0..min h (height b) - 1] w (width b) (min w (width b)) = Inr N'"
    and b': "b' = MarkAllDirty
                  (b\<lparr>cells := N',
                     dirtyStamp := replicate (nat (mul64 w h)) 0,
                     dirtyGen := 1,
                     dirtyAll := False,
                     dirtyCount := 0,
                     dirtyRect := Rect 0 0 0 0,
                     width := w,
                     height := h,
                     dirtyListCap := calcDirtyListCap (mul64 w h),
                     dirtyListEnabled := True,
                     dirtyIndices := []\<rparr>)"
    by (auto simp: Buffer_Resize_def Let_def split: if_splits sum.splits)
  from copy_rows_length [OF c] have l: "length N' = nat (mul64 w h)" by simp
  show "width b' = w" "height b' = h" "length (cells b') = nat (mul64 w h)"
    "dirtyStamp b' = replicate (nat (mul64 w h)) 0" "dirtyGen b' = 1" "dirtyAll b'"
    "dirtyListCap b' = calcDirtyListCap (mul64 w h)" "\<not> dirtyListEnabled b'" "dirtyIndices b' = []"
    using l by (simp_all add: b' MarkAllDirty_def)
qed

lemma Buffer_Resize_ok:
  assumes wf: "buf_wf b" and fit: "dims_fit w h" and ne: "\<not> (w = width b \<and> h = height b)"
  shows "\<exists>b'. Buffer_Resize b w h = Inr b'
          \<and> (\<forall>x y. 0 \<le> x \<and> x < min w (width b) \<and> 0 \<le> y \<and> y < min h (height b)
                \<longrightarrow> cells b' ! nat (y * w + x) = cells b ! nat (y * width b + x))"
proof -
  let ?minW = "min w (width b)" and ?minH = "min h (height b)"
  let ?N = "replicate (nat (w * h)) (Cell 0 0)"
  let ?ys = "[0..?minH - 1]"
  have m: "mul64 w h = w * h" by (rule dims_fit_mul64 [OF fit])
  from fit have nn: "0 \<le> w * h" and lt: "w * h < 9223372036854775808" by (simp_all add: dims_fit_def)
  from wf have lb: "int (length (cells b)) = width b * height b" and nb: "0 \<le> width b * height b"
    and ltb: "width b * height b < 9223372036854775808"
    by (simp_all add: buf_wf_def dims_fit_def)
  have ex: "\<exists>N'. copy_rows ?N (cells b) ?ys w (width b) ?minW = Inr N' \<and> length N' = length ?N
          \<and> (\<forall>y\<in>set ?ys. \<forall>x. 0 \<le> x \<and> x < ?minW \<longrightarrow> N' ! nat (y * w + x) = cells b ! nat (y * width b + x))"
  proof (cases "0 < ?minH")
    case False
    then have "?minH - 1 < 0" by linarith
    then have "?ys = []" by (simp only: upto_empty)
    then show ?thesis by simp
  next
    case True
    then have h0: "0 < h" "0 < height b" by simp_all
    have w0: "0 \<le> w" using nn h0 by (simp add: zero_le_mult_iff)
    have bw0: "0 \<le> width b" using nb h0 by (simp add: zero_le_mult_iff)
    have rows: "\<forall>y\<in>set ?ys. 0 \<le> y \<and> (y + 1) * w \<le> int (length ?N) \<and> (y + 1) * width b \<le> int (length (cells b))"
    proof
      fix y assume "y \<in> set ?ys"
      then have y: "0 \<le> y" "y + 1 \<le> h" "y + 1 \<le> height b" by auto
      have "(y + 1) * w \<le> h * w" using y w0 by (intro mult_right_mono) simp_all
      moreover have "(y + 1) * width b \<le> height b * width b" using y bw0 by (intro mult_right_mono) simp_all
      ultimately show "0 \<le> y \<and> (y + 1) * w \<le> int (length ?N) \<and> (y + 1) * width b \<le> int (length (cells b))"
        using y nn lb by (simp add: mult.commute)
    qed
    have l1: "int (length ?N) < 9223372036854775808" using nn lt by simp
    have l2: "int (length (cells b)) < 9223372036854775808" using lb ltb by simp
    from copy_rows_ok [of w ?minW "width b" ?ys ?N "cells b", OF w0 _ _ _ rows _ l1 l2] w0 bw0
    show ?thesis by auto
  qed
  then obtain N' where N': "copy_rows ?N (cells b) ?ys w (width b) ?minW = Inr N'" "length N' = nat (w * h)"
    "\<forall>y\<in>set ?ys. \<forall>x. 0 \<le> x \<and> x < ?minW \<longrightarrow> N' ! nat (y * w + x) = cells b ! nat (y * width b + x)"
    by auto
  have nl: "\<not> w * h < 0" using nn by simp
  have "Buffer_Resize b w h = Inr (MarkAllDirty
                  (b\<lparr>cells := N',
                     dirtyStamp := replicate (nat (w * h)) 0,
                     dirtyGen := 1,
                     dirtyAll := False,
                     dirtyCount := 0,
                     dirtyRect := Rect 0 0 0 0,
                     width := w,
                     height := h,
                     dirtyListCap := calcDirtyListCap (w * h),
                     dirtyListEnabled := True,
                     dirtyIndices := []\<rparr>))"
    by (simp only: Buffer_Resize_def ne nl if_False Let_def N'(1) sum.case m)
  then show ?thesis using N'(2,3) by (simp add: MarkAllDirty_def)
qed

lemma Buffer_Resize_inv:
  assumes "Buffer_Resize b w h = Inr b'" "\<not> (w = width b \<and> h = height b)" "dims_fit w h"
  shows "buf_inv b'"
  using Buffer_Resize_fields [OF assms(1,2)] assms(3)
  by (simp add: buf_inv_def buf_wf_def dims_fit_mul64)

subsection \<open>Reachable buffers\<close>

lemma reachable_inv: "reachable b \<Longrightarrow> dims_fit (width b) (height b) \<Longrightarrow> buf_inv b"
proof (induction rule: reachable.induct)
  case (r_new w h b)
  then show ?case using NewBuffer_inv [OF r_new.hyps] NewBuffer_fields(1,2) [OF r_new.hyps] by simp
next
  case (r_set b x y r s b')
  from Buffer_Set_keeps [OF r_set.hyps(2)] r_set.prems have "buf_inv b" using r_set.IH by simp
  from Buffer_Set_writes [OF this, of x y r s] r_set.hyps(2)
  show ?case using cell_writes_inv [OF _ \<open>buf_inv b\<close>] by auto
next
  case (r_setString b x y str s b')
  from Buffer_SetString_keeps [OF r_setString.hyps(2)] r_setString.prems
  have "buf_inv b" using r_setString.IH by simp
  from Buffer_SetString_writes [OF this, of x y str s] r_setString.hyps(2)
  show ?case using cell_writes_inv [OF _ \<open>buf_inv b\<close>] by auto
next
  case (r_fill b rc ch s b')
  from Buffer_Fill_keeps [OF r_fill.hyps(2)] r_fill.prems have "buf_inv b" using r_fill.IH by simp
  from Buffer_Fill_writes [OF this, of rc ch s] r_fill.hyps(2)
  show ?case using cell_writes_inv [OF _ \<open>buf_inv b\<close>] by auto
next
  case (r_markAll b)
  have "width (MarkAllDirty b) = width b" "height (MarkAllDirty b) = height b"
    by (simp_all add: MarkAllDirty_def)
  then show ?case using r_markAll by (simp add: MarkAllDirty_inv)
next
  case (r_clearDirty b)
  have "width (ClearDirty b) = width b" "height (ClearDirty b) = height b"
    by (simp_all add: ClearDirty_def advanceDirtyGen_def Let_def)
  then show ?case using r_clearDirty by (simp add: ClearDirty_inv)
next
  case (r_resize b w h b')
  show ?case
  proof (cases "w = width b \<and> h = height b")
    case True
    then have "b' = b" using r_resize.hyps(2) by (simp add: Buffer_Resize_def)
    then show ?thesis using r_resize by simp
  next
    case False
    from Buffer_Resize_fields(1,2) [OF r_resize.hyps(2) False] r_resize.prems
    have "dims_fit w h" by simp
    from Buffer_Resize_inv [OF r_resize.hyps(2) False this] show ?thesis .
  qed
qed

lemma reachable_cap: "reachable b \<Longrightarrow> dirtyListCap b = calcDirtyListCap (mul64 (width b) (height b))"
proof (induction rule: reachable.induct)
  case (r_new w h b)
  then show ?case using NewBuffer_fields [OF r_new] by simp
next
  case (r_set b x y r s b')
  then show ?case using Buffer_Set_keeps [OF r_set.hyps(2)] by simp
next
  case (r_setString b x y str s b')
  then show ?case using Buffer_SetString_keeps [OF r_setString.hyps(2)] by simp
next
  case (r_fill b rc ch s b')
  then show ?case using Buffer_Fill_keeps [OF r_fill.hyps(2)] by simp
next
  case (r_markAll b)
  then show ?case by (simp add: MarkAllDirty_def)
next
  case (r_clearDirty b)
  then show ?case by (simp add: ClearDirty_def advanceDirtyGen_def Let_def)
next
  case (r_resize b w h b')
  show ?case
  proof (cases "w = width b \<and> h = height b")
    case True
    then show ?thesis using r_resize by (simp add: Buffer_Resize_def)
  next
    case False
    from Buffer_Resize_fields [OF r_resize.hyps(2) False] show ?thesis by simp
  qed
qed


subsection \<open>The dirty-iteration helpers\<close>

lemma go_div_nonneg: "0 \<le> a \<Longrightarrow> 0 < b \<Longrightarrow> go_div a b = a div b"
  by (cases "a = 0") (simp_all add: go_div_def)

lemma collectR_Inr:
  assumes "\<forall>x\<in>set xs. f x = Inr (g x)"
  shows "collectR f xs = Inr (concat (map g xs))"
  using assms by (induction xs) simp_all

lemma concat_map_mem: "a \<in> set xs \<Longrightarrow> v \<in> set (g a) \<Longrightarrow> v \<in> set (concat (map g xs))"
  by auto

lemma cell_at_ok:
  "buf_wf b \<Longrightarrow> in_bounds b x y \<Longrightarrow> cell_at b (y * width b + x) = Inr (cells b ! nat (y * width b + x))"
  using idx_in_range [of b x y] idx_nat_range [of b x y] by (simp add: cell_at_def)

lemma stamp_at_ok:
  "buf_wf b \<Longrightarrow> in_bounds b x y \<Longrightarrow> stamp_at b (y * width b + x) = Inr (dirtyStamp b ! nat (y * width b + x))"
  using idx_in_range [of b x y] idx_nat_range [of b x y] by (simp add: stamp_at_def)

lemma visit_cell_ok:
  "buf_wf b \<Longrightarrow> in_bounds b x y \<Longrightarrow>
   visit_cell b x y (y * width b + x) = Inr [(x, y, cells b ! nat (y * width b + x))]"
  by (simp add: visit_cell_def cell_at_ok)

lemma visit_if_stamped_ok:
  "buf_wf b \<Longrightarrow> in_bounds b x y \<Longrightarrow>
   visit_if_stamped b x y (y * width b + x) =
     Inr (if dirtyStamp b ! nat (y * width b + x) = dirtyGen b
          then [(x, y, cells b ! nat (y * width b + x))] else [])"
  by (simp add: visit_if_stamped_def stamp_at_ok visit_cell_ok)

text \<open>A linear scan over all rows and columns.\<close>

lemma scan_all:
  assumes wf: "buf_wf b" and f: "\<And>x y. in_bounds b x y \<Longrightarrow> f x y (y * width b + x) = Inr (g x y)"
  shows "collectR (\<lambda>y. collectR (\<lambda>x. f x y (add64 (mul64 y (width b)) x)) [0..width b - 1]) [0..height b - 1]
         = Inr (concat (map (\<lambda>y. concat (map (\<lambda>x. g x y) [0..width b - 1])) [0..height b - 1]))"
proof (rule collectR_Inr, rule ballI)
  fix y assume y: "y \<in> set [0..height b - 1]"
  show "collectR (\<lambda>x. f x y (add64 (mul64 y (width b)) x)) [0..width b - 1]
        = Inr (concat (map (\<lambda>x. g x y) [0..width b - 1]))"
  proof (rule collectR_Inr, rule ballI)
    fix x assume "x \<in> set [0..width b - 1]"
    then have ib: "in_bounds b x y" using y by (simp add: in_bounds_def)
    then show "f x y (add64 (mul64 y (width b)) x) = Inr (g x y)"
      unfolding idx64(1) [OF wf ib] by (rule f)
  qed
qed

lemma stamped_iff:
  assumes "buf_wf b" "in_bounds b x y"
  shows "nat (y * width b + x) \<in> set (stamped b) \<longleftrightarrow> dirtyStamp b ! nat (y * width b + x) = dirtyGen b"
  using idx_nat_range [OF assms] by (simp add: set_stamped)

lemma stamped_coords:
  assumes inv: "buf_inv b" and nd: "\<not> dirtyAll b" and i: "i \<in> set (stamped b)"
  shows "in_bounds b (col_of b i) (row_of b i)" "int i = row_of b i * width b + col_of b i"
    "rect_contains (dirtyRect b) (col_of b i) (row_of b i)" "0 < width b"
proof -
  from inv nd have wf: "buf_wf b" and ag: "dirty_agree b"
    and rw: "0 < dirtyCount b \<longrightarrow> rect_within b (dirtyRect b)" by (simp_all add: buf_inv_def)
  have "0 < length (stamped b)" using i by (cases "stamped b") auto
  then have "0 < dirtyCount b" using ag by (simp add: dirty_agree_def)
  then have w: "rect_within b (dirtyRect b)" using rw by simp
  show rc: "rect_contains (dirtyRect b) (col_of b i) (row_of b i)"
    using ag i by (simp add: dirty_agree_def)
  show "in_bounds b (col_of b i) (row_of b i)"
    using rc w by (auto simp: rect_contains_def rect_within_def in_bounds_def)
  show "0 < width b" using w by (auto simp: rect_within_def)
  show "int i = row_of b i * width b + col_of b i"
    by (simp add: row_of_def col_of_def)
qed

text \<open>The cells that the helpers have to report: all of them when \<open>dirtyAll\<close> is set, else
  the stamped ones.\<close>

lemma FEDC_all:
  assumes wf: "buf_wf b"
  shows "\<exists>vs. collectR (\<lambda>y. collectR (\<lambda>x. visit_cell b x y (add64 (mul64 y (width b)) x)) [0..width b - 1])
                 [0..height b - 1] = Inr vs
     \<and> set vs = {(x, y, c). in_bounds b x y \<and> c = cells b ! nat (y * width b + x)}"
proof -
  let ?g = "\<lambda>x y. [(x, y, cells b ! nat (y * width b + x))]"
  let ?vs = "concat (map (\<lambda>y. concat (map (\<lambda>x. ?g x y) [0..width b - 1])) [0..height b - 1])"
  have e: "collectR (\<lambda>y. collectR (\<lambda>x. visit_cell b x y (add64 (mul64 y (width b)) x)) [0..width b - 1])
                 [0..height b - 1] = Inr ?vs"
    by (rule scan_all [OF wf]) (rule visit_cell_ok [OF wf])
  have m: "set ?vs = {(x, y, c). in_bounds b x y \<and> c = cells b ! nat (y * width b + x)}"
    by (auto simp: in_bounds_def)
  show ?thesis using e m by blast
qed

lemma FEDC_linear:
  assumes wf: "buf_wf b"
  shows "\<exists>vs. collectR (\<lambda>y. collectR (\<lambda>x. visit_if_stamped b x y (add64 (mul64 y (width b)) x)) [0..width b - 1])
                 [0..height b - 1] = Inr vs
     \<and> set vs = {(x, y, c). in_bounds b x y \<and> dirtyStamp b ! nat (y * width b + x) = dirtyGen b
                        \<and> c = cells b ! nat (y * width b + x)}"
proof -
  let ?g = "\<lambda>x y. if dirtyStamp b ! nat (y * width b + x) = dirtyGen b
                  then [(x, y, cells b ! nat (y * width b + x))] else []"
  let ?vs = "concat (map (\<lambda>y. concat (map (\<lambda>x. ?g x y) [0..width b - 1])) [0..height b - 1])"
  have e: "collectR (\<lambda>y. collectR (\<lambda>x. visit_if_stamped b x y (add64 (mul64 y (width b)) x)) [0..width b - 1])
                 [0..height b - 1] = Inr ?vs"
    by (rule scan_all [OF wf]) (rule visit_if_stamped_ok [OF wf])
  have m: "set ?vs = {(x, y, c). in_bounds b x y \<and> dirtyStamp b ! nat (y * width b + x) = dirtyGen b
                        \<and> c = cells b ! nat (y * width b + x)}"
    by (auto simp: in_bounds_def split: if_splits)
  show ?thesis using e m by blast
qed

lemma FEDC_listed:
  assumes inv: "buf_inv b" and nd: "\<not> dirtyAll b" and en: "dirtyListEnabled b"
  shows "\<exists>vs. collectR (visit_listed b) (dirtyIndices b) = Inr vs
     \<and> set vs = {(x, y, c). in_bounds b x y \<and> dirtyStamp b ! nat (y * width b + x) = dirtyGen b
                        \<and> c = cells b ! nat (y * width b + x)}"
proof -
  from inv nd have wf: "buf_wf b" and ag: "dirty_agree b" by (simp_all add: buf_inv_def)
  from ag en have l: "set (dirtyIndices b) = set (map int (stamped b))" by (simp add: dirty_agree_def)
  let ?g = "\<lambda>idx. [(col_of b (nat idx), row_of b (nat idx), cells b ! nat idx)]"
  let ?vs = "concat (map ?g (dirtyIndices b))"
  have v: "visit_listed b idx = Inr (?g idx)" if "idx \<in> set (dirtyIndices b)" for idx
  proof -
    from that l obtain i where i: "i \<in> set (stamped b)" "idx = int i" by auto
    note c = stamped_coords [OF inv nd i(1)]
    have r: "i < length (dirtyStamp b)" "dirtyStamp b ! i = dirtyGen b" using i(1) by (simp_all add: set_stamped)
    then have rc: "i < length (cells b)" using wf by (simp add: buf_wf_def)
    have s: "stamp_at b idx = Inr (dirtyGen b)" using r i(2) by (simp add: stamp_at_def)
    have gd: "go_div idx (width b) = row_of b i"
      using c(4) i(2) by (simp add: go_div_nonneg row_of_def)
    have m: "mul64 (row_of b i) (width b) = row_of b i * width b" by (rule idx64(2) [OF wf c(1)])
    have cb: "0 \<le> col_of b i" "col_of b i < width b" using c(1) by (simp_all add: in_bounds_def)
    have "is_i64 (idx - row_of b i * width b)"
      using c(2) i(2) cb area_fits(3) [OF wf] by (simp add: is_i64_def)
    then have "sub64 idx (row_of b i * width b) = idx - row_of b i * width b" by (rule sub64_id)
    then have x: "sub64 idx (mul64 (row_of b i) (width b)) = col_of b i" using c(2) i(2) m by simp
    have "visit_cell b (col_of b i) (row_of b i) idx = Inr [(col_of b i, row_of b i, cells b ! i)]"
      using rc i(2) by (simp add: visit_cell_def cell_at_def)
    then show ?thesis using s c(4) gd x i(2) by (simp add: visit_listed_def Let_def)
  qed
  then have e: "collectR (visit_listed b) (dirtyIndices b) = Inr ?vs"
    by (intro collectR_Inr) blast
  have a: "in_bounds b x y \<and> dirtyStamp b ! nat (y * width b + x) = dirtyGen b \<and> c = cells b ! nat (y * width b + x)"
    if "(x, y, c) \<in> set ?vs" for x y c
  proof -
    from that l obtain i where i: "i \<in> set (stamped b)"
      "x = col_of b i" "y = row_of b i" "c = cells b ! i" by auto
    note c = stamped_coords [OF inv nd i(1)]
    have "nat (y * width b + x) = i" using c(2) i(2,3) by simp
    then show ?thesis using c(1) i by (simp add: set_stamped)
  qed
  have cov: "(x, y, cells b ! nat (y * width b + x)) \<in> set ?vs"
    if "in_bounds b x y" "dirtyStamp b ! nat (y * width b + x) = dirtyGen b" for x y
  proof -
    let ?i = "nat (y * width b + x)"
    have i: "?i \<in> set (stamped b)" using that stamped_iff [OF wf that(1)] by simp
    then have "int ?i \<in> set (dirtyIndices b)" unfolding l by (simp only: set_map) (rule imageI)
    then have "\<exists>idx\<in>set (dirtyIndices b). nat idx = ?i"
      by (intro bexI [of _ "int ?i"]) simp_all
    then obtain idx where idx: "idx \<in> set (dirtyIndices b)" "nat idx = ?i" by blast
    have "(col_of b (nat idx), row_of b (nat idx), cells b ! nat idx)
            \<in> (\<lambda>idx. (col_of b (nat idx), row_of b (nat idx), cells b ! nat idx)) ` set (dirtyIndices b)"
      using idx(1) by (rule imageI)
    then have "(col_of b ?i, row_of b ?i, cells b ! ?i) \<in> set ?vs"
      unfolding idx(2) by simp
    then show ?thesis using col_row_of_idx [OF that(1)] by simp
  qed
  have "set ?vs = {(x, y, c). in_bounds b x y \<and> dirtyStamp b ! nat (y * width b + x) = dirtyGen b
                        \<and> c = cells b ! nat (y * width b + x)}"
  proof (intro set_eqI iffI)
    fix t assume t: "t \<in> set ?vs"
    obtain x y c where tt: "t = (x, y, c)" by (cases t)
    from a [of x y c] t
    show "t \<in> {(x, y, c). in_bounds b x y \<and> dirtyStamp b ! nat (y * width b + x) = dirtyGen b
                        \<and> c = cells b ! nat (y * width b + x)}"
      unfolding tt by simp
  next
    fix t assume t: "t \<in> {(x, y, c). in_bounds b x y \<and> dirtyStamp b ! nat (y * width b + x) = dirtyGen b
                        \<and> c = cells b ! nat (y * width b + x)}"
    obtain x y c where tt: "t = (x, y, c)" by (cases t)
    from cov [of x y] t show "t \<in> set ?vs" unfolding tt by simp
  qed
  then show ?thesis using e by blast
qed

lemma FEDC_rect:
  assumes inv: "buf_inv b" and nd: "\<not> dirtyAll b" and pos: "0 < dirtyCount b"
  shows "\<exists>vs. collectR
          (\<lambda>y. collectR (\<lambda>idx. visit_if_stamped b (sub64 idx (mul64 y (width b))) y idx)
                   [add64 (mul64 y (width b)) (X (dirtyRect b))
                    ..add64 (mul64 y (width b))
                        (min (width b) (add64 (X (dirtyRect b)) (Width (dirtyRect b)))) - 1])
          [Y (dirtyRect b)..min (add64 (Y (dirtyRect b)) (Height (dirtyRect b))) (height b) - 1] = Inr vs
     \<and> set vs = {(x, y, c). in_bounds b x y \<and> dirtyStamp b ! nat (y * width b + x) = dirtyGen b
                        \<and> c = cells b ! nat (y * width b + x)}"
proof -
  from inv nd pos have wf: "buf_wf b" and ag: "dirty_agree b" and rw: "rect_within b (dirtyRect b)"
    by (simp_all add: buf_inv_def)
  let ?r = "dirtyRect b" and ?w = "width b"
  let ?rows = "[Y ?r..Y ?r + Height ?r - 1]"
  let ?idxs = "\<lambda>y. [y * ?w + X ?r..y * ?w + (X ?r + Width ?r) - 1]"
  let ?g = "\<lambda>y idx. if dirtyStamp b ! nat idx = dirtyGen b
                     then [(idx - y * ?w, y, cells b ! nat idx)] else []"
  let ?vs = "concat (map (\<lambda>y. concat (map (?g y) (?idxs y))) ?rows)"
  have rb: "0 \<le> X ?r" "0 \<le> Y ?r" "X ?r + Width ?r \<le> ?w" "Y ?r + Height ?r \<le> height b"
    "0 < Width ?r" "0 < Height ?r"
    using rw by (simp_all add: rect_within_def)
  note fit = area_fits [OF wf]
  have xe: "add64 (X ?r) (Width ?r) = X ?r + Width ?r"
    using rb fit by (intro add64_id) (simp add: is_i64_def)
  have ye: "add64 (Y ?r) (Height ?r) = Y ?r + Height ?r"
    using rb fit by (intro add64_id) (simp add: is_i64_def)
  have mw: "min ?w (X ?r + Width ?r) = X ?r + Width ?r" using rb by simp
  have mh: "min (Y ?r + Height ?r) (height b) = Y ?r + Height ?r" using rb by simp
  have inb: "in_bounds b (idx - y * ?w) y" if "y \<in> set ?rows" "idx \<in> set (?idxs y)" for y idx
    using that rb by (auto simp: in_bounds_def)
  have rowm: "mul64 y ?w = y * ?w" "add64 (y * ?w) (X ?r) = y * ?w + X ?r"
    "add64 (y * ?w) (X ?r + Width ?r) = y * ?w + (X ?r + Width ?r)" if y: "y \<in> set ?rows" for y
  proof -
    have ib: "in_bounds b (X ?r) y" using y rb by (simp add: in_bounds_def)
    show "mul64 y ?w = y * ?w" by (rule idx64(2) [OF wf ib])
    show "add64 (y * ?w) (X ?r) = y * ?w + X ?r" by (rule idx64(3) [OF wf ib])
    have ib2: "in_bounds b (X ?r + Width ?r - 1) y" using y rb by (simp add: in_bounds_def)
    have "is_i64 (y * ?w + (X ?r + Width ?r))"
      unfolding is_i64_def using idx_in_range(1,2) [OF wf ib2] fit(2) by linarith
    then show "add64 (y * ?w) (X ?r + Width ?r) = y * ?w + (X ?r + Width ?r)" by (rule add64_id)
  qed
  have e: "collectR
          (\<lambda>y. collectR (\<lambda>idx. visit_if_stamped b (sub64 idx (mul64 y ?w)) y idx)
                   [add64 (mul64 y ?w) (X ?r)..add64 (mul64 y ?w) (min ?w (add64 (X ?r) (Width ?r))) - 1])
          [Y ?r..min (add64 (Y ?r) (Height ?r)) (height b) - 1] = Inr ?vs"
    unfolding xe ye mw mh
  proof (rule collectR_Inr, rule ballI)
    fix y assume y: "y \<in> set ?rows"
    show "collectR (\<lambda>idx. visit_if_stamped b (sub64 idx (mul64 y ?w)) y idx)
            [add64 (mul64 y ?w) (X ?r)..add64 (mul64 y ?w) (X ?r + Width ?r) - 1]
          = Inr (concat (map (?g y) (?idxs y)))"
      unfolding rowm [OF y]
    proof (rule collectR_Inr, rule ballI)
      fix idx assume i: "idx \<in> set (?idxs y)"
      note ib = inb [OF y i]
      have "is_i64 (idx - y * ?w)" using ib fit(3) by (simp add: in_bounds_def is_i64_def)
      then have s: "sub64 idx (y * ?w) = idx - y * ?w" by (rule sub64_id)
      have "visit_if_stamped b (idx - y * ?w) y (y * ?w + (idx - y * ?w))
            = Inr (if dirtyStamp b ! nat (y * ?w + (idx - y * ?w)) = dirtyGen b
                   then [(idx - y * ?w, y, cells b ! nat (y * ?w + (idx - y * ?w)))] else [])"
        by (rule visit_if_stamped_ok [OF wf ib])
      then show "visit_if_stamped b (sub64 idx (y * ?w)) y idx = Inr (?g y idx)"
        unfolding s by simp
    qed
  qed
  have a: "in_bounds b x y \<and> dirtyStamp b ! nat (y * ?w + x) = dirtyGen b \<and> c = cells b ! nat (y * ?w + x)"
    if "(x, y, c) \<in> set ?vs" for x y c
  proof -
    from that obtain y' idx where m: "y' \<in> set ?rows" "idx \<in> set (?idxs y')" "(x, y, c) \<in> set (?g y' idx)"
      by auto
    then have "x = idx - y * ?w" "y' = y" "c = cells b ! nat idx" "dirtyStamp b ! nat idx = dirtyGen b"
      by (auto split: if_splits)
    then show ?thesis using inb [OF m(1,2)] by simp
  qed
  have cov: "(x, y, cells b ! nat (y * ?w + x)) \<in> set ?vs"
    if ib: "in_bounds b x y" and st: "dirtyStamp b ! nat (y * ?w + x) = dirtyGen b" for x y
  proof -
    let ?i = "nat (y * ?w + x)"
    have i: "?i \<in> set (stamped b)" using st stamped_iff [OF wf ib] by simp
    have "rect_contains ?r (col_of b ?i) (row_of b ?i)" using ag i by (simp add: dirty_agree_def)
    then have rc: "rect_contains ?r x y" using col_row_of_idx [OF ib] by simp
    have y: "y \<in> set ?rows" using rc rb by (auto simp: rect_contains_def)
    have ix: "y * ?w + x \<in> set (?idxs y)" using rc rb by (auto simp: rect_contains_def)
    have "(x, y, cells b ! ?i) \<in> set (?g y (y * ?w + x))" using st by simp
    then have "(x, y, cells b ! ?i) \<in> set (concat (map (?g y) (?idxs y)))"
      by (rule concat_map_mem [OF ix])
    then show "(x, y, cells b ! ?i) \<in> set ?vs"
      by (rule concat_map_mem [OF y])
  qed
  have "set ?vs = {(x, y, c). in_bounds b x y \<and> dirtyStamp b ! nat (y * ?w + x) = dirtyGen b
                        \<and> c = cells b ! nat (y * ?w + x)}"
  proof (intro set_eqI iffI)
    fix t assume t: "t \<in> set ?vs"
    obtain x y c where tt: "t = (x, y, c)" by (cases t)
    from a [of x y c] t
    show "t \<in> {(x, y, c). in_bounds b x y \<and> dirtyStamp b ! nat (y * ?w + x) = dirtyGen b
                        \<and> c = cells b ! nat (y * ?w + x)}"
      unfolding tt by simp
  next
    fix t assume t: "t \<in> {(x, y, c). in_bounds b x y \<and> dirtyStamp b ! nat (y * ?w + x) = dirtyGen b
                        \<and> c = cells b ! nat (y * ?w + x)}"
    obtain x y c where tt: "t = (x, y, c)" by (cases t)
    from cov [of x y] t show "t \<in> set ?vs" unfolding tt by simp
  qed
  then show ?thesis using e by blast
qed

lemma ForEachDirtyCell_spec:
  assumes inv: "buf_inv b"
  shows "\<exists>vs. ForEachDirtyCell b = Inr vs
     \<and> set vs = {(x, y, c). in_bounds b x y
                    \<and> (dirtyAll b \<or> dirtyStamp b ! nat (y * width b + x) = dirtyGen b)
                    \<and> c = cells b ! nat (y * width b + x)}"
proof -
  from inv have wf: "buf_wf b" by (simp add: buf_inv_def)
  show ?thesis
  proof (cases "dirtyAll b")
    case True
    then show ?thesis using FEDC_all [OF wf] by (simp add: ForEachDirtyCell_def)
  next
    case nd: False
    then have ag: "dirty_agree b" using inv by (simp add: buf_inv_def)
    show ?thesis
    proof (cases "dirtyCount b = 0")
      case True
      then have "stamped b = []" using ag by (simp add: dirty_agree_def)
      then have "\<forall>x y. in_bounds b x y \<longrightarrow> dirtyStamp b ! nat (y * width b + x) \<noteq> dirtyGen b"
        using stamped_iff [OF wf] by auto
      then show ?thesis using nd True by (auto simp: ForEachDirtyCell_def)
    next
      case nz: False
      then have pos: "0 < dirtyCount b" using ag by (simp add: dirty_agree_def)
      show ?thesis
      proof (cases "dirtyCount b > go_div (mul64 (width b) (height b)) 2")
        case True
        then show ?thesis using nd nz FEDC_linear [OF wf] by (simp add: ForEachDirtyCell_def)
      next
        case nl: False
        show ?thesis
        proof (cases "dirtyListEnabled b \<and> int (length (dirtyIndices b)) = dirtyCount b
              \<and> mul64 (Width (dirtyRect b)) (Height (dirtyRect b)) > mul64 (dirtyCount b) 2")
          case True
          then show ?thesis using nd nz nl FEDC_listed [OF inv nd] by (simp add: ForEachDirtyCell_def)
        next
          case False
          have "ForEachDirtyCell b = collectR
            (\<lambda>y. collectR (\<lambda>idx. visit_if_stamped b (sub64 idx (mul64 y (width b))) y idx)
                   [add64 (mul64 y (width b)) (X (dirtyRect b))
                    ..add64 (mul64 y (width b))
                        (min (width b) (add64 (X (dirtyRect b)) (Width (dirtyRect b)))) - 1])
            [Y (dirtyRect b)..min (add64 (Y (dirtyRect b)) (Height (dirtyRect b))) (height b) - 1]"
            unfolding ForEachDirtyCell_def by (simp only: nd nz nl False if_False)
          then show ?thesis using FEDC_rect [OF inv nd pos] by (simp only: nd simp_thms)
        qed
      qed
    qed
  qed
qed


lemma span_end_spec:
  assumes "a \<le> xEnd"
    and "\<forall>x. a \<le> x \<and> x < xEnd \<longrightarrow> 0 \<le> add64 rs x \<and> add64 rs x < int (length (dirtyStamp b))"
  shows "\<exists>k. a \<le> k \<and> k \<le> xEnd \<and> span_end b rs [a..xEnd - 1] = Inr [k..xEnd - 1]
            \<and> (\<forall>x. a \<le> x \<and> x < k \<longrightarrow> dirtyStamp b ! nat (add64 rs x) = dirtyGen b)"
  using assms
proof (induction "nat (xEnd - a)" arbitrary: a)
  case 0
  then have "a = xEnd" by simp
  then show ?case by (intro exI [of _ xEnd]) auto
next
  case (Suc n)
  then have lt: "a < xEnd" by linarith
  then have u: "[a..xEnd - 1] = a # [a + 1..xEnd - 1]" by (simp add: upto_rec1)
  have "0 \<le> add64 rs a \<and> add64 rs a < int (length (dirtyStamp b))" using Suc.prems(2) lt by blast
  then have s: "stamp_at b (add64 rs a) = Inr (dirtyStamp b ! nat (add64 rs a))"
    by (simp add: stamp_at_def)
  show ?case
  proof (cases "dirtyStamp b ! nat (add64 rs a) = dirtyGen b")
    case False
    then have "span_end b rs [a..xEnd - 1] = Inr [a..xEnd - 1]" using u s by simp
    then show ?thesis using lt by (intro exI [of _ a]) auto
  next
    case True
    have n: "n = nat (xEnd - (a + 1))" using Suc.hyps(2) by linarith
    from Suc.hyps(1) [OF n] lt Suc.prems(2)
    obtain k where k: "a + 1 \<le> k" "k \<le> xEnd" "span_end b rs [a + 1..xEnd - 1] = Inr [k..xEnd - 1]"
      "\<forall>x. a + 1 \<le> x \<and> x < k \<longrightarrow> dirtyStamp b ! nat (add64 rs x) = dirtyGen b" by auto
    have "\<forall>x. a \<le> x \<and> x < k \<longrightarrow> dirtyStamp b ! nat (add64 rs x) = dirtyGen b"
    proof (intro allI impI)
      fix x assume "a \<le> x \<and> x < k"
      then consider "x = a" | "a + 1 \<le> x \<and> x < k" by linarith
      then show "dirtyStamp b ! nat (add64 rs x) = dirtyGen b" using True k(4) by cases auto
    qed
    moreover have "span_end b rs [a..xEnd - 1] = Inr [k..xEnd - 1]" using u s True k(3) by simp
    ultimately show ?thesis using k(1,2) by (intro exI [of _ k]) simp
  qed
qed

lemma span_row_spec:
  assumes "a \<le> xEnd"
    and "\<forall>x. a \<le> x \<and> x < xEnd \<longrightarrow> 0 \<le> add64 rs x \<and> add64 rs x < int (length (dirtyStamp b))"
  shows "\<exists>spans. span_row b y rs [a..xEnd - 1] xEnd = Inr spans
            \<and> (\<forall>(y', s, e)\<in>set spans. y' = y \<and> a \<le> s \<and> s < e \<and> e \<le> xEnd
                   \<and> (\<forall>x. s \<le> x \<and> x < e \<longrightarrow> dirtyStamp b ! nat (add64 rs x) = dirtyGen b))
            \<and> (\<forall>x. a \<le> x \<and> x < xEnd \<and> dirtyStamp b ! nat (add64 rs x) = dirtyGen b
                   \<longrightarrow> (\<exists>(y', s, e)\<in>set spans. s \<le> x \<and> x < e))"
  using assms
proof (induction "nat (xEnd - a)" arbitrary: a rule: less_induct)
  case less
  show ?case
  proof (cases "a = xEnd")
    case True
    then show ?thesis by simp
  next
    case False
    then have lt: "a < xEnd" using less.prems(1) by simp
    then have u: "[a..xEnd - 1] = a # [a + 1..xEnd - 1]" by (simp add: upto_rec1)
    have "0 \<le> add64 rs a \<and> add64 rs a < int (length (dirtyStamp b))" using less.prems(2) lt by blast
    then have s: "stamp_at b (add64 rs a) = Inr (dirtyStamp b ! nat (add64 rs a))"
      by (simp add: stamp_at_def)
    have r1: "\<forall>x. a + 1 \<le> x \<and> x < xEnd \<longrightarrow> 0 \<le> add64 rs x \<and> add64 rs x < int (length (dirtyStamp b))"
      using less.prems(2) by auto
    show ?thesis
    proof (cases "dirtyStamp b ! nat (add64 rs a) = dirtyGen b")
      case ns: False
      have m: "nat (xEnd - (a + 1)) < nat (xEnd - a)" using lt by linarith
      from less.hyps [OF m _ r1] lt
      obtain spans where sp: "span_row b y rs [a + 1..xEnd - 1] xEnd = Inr spans"
        "\<forall>(y', s, e)\<in>set spans. y' = y \<and> a + 1 \<le> s \<and> s < e \<and> e \<le> xEnd
                   \<and> (\<forall>x. s \<le> x \<and> x < e \<longrightarrow> dirtyStamp b ! nat (add64 rs x) = dirtyGen b)"
        "\<forall>x. a + 1 \<le> x \<and> x < xEnd \<and> dirtyStamp b ! nat (add64 rs x) = dirtyGen b
                   \<longrightarrow> (\<exists>(y', s, e)\<in>set spans. s \<le> x \<and> x < e)" by auto
      have e: "span_row b y rs [a..xEnd - 1] xEnd = Inr spans" using u s ns sp(1) by simp
      have b1: "\<forall>(y', s, e)\<in>set spans. y' = y \<and> a \<le> s \<and> s < e \<and> e \<le> xEnd
                   \<and> (\<forall>x. s \<le> x \<and> x < e \<longrightarrow> dirtyStamp b ! nat (add64 rs x) = dirtyGen b)"
        using sp(2) by fastforce
      have c1: "\<forall>x. a \<le> x \<and> x < xEnd \<and> dirtyStamp b ! nat (add64 rs x) = dirtyGen b
                   \<longrightarrow> (\<exists>(y', s, e)\<in>set spans. s \<le> x \<and> x < e)"
      proof (intro allI impI)
        fix x assume x: "a \<le> x \<and> x < xEnd \<and> dirtyStamp b ! nat (add64 rs x) = dirtyGen b"
        then have "x \<noteq> a" using ns by auto
        then have "a + 1 \<le> x" using x by linarith
        then show "\<exists>(y', s, e)\<in>set spans. s \<le> x \<and> x < e" using sp(3) x by blast
      qed
      show ?thesis using e b1 c1 by blast
    next
      case st: True
      from span_end_spec [of "a + 1" xEnd rs b] lt r1
      obtain k where k: "a + 1 \<le> k" "k \<le> xEnd" "span_end b rs [a + 1..xEnd - 1] = Inr [k..xEnd - 1]"
        "\<forall>x. a + 1 \<le> x \<and> x < k \<longrightarrow> dirtyStamp b ! nat (add64 rs x) = dirtyGen b" by auto
      have run: "\<forall>x. a \<le> x \<and> x < k \<longrightarrow> dirtyStamp b ! nat (add64 rs x) = dirtyGen b"
      proof (intro allI impI)
        fix x assume "a \<le> x \<and> x < k"
        then consider "x = a" | "a + 1 \<le> x \<and> x < k" by linarith
        then show "dirtyStamp b ! nat (add64 rs x) = dirtyGen b" using st k(4) by cases auto
      qed
      have hd: "(case [k..xEnd - 1] of [] \<Rightarrow> xEnd | x' # _ \<Rightarrow> x') = k"
      proof (cases "k = xEnd")
        case True
        then show ?thesis by simp
      next
        case False
        then have "[k..xEnd - 1] = k # [k + 1..xEnd - 1]" using k(2) by (simp add: upto_rec1)
        then show ?thesis by simp
      qed
      have m: "nat (xEnd - k) < nat (xEnd - a)" using lt k(1) by linarith
      have rk: "\<forall>x. k \<le> x \<and> x < xEnd \<longrightarrow> 0 \<le> add64 rs x \<and> add64 rs x < int (length (dirtyStamp b))"
        using less.prems(2) k(1) by auto
      from less.hyps [OF m k(2) rk]
      obtain spans where sp: "span_row b y rs [k..xEnd - 1] xEnd = Inr spans"
        "\<forall>(y', s, e)\<in>set spans. y' = y \<and> k \<le> s \<and> s < e \<and> e \<le> xEnd
                   \<and> (\<forall>x. s \<le> x \<and> x < e \<longrightarrow> dirtyStamp b ! nat (add64 rs x) = dirtyGen b)"
        "\<forall>x. k \<le> x \<and> x < xEnd \<and> dirtyStamp b ! nat (add64 rs x) = dirtyGen b
                   \<longrightarrow> (\<exists>(y', s, e)\<in>set spans. s \<le> x \<and> x < e)" by auto
      have e: "span_row b y rs [a..xEnd - 1] xEnd = Inr ((y, a, k) # spans)"
        using u s st k(3) sp(1) hd by simp
      have b0: "\<forall>(y', s, e)\<in>set spans. y' = y \<and> a \<le> s \<and> s < e \<and> e \<le> xEnd
                   \<and> (\<forall>x. s \<le> x \<and> x < e \<longrightarrow> dirtyStamp b ! nat (add64 rs x) = dirtyGen b)"
        using sp(2) k(1) by fastforce
      have b1: "\<forall>(y', s, e)\<in>set ((y, a, k) # spans). y' = y \<and> a \<le> s \<and> s < e \<and> e \<le> xEnd
                   \<and> (\<forall>x. s \<le> x \<and> x < e \<longrightarrow> dirtyStamp b ! nat (add64 rs x) = dirtyGen b)"
        using b0 k(1,2) run by simp
      have c1: "\<forall>x. a \<le> x \<and> x < xEnd \<and> dirtyStamp b ! nat (add64 rs x) = dirtyGen b
                   \<longrightarrow> (\<exists>(y', s, e)\<in>set ((y, a, k) # spans). s \<le> x \<and> x < e)"
      proof (intro allI impI)
        fix x assume x: "a \<le> x \<and> x < xEnd \<and> dirtyStamp b ! nat (add64 rs x) = dirtyGen b"
        show "\<exists>(y', s, e)\<in>set ((y, a, k) # spans). s \<le> x \<and> x < e"
        proof (cases "x < k")
          case True
          then show ?thesis using x by simp
        next
          case False
          then have "\<exists>(y', s, e)\<in>set spans. s \<le> x \<and> x < e" using sp(3) x by auto
          then show ?thesis by auto
        qed
      qed
      show ?thesis using e b1 c1 by blast
    qed
  qed
qed

text \<open>The spans that \<open>ForEachDirtySpan\<close> reports lie inside the buffer, and a cell lies in
  one of them exactly when it is dirty.\<close>

lemma ForEachDirtySpan_spec:
  assumes inv: "buf_inv b"
  shows "\<exists>spans. ForEachDirtySpan b = Inr spans
     \<and> (\<forall>(y, s, e)\<in>set spans. 0 \<le> y \<and> y < height b \<and> 0 \<le> s \<and> s \<le> e \<and> e \<le> width b)
     \<and> (\<forall>x y. (\<exists>(y', s, e)\<in>set spans. y' = y \<and> s \<le> x \<and> x < e)
              \<longleftrightarrow> in_bounds b x y \<and> (dirtyAll b \<or> dirtyStamp b ! nat (y * width b + x) = dirtyGen b))"
proof -
  from inv have wf: "buf_wf b" by (simp add: buf_inv_def)
  note fit = area_fits [OF wf]
  show ?thesis
  proof (cases "dirtyAll b")
    case True
    let ?spans = "map (\<lambda>y. (y, 0, width b)) [0..height b - 1]"
    have e: "ForEachDirtySpan b = Inr ?spans" using True by (simp add: ForEachDirtySpan_def)
    have w0: "0 < height b \<longrightarrow> 0 \<le> width b" using fit(1) by (auto simp: zero_le_mult_iff)
    have a: "\<forall>(y, s, e)\<in>set ?spans. 0 \<le> y \<and> y < height b \<and> 0 \<le> s \<and> s \<le> e \<and> e \<le> width b"
      using w0 by auto
    have c: "\<forall>x y. (\<exists>(y', s, e)\<in>set ?spans. y' = y \<and> s \<le> x \<and> x < e)
              \<longleftrightarrow> in_bounds b x y \<and> (dirtyAll b \<or> dirtyStamp b ! nat (y * width b + x) = dirtyGen b)"
      using True by (auto simp: in_bounds_def)
    show ?thesis using e a c by blast
  next
    case nd: False
    then have ag: "dirty_agree b" and rw: "0 < dirtyCount b \<longrightarrow> rect_within b (dirtyRect b)"
      using inv by (simp_all add: buf_inv_def)
    show ?thesis
    proof (cases "dirtyCount b = 0")
      case True
      then have "stamped b = []" using ag by (simp add: dirty_agree_def)
      then have "\<forall>x y. in_bounds b x y \<longrightarrow> dirtyStamp b ! nat (y * width b + x) \<noteq> dirtyGen b"
        using stamped_iff [OF wf] by auto
      then show ?thesis using nd True by (auto simp: ForEachDirtySpan_def)
    next
      case nz: False
      then have pos: "0 < dirtyCount b" using ag by (simp add: dirty_agree_def)
      then have rwb: "rect_within b (dirtyRect b)" using rw by simp
      let ?r = "dirtyRect b" and ?w = "width b"
      let ?xEnd = "X ?r + Width ?r" and ?yEnd = "Y ?r + Height ?r"
      have rb: "0 \<le> X ?r" "0 \<le> Y ?r" "?xEnd \<le> ?w" "?yEnd \<le> height b"
        "0 < Width ?r" "0 < Height ?r"
        using rwb by (simp_all add: rect_within_def)
      have xe: "add64 (X ?r) (Width ?r) = ?xEnd"
        using rb fit by (intro add64_id) (simp add: is_i64_def)
      have ye: "add64 (Y ?r) (Height ?r) = ?yEnd"
        using rb fit by (intro add64_id) (simp add: is_i64_def)
      have mw: "min ?w ?xEnd = ?xEnd" using rb by simp
      have mh: "min (height b) ?yEnd = ?yEnd" using rb by simp
      have fe: "ForEachDirtySpan b
                = collectR (\<lambda>y. span_row b y (mul64 y ?w) [X ?r..?xEnd - 1] ?xEnd) [Y ?r..?yEnd - 1]"
        using nd nz rb by (simp add: ForEachDirtySpan_def Let_def xe ye mw mh)
      have idx: "add64 (mul64 y ?w) x = y * ?w + x \<and> 0 \<le> y * ?w + x \<and> y * ?w + x < int (length (dirtyStamp b))"
        if "Y ?r \<le> y" "y < ?yEnd" "X ?r \<le> x" "x < ?xEnd" for x y
      proof -
        have ib: "in_bounds b x y" using that rb by (simp add: in_bounds_def)
        show ?thesis using idx64(1) [OF wf ib] idx_in_range(1) [OF wf ib] idx_nat_range(2) [OF wf ib]
          by simp
      qed
      have row: "\<exists>spans. span_row b y (mul64 y ?w) [X ?r..?xEnd - 1] ?xEnd = Inr spans
            \<and> (\<forall>(y', s, e)\<in>set spans. y' = y \<and> X ?r \<le> s \<and> s < e \<and> e \<le> ?xEnd
                   \<and> (\<forall>x. s \<le> x \<and> x < e \<longrightarrow> dirtyStamp b ! nat (y * ?w + x) = dirtyGen b))
            \<and> (\<forall>x. X ?r \<le> x \<and> x < ?xEnd \<and> dirtyStamp b ! nat (y * ?w + x) = dirtyGen b
                   \<longrightarrow> (\<exists>(y', s, e)\<in>set spans. s \<le> x \<and> x < e))"
        if y: "y \<in> set [Y ?r..?yEnd - 1]" for y
      proof -
        have yy: "Y ?r \<le> y" "y < ?yEnd" using y by auto
        have le: "X ?r \<le> ?xEnd" using rb by simp
        have rng: "\<forall>x. X ?r \<le> x \<and> x < ?xEnd \<longrightarrow>
                     0 \<le> add64 (mul64 y ?w) x \<and> add64 (mul64 y ?w) x < int (length (dirtyStamp b))"
          using idx [OF yy] by auto
        from span_row_spec [OF le rng, of y]
        obtain spans where sp: "span_row b y (mul64 y ?w) [X ?r..?xEnd - 1] ?xEnd = Inr spans"
          "\<forall>(y', s, e)\<in>set spans. y' = y \<and> X ?r \<le> s \<and> s < e \<and> e \<le> ?xEnd
                   \<and> (\<forall>x. s \<le> x \<and> x < e \<longrightarrow> dirtyStamp b ! nat (add64 (mul64 y ?w) x) = dirtyGen b)"
          "\<forall>x. X ?r \<le> x \<and> x < ?xEnd \<and> dirtyStamp b ! nat (add64 (mul64 y ?w) x) = dirtyGen b
                   \<longrightarrow> (\<exists>(y', s, e)\<in>set spans. s \<le> x \<and> x < e)" by blast
        have s2: "\<forall>(y', s, e)\<in>set spans. y' = y \<and> X ?r \<le> s \<and> s < e \<and> e \<le> ?xEnd
                   \<and> (\<forall>x. s \<le> x \<and> x < e \<longrightarrow> dirtyStamp b ! nat (y * ?w + x) = dirtyGen b)"
        proof (intro ballI, clarify)
          fix y' s e assume m: "(y', s, e) \<in> set spans"
          with sp(2) have p: "y' = y" "X ?r \<le> s" "s < e" "e \<le> ?xEnd"
            "\<forall>x. s \<le> x \<and> x < e \<longrightarrow> dirtyStamp b ! nat (add64 (mul64 y ?w) x) = dirtyGen b" by auto
          have "\<forall>x. s \<le> x \<and> x < e \<longrightarrow> dirtyStamp b ! nat (y * ?w + x) = dirtyGen b"
          proof (intro allI impI)
            fix x assume x: "s \<le> x \<and> x < e"
            then have "X ?r \<le> x" "x < ?xEnd" using p by linarith+
            from idx [OF yy this] p(5) x show "dirtyStamp b ! nat (y * ?w + x) = dirtyGen b" by auto
          qed
          then show "y' = y \<and> X ?r \<le> s \<and> s < e \<and> e \<le> ?xEnd
                   \<and> (\<forall>x. s \<le> x \<and> x < e \<longrightarrow> dirtyStamp b ! nat (y * ?w + x) = dirtyGen b)"
            using p by simp
        qed
        have s3: "\<forall>x. X ?r \<le> x \<and> x < ?xEnd \<and> dirtyStamp b ! nat (y * ?w + x) = dirtyGen b
                   \<longrightarrow> (\<exists>(y', s, e)\<in>set spans. s \<le> x \<and> x < e)"
        proof (intro allI impI)
          fix x assume x: "X ?r \<le> x \<and> x < ?xEnd \<and> dirtyStamp b ! nat (y * ?w + x) = dirtyGen b"
          then have "X ?r \<le> x" "x < ?xEnd" by simp_all
          from idx [OF yy this] x have "dirtyStamp b ! nat (add64 (mul64 y ?w) x) = dirtyGen b" by simp
          then show "\<exists>(y', s, e)\<in>set spans. s \<le> x \<and> x < e" using sp(3) x by blast
        qed
        show ?thesis using sp(1) s2 s3 by blast
      qed
      define g where "g = (\<lambda>y. projr (span_row b y (mul64 y ?w) [X ?r..?xEnd - 1] ?xEnd))"
      have gall: "span_row b y (mul64 y ?w) [X ?r..?xEnd - 1] ?xEnd = Inr (g y)
            \<and> (\<forall>(y', s, e)\<in>set (g y). y' = y \<and> X ?r \<le> s \<and> s < e \<and> e \<le> ?xEnd
                   \<and> (\<forall>x. s \<le> x \<and> x < e \<longrightarrow> dirtyStamp b ! nat (y * ?w + x) = dirtyGen b))
            \<and> (\<forall>x. X ?r \<le> x \<and> x < ?xEnd \<and> dirtyStamp b ! nat (y * ?w + x) = dirtyGen b
                   \<longrightarrow> (\<exists>(y', s, e)\<in>set (g y). s \<le> x \<and> x < e))"
        if y: "y \<in> set [Y ?r..?yEnd - 1]" for y
      proof -
        from row [OF y] obtain spans where
          sp: "span_row b y (mul64 y ?w) [X ?r..?xEnd - 1] ?xEnd = Inr spans
            \<and> (\<forall>(y', s, e)\<in>set spans. y' = y \<and> X ?r \<le> s \<and> s < e \<and> e \<le> ?xEnd
                   \<and> (\<forall>x. s \<le> x \<and> x < e \<longrightarrow> dirtyStamp b ! nat (y * ?w + x) = dirtyGen b))
            \<and> (\<forall>x. X ?r \<le> x \<and> x < ?xEnd \<and> dirtyStamp b ! nat (y * ?w + x) = dirtyGen b
                   \<longrightarrow> (\<exists>(y', s, e)\<in>set spans. s \<le> x \<and> x < e))" by blast
        then have "g y = spans" unfolding g_def by simp
        then show ?thesis using sp by simp
      qed
      note gr = gall [THEN conjunct1] and g2 = gall [THEN conjunct2, THEN conjunct1]
        and g3 = gall [THEN conjunct2, THEN conjunct2]
      let ?spans = "concat (map g [Y ?r..?yEnd - 1])"
      have e: "ForEachDirtySpan b = Inr ?spans"
        unfolding fe by (rule collectR_Inr) (use gr in blast)
      have mem: "\<exists>y\<in>set [Y ?r..?yEnd - 1]. t \<in> set (g y)" if "t \<in> set ?spans" for t
        using that by auto
      have a: "\<forall>(y, s, e)\<in>set ?spans. 0 \<le> y \<and> y < height b \<and> 0 \<le> s \<and> s \<le> e \<and> e \<le> width b"
      proof (intro ballI, clarify)
        fix y s e assume "(y, s, e) \<in> set ?spans"
        from mem [OF this] obtain y0 where y0: "y0 \<in> set [Y ?r..?yEnd - 1]" "(y, s, e) \<in> set (g y0)" by blast
        from g2 [OF y0(1)] y0(2) have "y = y0" "X ?r \<le> s" "s < e" "e \<le> ?xEnd" by auto
        then show "0 \<le> y \<and> y < height b \<and> 0 \<le> s \<and> s \<le> e \<and> e \<le> width b"
          using y0(1) rb by auto
      qed
      have c: "(\<exists>(y', s, e)\<in>set ?spans. y' = y \<and> s \<le> x \<and> x < e)
              \<longleftrightarrow> in_bounds b x y \<and> (dirtyAll b \<or> dirtyStamp b ! nat (y * width b + x) = dirtyGen b)"
        for x y
      proof
        assume "\<exists>(y', s, e)\<in>set ?spans. y' = y \<and> s \<le> x \<and> x < e"
        then obtain s e where m: "(y, s, e) \<in> set ?spans" "s \<le> x" "x < e" by auto
        from mem [OF m(1)] obtain y0 where y0: "y0 \<in> set [Y ?r..?yEnd - 1]" "(y, s, e) \<in> set (g y0)" by blast
        from g2 [OF y0(1)] y0(2) have p: "y = y0" "X ?r \<le> s" "s < e" "e \<le> ?xEnd"
          "\<forall>x. s \<le> x \<and> x < e \<longrightarrow> dirtyStamp b ! nat (y0 * ?w + x) = dirtyGen b" by auto
        have "in_bounds b x y" using p(1-4) m(2,3) y0(1) rb by (auto simp: in_bounds_def)
        moreover have "dirtyStamp b ! nat (y * width b + x) = dirtyGen b" using p(1,5) m(2,3) by simp
        ultimately show "in_bounds b x y \<and> (dirtyAll b \<or> dirtyStamp b ! nat (y * width b + x) = dirtyGen b)"
          by simp
      next
        assume "in_bounds b x y \<and> (dirtyAll b \<or> dirtyStamp b ! nat (y * width b + x) = dirtyGen b)"
        then have ib: "in_bounds b x y" and st: "dirtyStamp b ! nat (y * width b + x) = dirtyGen b"
          using nd by simp_all
        let ?i = "nat (y * ?w + x)"
        have i: "?i \<in> set (stamped b)" using st stamped_iff [OF wf ib] by simp
        have "rect_contains ?r (col_of b ?i) (row_of b ?i)" using ag i by (simp add: dirty_agree_def)
        then have rc: "rect_contains ?r x y" using col_row_of_idx [OF ib] by simp
        have y: "y \<in> set [Y ?r..?yEnd - 1]" using rc by (auto simp: rect_contains_def)
        have "X ?r \<le> x \<and> x < ?xEnd" using rc by (auto simp: rect_contains_def)
        with g3 [OF y] st obtain y' s e where t: "(y', s, e) \<in> set (g y)" "s \<le> x" "x < e" by blast
        from g2 [OF y] t(1) have "y' = y" by auto
        then have "(y, s, e) \<in> set ?spans" using t(1) y by auto
        then show "\<exists>(y', s, e)\<in>set ?spans. y' = y \<and> s \<le> x \<and> x < e" using t(2,3) by blast
      qed
      show ?thesis using e a c by blast
    qed
  qed
qed

subsection \<open>Cell buffer: the claims\<close>

lemma NewBuffer_2x2: "NewBuffer 2 2 = Inr buf2x2"
  by (simp add: NewBuffer_def buf2x2_def calcDirtyListCap_def Let_def numeral_eq_Suc mul64_def i64_def)

lemma Set_2x2_X: "Buffer_Set buf2x2 1 0 88 0 = Inr buf2x2_X"
  by (simp add: Buffer_Set_def put_cell_def markCellDirty_def buf2x2_def buf2x2_X_def Let_def
      mul64_def add64_def i64_def)

lemma reachable_2x2: "reachable buf2x2"
  by (rule r_new [OF NewBuffer_2x2])

lemma reachable_2x2_X: "reachable buf2x2_X"
  by (rule r_set [OF reachable_2x2 Set_2x2_X])

lemma dims_2x2_X: "dims_fit (width buf2x2_X) (height buf2x2_X)"
  by (simp add: buf2x2_X_def dims_fit_def is_i64_def)

lemma stamped_2x2_X: "stamped buf2x2_X = [1]"
  by (simp add: stamped_def buf2x2_X_def upt_rec [of 0] upt_rec [of 1] upt_rec [of 2] upt_rec [of 3] numeral_eq_Suc)

lemma NewBuffer_wrap0: "NewBuffer 4294967296 4294967296 = Inr buf_wrap0"
  by (simp add: NewBuffer_def buf_wrap0_def calcDirtyListCap_def Let_def mul64_def i64_def)

lemma NewBuffer_wrap2: "NewBuffer 3 6148914691236517206 = Inr buf_wrap2"
  by (simp add: NewBuffer_def buf_wrap2_def calcDirtyListCap_def Let_def numeral_eq_Suc mul64_def i64_def)

lemma Set_wrap2_X: "Buffer_Set buf_wrap2 1 6148914691236517205 88 0 = Inr buf_wrap2_X"
  by (simp add: Buffer_Set_def put_cell_def markCellDirty_def buf_wrap2_def buf_wrap2_X_def Let_def
      mul64_def add64_def i64_def)

lemma calcDirtyListCap_eq:
  "0 < A \<Longrightarrow> calcDirtyListCap A = min A (max 256 (min 8192 (A div 4)))"
  unfolding calcDirtyListCap_def Let_def by (simp add: min_def max_def) presburger

lemma range_writes_row: "pc \<in> set (range_writes w off y rs st) \<Longrightarrow> snd (fst pc) = y"
  by (auto simp: range_writes_def)

lemma Buffer_SetString_written:
  assumes inv: "buf_inv b" and xi: "is_i64 x" and len: "int (length str) < 9223372036854775808"
    and sw: "Buffer_SetString b x y str st = Inr b'"
  shows "\<forall>jr\<in>set (range_runes 0 (bytes_of str)).
           in_bounds b (x + fst jr) y \<longrightarrow> Buffer_Get b' (x + fst jr) y = Inr (Cell (snd jr) st)"
    and "\<forall>u. u - x \<notin> fst ` set (range_runes 0 (bytes_of str)) \<longrightarrow> Buffer_Get b' u y = Buffer_Get b u y"
proof -
  let ?rs = "range_runes 0 (bytes_of str)"
  let ?P = "\<lambda>jr. 0 \<le> x + fst jr \<and> x + fst jr < width b"
  let ?ws = "map (\<lambda>jr. ((x + fst jr, y), Cell (snd jr) st)) (filter ?P ?rs)"
  from inv have wf: "buf_wf b" by (simp add: buf_inv_def)
  note fit = area_fits [OF wf]
  note off = range_runes_offsets [of 0 "bytes_of str"]
  have srt: "sorted (map fst ?rs)" and dst: "distinct (map fst ?rs)" using off by simp_all
  have rb: "\<forall>jr\<in>set ?rs. 0 \<le> fst jr \<and> fst jr < 9223372036854775808"
    using off len by (auto simp: bytes_of_def)
  from Buffer_SetString_writes [OF inv, of x y str st] sw
  have cw: "cell_writes (if 0 \<le> y \<and> y < height b \<and> x < width b
                         then range_writes (width b) x y ?rs st else []) b b'" by auto
  have e: "range_writes (width b) x y ?rs st = ?ws" if "0 \<le> width b"
    by (rule range_writes_plain [OF xi that fit(3) srt rb])
  have d: "distinct (map fst ?ws)"
    using dst by (auto simp: distinct_map comp_def inj_on_def)
  show "\<forall>jr\<in>set ?rs. in_bounds b (x + fst jr) y \<longrightarrow> Buffer_Get b' (x + fst jr) y = Inr (Cell (snd jr) st)"
  proof (intro ballI impI)
    fix jr assume m: "jr \<in> set ?rs" and ib: "in_bounds b (x + fst jr) y"
    then have yb: "0 \<le> y \<and> y < height b" and xb: "0 \<le> x + fst jr" "x + fst jr < width b"
      by (simp_all add: in_bounds_def)
    have xw: "x < width b" using xb rb m by force
    have w0: "0 \<le> width b" using xb by simp
    have cw': "cell_writes ?ws b b'" using cw yb xw e [OF w0] by simp
    have "((x + fst jr, y), Cell (snd jr) st) \<in> set ?ws" using m xb by force
    from cell_writes_Get_distinct [OF cw' inv d this]
    show "Buffer_Get b' (x + fst jr) y = Inr (Cell (snd jr) st)" .
  qed
  show "\<forall>u. u - x \<notin> fst ` set ?rs \<longrightarrow> Buffer_Get b' u y = Buffer_Get b u y"
  proof (intro allI impI)
    fix u assume n: "u - x \<notin> fst ` set ?rs"
    show "Buffer_Get b' u y = Buffer_Get b u y"
    proof (cases "0 \<le> y \<and> y < height b \<and> x < width b")
      case False
      then have "cell_writes [] b b'" using cw by (simp only: if_False)
      from cell_writes_Get_other [OF this inv, of u y] show ?thesis by simp
    next
      case True
      then have w0: "0 \<le> width b" using fit(1) by (auto simp: zero_le_mult_iff)
      have cw': "cell_writes ?ws b b'" using cw True e [OF w0] by simp
      have "(u, y) \<notin> fst ` set ?ws"
      proof
        assume "(u, y) \<in> fst ` set ?ws"
        then obtain jr where "jr \<in> set ?rs" "u = x + fst jr" by auto
        then have "u - x \<in> fst ` set ?rs" by simp
        then show False using n by simp
      qed
      from cell_writes_Get_other [OF cw' inv this] show ?thesis .
    qed
  qed
qed

text \<open>Claim C10 (out-of-bounds totality), as stated, fails for a buffer whose area wraps
  around: \<open>NewBuffer(2^32, 2^32)\<close> computes the area \<open>2^64\<close>, which is \<open>0\<close> in 64 bits, and
  allocates no cell, so \<open>Get(0, 0)\<close>, inside the bounds \<open>2^32\<close> by \<open>2^32\<close>, indexes outside
  the cell array.\<close>

theorem get_wrapped_area_counterexample:
  "NewBuffer 4294967296 4294967296 = Inr buf_wrap0
   \<and> in_bounds buf_wrap0 0 0
   \<and> Buffer_Get buf_wrap0 0 0 = Inl IndexOutOfRange"
  by (simp add: NewBuffer_wrap0)
     (simp add: Buffer_Get_def in_bounds_def buf_wrap0_def mul64_def add64_def i64_def)

text \<open>Claim C10, amended. On every reachable buffer whose area \<open>width * height\<close> does not
  wrap around, and for all integer coordinates: \<open>Get\<close> never fails and returns the blank
  cell (space, zero style) outside the bounds; \<open>Set\<close> never fails, is a no-op outside the
  bounds, and inside them stores its cell and changes no other cell; \<open>SetString\<close> never
  fails, keeps the dimensions and changes no cell outside the row \<open>y\<close>, and for a start
  column that is a Go integer and a string shorter than \<open>2^63\<close> bytes it stores every rune
  whose column \<open>x + offset\<close> lies in the buffer and changes no other cell of the row;
  \<open>Fill\<close> never fails, keeps the dimensions, stores its cell in every cell of the
  rectangle clipped to the buffer (the right and bottom edges being the wrapped sums
  \<open>X + Width\<close> and \<open>Y + Height\<close>) and changes no other cell. Every index into the cell
  array is checked in the model, so a result \<open>Inr\<close> means that no access was out of
  range.\<close>

theorem out_of_bounds_totality:
  assumes "reachable b" and "dims_fit (width b) (height b)"
  shows "(\<not> in_bounds b x y \<longrightarrow> Buffer_Get b x y = Inr (Cell 32 0))
       \<and> (\<exists>c. Buffer_Get b x y = Inr c)
       \<and> (\<not> in_bounds b x y \<longrightarrow> Buffer_Set b x y r s = Inr b)
       \<and> (\<exists>b'. Buffer_Set b x y r s = Inr b'
                \<and> width b' = width b \<and> height b' = height b
                \<and> (in_bounds b x y \<longrightarrow> Buffer_Get b' x y = Inr (Cell r s))
                \<and> (\<forall>u v. (u, v) \<noteq> (x, y) \<longrightarrow> Buffer_Get b' u v = Buffer_Get b u v))
       \<and> (\<exists>b'. Buffer_SetString b x y str s = Inr b'
                \<and> width b' = width b \<and> height b' = height b
                \<and> (\<forall>u v. v \<noteq> y \<longrightarrow> Buffer_Get b' u v = Buffer_Get b u v)
                \<and> (is_i64 x \<and> int (length str) < 9223372036854775808 \<longrightarrow>
                     (\<forall>jr\<in>set (range_runes 0 (bytes_of str)).
                         in_bounds b (x + fst jr) y
                         \<longrightarrow> Buffer_Get b' (x + fst jr) y = Inr (Cell (snd jr) s))
                   \<and> (\<forall>u. u - x \<notin> fst ` set (range_runes 0 (bytes_of str))
                         \<longrightarrow> Buffer_Get b' u y = Buffer_Get b u y)))
       \<and> (\<exists>b'. Buffer_Fill b rc ch s = Inr b'
                \<and> width b' = width b \<and> height b' = height b
                \<and> (\<forall>u v. Buffer_Get b' u v =
                      (if max 0 (X rc) \<le> u \<and> u < min (width b) (add64 (X rc) (Width rc))
                          \<and> max 0 (Y rc) \<le> v \<and> v < min (height b) (add64 (Y rc) (Height rc))
                       then Inr (Cell ch s) else Buffer_Get b u v)))"
proof -
  have inv: "buf_inv b" by (rule reachable_inv [OF assms])
  then have wf: "buf_wf b" by (simp add: buf_inv_def)
  have g1: "\<not> in_bounds b x y \<longrightarrow> Buffer_Get b x y = Inr (Cell 32 0)"
    by (simp add: Buffer_Get_eq [OF wf])
  have g2: "\<exists>c. Buffer_Get b x y = Inr c" by (simp add: Buffer_Get_eq [OF wf])
  have s1: "\<not> in_bounds b x y \<longrightarrow> Buffer_Set b x y r s = Inr b"
    by (auto simp: Buffer_Set_def in_bounds_def)
  from Buffer_Set_writes [OF inv, of x y r s]
  obtain b0 where b0: "Buffer_Set b x y r s = Inr b0"
    "cell_writes (if in_bounds b x y then [((x, y), Cell r s)] else []) b b0" by blast
  have s2a: "in_bounds b x y \<longrightarrow> Buffer_Get b0 x y = Inr (Cell r s)"
    using cell_writes_Get [OF b0(2) inv, of x y] by simp
  have s2b: "\<forall>u v. (u, v) \<noteq> (x, y) \<longrightarrow> Buffer_Get b0 u v = Buffer_Get b u v"
  proof (intro allI impI)
    fix u v assume "(u, v) \<noteq> (x, y)"
    then have "(u, v) \<notin> fst ` set (if in_bounds b x y then [((x, y), Cell r s)] else [])" by auto
    from cell_writes_Get_other [OF b0(2) inv this] show "Buffer_Get b0 u v = Buffer_Get b u v" .
  qed
  have s2: "\<exists>b'. Buffer_Set b x y r s = Inr b'
                \<and> width b' = width b \<and> height b' = height b
                \<and> (in_bounds b x y \<longrightarrow> Buffer_Get b' x y = Inr (Cell r s))
                \<and> (\<forall>u v. (u, v) \<noteq> (x, y) \<longrightarrow> Buffer_Get b' u v = Buffer_Get b u v)"
    using b0(1) cell_writes_inv [OF b0(2) inv] s2a s2b by blast
  from Buffer_SetString_writes [OF inv, of x y str s]
  obtain b1 where b1: "Buffer_SetString b x y str s = Inr b1"
    "cell_writes (if 0 \<le> y \<and> y < height b \<and> x < width b
                  then range_writes (width b) x y (range_runes 0 (bytes_of str)) s else []) b b1"
    by blast
  have t1: "\<forall>u v. v \<noteq> y \<longrightarrow> Buffer_Get b1 u v = Buffer_Get b u v"
  proof (intro allI impI)
    fix u v :: int assume ne: "v \<noteq> y"
    have "(u, v) \<notin> fst ` set (if 0 \<le> y \<and> y < height b \<and> x < width b
                  then range_writes (width b) x y (range_runes 0 (bytes_of str)) s else [])"
      using ne range_writes_row [of _ "width b" x y "range_runes 0 (bytes_of str)" s] by force
    from cell_writes_Get_other [OF b1(2) inv this] show "Buffer_Get b1 u v = Buffer_Get b u v" .
  qed
  have t2: "is_i64 x \<and> int (length str) < 9223372036854775808 \<longrightarrow>
                     (\<forall>jr\<in>set (range_runes 0 (bytes_of str)).
                         in_bounds b (x + fst jr) y
                         \<longrightarrow> Buffer_Get b1 (x + fst jr) y = Inr (Cell (snd jr) s))
                   \<and> (\<forall>u. u - x \<notin> fst ` set (range_runes 0 (bytes_of str))
                         \<longrightarrow> Buffer_Get b1 u y = Buffer_Get b u y)"
    using Buffer_SetString_written [OF inv _ _ b1(1)] by blast
  have t: "\<exists>b'. Buffer_SetString b x y str s = Inr b'
                \<and> width b' = width b \<and> height b' = height b
                \<and> (\<forall>u v. v \<noteq> y \<longrightarrow> Buffer_Get b' u v = Buffer_Get b u v)
                \<and> (is_i64 x \<and> int (length str) < 9223372036854775808 \<longrightarrow>
                     (\<forall>jr\<in>set (range_runes 0 (bytes_of str)).
                         in_bounds b (x + fst jr) y
                         \<longrightarrow> Buffer_Get b' (x + fst jr) y = Inr (Cell (snd jr) s))
                   \<and> (\<forall>u. u - x \<notin> fst ` set (range_runes 0 (bytes_of str))
                         \<longrightarrow> Buffer_Get b' u y = Buffer_Get b u y))"
    using b1(1) cell_writes_inv [OF b1(2) inv] t1 t2 by blast
  let ?x0 = "max 0 (X rc)" and ?x1 = "min (width b) (add64 (X rc) (Width rc))"
  let ?y0 = "max 0 (Y rc)" and ?y1 = "min (height b) (add64 (Y rc) (Height rc))"
  from Buffer_Fill_writes [OF inv, of rc ch s]
  obtain b2 where b2: "Buffer_Fill b rc ch s = Inr b2"
    "cell_writes (fill_writes ?x0 ?x1 ?y0 ?y1 (Cell ch s)) b b2" by blast
  have f1: "\<forall>u v. Buffer_Get b2 u v =
                      (if ?x0 \<le> u \<and> u < ?x1 \<and> ?y0 \<le> v \<and> v < ?y1
                       then Inr (Cell ch s) else Buffer_Get b u v)"
    using cell_writes_Get_const [OF b2(2) inv fill_writes_keys(2)]
    unfolding fill_writes_keys(1) by simp
  have f: "\<exists>b'. Buffer_Fill b rc ch s = Inr b'
                \<and> width b' = width b \<and> height b' = height b
                \<and> (\<forall>u v. Buffer_Get b' u v =
                      (if ?x0 \<le> u \<and> u < ?x1 \<and> ?y0 \<le> v \<and> v < ?y1
                       then Inr (Cell ch s) else Buffer_Get b u v))"
    using b2(1) cell_writes_inv [OF b2(2) inv] f1 by blast
  from g1 g2 s1 s2 t f show ?thesis by blast
qed

theorem out_of_bounds_totality_witness:
  "reachable buf2x2_X \<and> dims_fit (width buf2x2_X) (height buf2x2_X)
   \<and> Buffer_Get buf2x2_X 5 (- 1) = Inr (Cell 32 0)
   \<and> Buffer_Set buf2x2_X 5 (- 1) 65 0 = Inr buf2x2_X
   \<and> \<not> isl (Buffer_SetString buf2x2_X (- 1) 1 ''abcdef'' 0)
   \<and> Buffer_Get (projr (Buffer_SetString buf2x2_X (- 1) 1 ''abcdef'' 0)) 0 1 = Inr (Cell 98 0)
   \<and> Buffer_Get (projr (Buffer_SetString buf2x2_X (- 1) 1 ''abcdef'' 0)) 1 1 = Inr (Cell 99 0)
   \<and> Buffer_Get (projr (Buffer_SetString buf2x2_X (- 1) 1 ''abcdef'' 0)) 1 0 = Inr (Cell 88 0)
   \<and> \<not> isl (Buffer_Fill buf2x2_X (Rect (- 3) (- 3) 10 10) 32 0)
   \<and> Buffer_Get (projr (Buffer_Fill buf2x2_X (Rect (- 3) (- 3) 10 10) 32 0)) 1 0 = Inr (Cell 32 0)
   \<and> \<not> isl (Buffer_Fill buf2x2_X (Rect (- 9223372036854775808) 0 (- 1) 1) 65 0)
   \<and> Buffer_Get (projr (Buffer_Fill buf2x2_X (Rect (- 9223372036854775808) 0 (- 1) 1) 65 0)) 0 0
       = Inr (Cell 65 0)"
proof -
  have nb: "\<not> in_bounds buf2x2_X 5 (- 1)" by (simp add: in_bounds_def buf2x2_X_def)
  have f: "width buf2x2_X = 2" "height buf2x2_X = 2" by (simp_all add: buf2x2_X_def)
  have rr: "range_runes 0 (bytes_of ''abcdef'') = [(0, 97), (1, 98), (2, 99), (3, 100), (4, 101), (5, 102)]"
    by (simp add: bytes_of_def)
  have g: "Buffer_Get buf2x2_X 1 0 = Inr (Cell 88 0)"
    by (simp add: Buffer_Get_def buf2x2_X_def mul64_def add64_def i64_def)
  note t1 = out_of_bounds_totality [OF reachable_2x2_X dims_2x2_X, of 5 "- 1" 65 0 "''abcdef''" "Rect (- 3) (- 3) 10 10" 32]
  note t2 = out_of_bounds_totality [OF reachable_2x2_X dims_2x2_X, of "- 1" 1 65 0 "''abcdef''" "Rect (- 3) (- 3) 10 10" 32]
  from t1 nb have a: "Buffer_Get buf2x2_X 5 (- 1) = Inr (Cell 32 0)"
    "Buffer_Set buf2x2_X 5 (- 1) 65 0 = Inr buf2x2_X" by blast+
  from t2 obtain b1 where b1: "Buffer_SetString buf2x2_X (- 1) 1 ''abcdef'' 0 = Inr b1"
    "\<forall>u v. v \<noteq> 1 \<longrightarrow> Buffer_Get b1 u v = Buffer_Get buf2x2_X u v"
    "is_i64 (- 1) \<and> int (length ''abcdef'') < 9223372036854775808 \<longrightarrow>
       (\<forall>jr\<in>set (range_runes 0 (bytes_of ''abcdef'')).
           in_bounds buf2x2_X (- 1 + fst jr) 1
           \<longrightarrow> Buffer_Get b1 (- 1 + fst jr) 1 = Inr (Cell (snd jr) 0))
       \<and> (\<forall>u. u - (- 1) \<notin> fst ` set (range_runes 0 (bytes_of ''abcdef''))
           \<longrightarrow> Buffer_Get b1 u 1 = Buffer_Get buf2x2_X u 1)"
    by blast
  have w: "\<forall>jr\<in>set (range_runes 0 (bytes_of ''abcdef'')).
           in_bounds buf2x2_X (- 1 + fst jr) 1
           \<longrightarrow> Buffer_Get b1 (- 1 + fst jr) 1 = Inr (Cell (snd jr) 0)"
    using b1(3) by (simp add: is_i64_def)
  have c1: "Buffer_Get b1 0 1 = Inr (Cell 98 0)" "Buffer_Get b1 1 1 = Inr (Cell 99 0)"
    using w unfolding rr by (simp_all add: in_bounds_def f)
  have c2: "Buffer_Get b1 1 0 = Inr (Cell 88 0)" using b1(2) g by simp
  from t2 obtain b2 where b2: "Buffer_Fill buf2x2_X (Rect (- 3) (- 3) 10 10) 32 0 = Inr b2"
    "\<forall>u v. Buffer_Get b2 u v =
        (if max 0 (X (Rect (- 3) (- 3) 10 10)) \<le> u
            \<and> u < min (width buf2x2_X) (add64 (X (Rect (- 3) (- 3) 10 10)) (Width (Rect (- 3) (- 3) 10 10)))
            \<and> max 0 (Y (Rect (- 3) (- 3) 10 10)) \<le> v
            \<and> v < min (height buf2x2_X) (add64 (Y (Rect (- 3) (- 3) 10 10)) (Height (Rect (- 3) (- 3) 10 10)))
         then Inr (Cell 32 0) else Buffer_Get buf2x2_X u v)"
    by blast
  have c3: "Buffer_Get b2 1 0 = Inr (Cell 32 0)"
    using b2(2) by (simp add: f add64_def i64_def)
  note t3 = out_of_bounds_totality [OF reachable_2x2_X dims_2x2_X, of 0 0 65 0 "''abcdef''"
      "Rect (- 9223372036854775808) 0 (- 1) 1" 65]
  from t3 obtain b3 where b3: "Buffer_Fill buf2x2_X (Rect (- 9223372036854775808) 0 (- 1) 1) 65 0 = Inr b3"
    "\<forall>u v. Buffer_Get b3 u v =
        (if max 0 (X (Rect (- 9223372036854775808) 0 (- 1) 1)) \<le> u
            \<and> u < min (width buf2x2_X) (add64 (X (Rect (- 9223372036854775808) 0 (- 1) 1))
                                              (Width (Rect (- 9223372036854775808) 0 (- 1) 1)))
            \<and> max 0 (Y (Rect (- 9223372036854775808) 0 (- 1) 1)) \<le> v
            \<and> v < min (height buf2x2_X) (add64 (Y (Rect (- 9223372036854775808) 0 (- 1) 1))
                                               (Height (Rect (- 9223372036854775808) 0 (- 1) 1)))
         then Inr (Cell 65 0) else Buffer_Get buf2x2_X u v)"
    by blast
  have c4: "Buffer_Get b3 0 0 = Inr (Cell 65 0)"
    using b3(2) by (simp add: f add64_def i64_def)
  from a b1(1) c1 c2 b2(1) c3 b3(1) c4 reachable_2x2_X dims_2x2_X show ?thesis by simp
qed

text \<open>Claim C9 (dirty-tracking invariant), as stated, fails for a buffer whose area wraps
  around. \<open>NewBuffer(3, 6148914691236517206)\<close> computes the area \<open>2^64 + 2\<close>, which is \<open>2\<close> in
  64 bits; \<open>Set(1, 6148914691236517205, 'X')\<close> is inside the bounds, its index wraps to \<open>0\<close>,
  so the cell with index \<open>0\<close>, at \<open>(0, 0)\<close>, is stamped and \<open>IsCellDirty(0, 0)\<close> holds, while
  the bounding rectangle is the single cell \<open>(1, 6148914691236517205)\<close>.\<close>

theorem dirty_rect_wrapped_counterexample:
  "NewBuffer 3 6148914691236517206 = Inr buf_wrap2
   \<and> Buffer_Set buf_wrap2 1 6148914691236517205 88 0 = Inr buf_wrap2_X
   \<and> \<not> dirtyAll buf_wrap2_X
   \<and> stamped buf_wrap2_X = [0]
   \<and> col_of buf_wrap2_X 0 = 0 \<and> row_of buf_wrap2_X 0 = 0
   \<and> IsCellDirty buf_wrap2_X 0 0 = Inr True
   \<and> DirtyRect buf_wrap2_X = Rect 1 6148914691236517205 1 1
   \<and> \<not> rect_contains (DirtyRect buf_wrap2_X) 0 0"
  by (simp add: NewBuffer_wrap2 Set_wrap2_X)
     (simp add: stamped_def col_of_def row_of_def IsCellDirty_def DirtyRect_def rect_contains_def
        buf_wrap2_X_def mul64_def add64_def i64_def upt_rec [of 0] upt_rec [of 1] numeral_eq_Suc)

text \<open>Claim C9, amended. On every buffer reachable through \<open>NewBuffer\<close>, \<open>Set\<close>,
  \<open>SetString\<close>, \<open>Fill\<close>, \<open>MarkAllDirty\<close>, \<open>ClearDirty\<close> and \<open>Resize\<close> whose area
  \<open>width * height\<close> does not wrap around, whenever \<open>dirtyAll\<close> is false: \<open>dirtyCount\<close> is the
  number of indices whose stamp equals the current generation, every such cell lies inside
  \<open>dirtyRect\<close>, an enabled sparse list holds exactly those indices, \<open>IsDirty\<close>,
  \<open>DirtyCount\<close>, \<open>DirtyRect\<close> and \<open>IsCellDirty\<close> answer from that same set,
  \<open>ForEachDirtyCell\<close> succeeds and visits exactly the stamped cells, each with its
  coordinates and content, and \<open>ForEachDirtySpan\<close> succeeds and a cell lies in one of the
  reported spans exactly when it is stamped.\<close>

theorem dirty_tracking_invariant:
  assumes "reachable b" and "dims_fit (width b) (height b)" and "\<not> dirtyAll b"
  shows "dirtyCount b = int (length (stamped b))
       \<and> (\<forall>i\<in>set (stamped b). rect_contains (dirtyRect b) (col_of b i) (row_of b i))
       \<and> (dirtyListEnabled b \<longrightarrow>
            distinct (dirtyIndices b) \<and> set (dirtyIndices b) = set (map int (stamped b)))
       \<and> IsDirty b = (stamped b \<noteq> [])
       \<and> DirtyCount b = int (length (stamped b))
       \<and> DirtyRect b = dirtyRect b
       \<and> IsCellDirty b x y = Inr (in_bounds b x y \<and> nat (y * width b + x) \<in> set (stamped b))
       \<and> (\<exists>vs. ForEachDirtyCell b = Inr vs
               \<and> set vs = (\<lambda>i. (col_of b i, row_of b i, cells b ! i)) ` set (stamped b))
       \<and> (\<exists>spans. ForEachDirtySpan b = Inr spans
               \<and> (\<forall>u v. (\<exists>(v', s, e)\<in>set spans. v' = v \<and> s \<le> u \<and> u < e)
                      \<longleftrightarrow> in_bounds b u v \<and> nat (v * width b + u) \<in> set (stamped b)))"
proof -
  have inv: "buf_inv b" by (rule reachable_inv [OF assms(1,2)])
  then have wf: "buf_wf b" and ag: "dirty_agree b" using assms(3) by (simp_all add: buf_inv_def)
  have c: "dirtyCount b = int (length (stamped b))" using ag by (simp add: dirty_agree_def)
  have cd: "IsCellDirty b x y = Inr (in_bounds b x y \<and> nat (y * width b + x) \<in> set (stamped b))"
  proof (cases "in_bounds b x y")
    case False
    then show ?thesis by (auto simp: IsCellDirty_def in_bounds_def)
  next
    case True
    have r: "0 \<le> y * width b + x" "nat (y * width b + x) < length (dirtyStamp b)"
      using idx_in_range [OF wf True] idx_nat_range [OF wf True] by simp_all
    then have "\<not> (y * width b + x < 0 \<or> y * width b + x \<ge> int (length (dirtyStamp b)))" by linarith
    then show ?thesis using True assms(3) r(2)
      by (simp add: IsCellDirty_def in_bounds_def Let_def set_stamped idx64 [OF wf True])
  qed
  from ForEachDirtyCell_spec [OF inv] assms(3)
  obtain vs where vs: "ForEachDirtyCell b = Inr vs"
    "set vs = {(x, y, c). in_bounds b x y \<and> dirtyStamp b ! nat (y * width b + x) = dirtyGen b
                    \<and> c = cells b ! nat (y * width b + x)}" by auto
  have "set vs = (\<lambda>i. (col_of b i, row_of b i, cells b ! i)) ` set (stamped b)"
  proof (intro set_eqI iffI)
    fix t assume t: "t \<in> set vs"
    obtain u v d where tt: "t = (u, v, d)" by (cases t)
    from t have p: "in_bounds b u v" "dirtyStamp b ! nat (v * width b + u) = dirtyGen b"
      "d = cells b ! nat (v * width b + u)" unfolding vs(2) tt by simp_all
    have "nat (v * width b + u) \<in> set (stamped b)" using p(2) stamped_iff [OF wf p(1)] by simp
    then have "(col_of b (nat (v * width b + u)), row_of b (nat (v * width b + u)),
                cells b ! nat (v * width b + u)) \<in> (\<lambda>i. (col_of b i, row_of b i, cells b ! i)) ` set (stamped b)"
      by (rule imageI)
    then show "t \<in> (\<lambda>i. (col_of b i, row_of b i, cells b ! i)) ` set (stamped b)"
      unfolding tt using col_row_of_idx [OF p(1)] p(3) by simp
  next
    fix t assume "t \<in> (\<lambda>i. (col_of b i, row_of b i, cells b ! i)) ` set (stamped b)"
    then obtain i where i: "i \<in> set (stamped b)" "t = (col_of b i, row_of b i, cells b ! i)" by auto
    note sc = stamped_coords [OF inv assms(3) i(1)]
    have n: "nat (row_of b i * width b + col_of b i) = i" using sc(2) by simp
    have "dirtyStamp b ! i = dirtyGen b" using i(1) by (simp add: set_stamped)
    then show "t \<in> set vs" unfolding vs(2) i(2) using sc(1) n by simp
  qed
  then have fc: "\<exists>vs. ForEachDirtyCell b = Inr vs
               \<and> set vs = (\<lambda>i. (col_of b i, row_of b i, cells b ! i)) ` set (stamped b)"
    using vs(1) by blast
  from ForEachDirtySpan_spec [OF inv] assms(3)
  obtain spans where sp: "ForEachDirtySpan b = Inr spans"
    "\<forall>x y. (\<exists>(y', s, e)\<in>set spans. y' = y \<and> s \<le> x \<and> x < e)
              \<longleftrightarrow> in_bounds b x y \<and> dirtyStamp b ! nat (y * width b + x) = dirtyGen b" by auto
  have "\<forall>u v. (\<exists>(v', s, e)\<in>set spans. v' = v \<and> s \<le> u \<and> u < e)
                      \<longleftrightarrow> in_bounds b u v \<and> nat (v * width b + u) \<in> set (stamped b)"
    using sp(2) stamped_iff [OF wf] by blast
  then have fs: "\<exists>spans. ForEachDirtySpan b = Inr spans
               \<and> (\<forall>u v. (\<exists>(v', s, e)\<in>set spans. v' = v \<and> s \<le> u \<and> u < e)
                      \<longleftrightarrow> in_bounds b u v \<and> nat (v * width b + u) \<in> set (stamped b))"
    using sp(1) by blast
  have base: "dirtyCount b = int (length (stamped b))
       \<and> (\<forall>i\<in>set (stamped b). rect_contains (dirtyRect b) (col_of b i) (row_of b i))
       \<and> (dirtyListEnabled b \<longrightarrow>
            distinct (dirtyIndices b) \<and> set (dirtyIndices b) = set (map int (stamped b)))
       \<and> IsDirty b = (stamped b \<noteq> [])
       \<and> DirtyCount b = int (length (stamped b))
       \<and> DirtyRect b = dirtyRect b"
    using ag c assms(3) by (simp add: dirty_agree_def IsDirty_def DirtyCount_def DirtyRect_def)
  from base cd fc fs show ?thesis by blast
qed

theorem dirty_tracking_invariant_witness:
  "reachable buf2x2_X \<and> dims_fit (width buf2x2_X) (height buf2x2_X) \<and> \<not> dirtyAll buf2x2_X
   \<and> dirtyCount buf2x2_X = 1 \<and> stamped buf2x2_X = [1]
   \<and> rect_contains (dirtyRect buf2x2_X) (col_of buf2x2_X 1) (row_of buf2x2_X 1)
   \<and> set (dirtyIndices buf2x2_X) = {1}
   \<and> IsDirty buf2x2_X
   \<and> IsCellDirty buf2x2_X 1 0 = Inr True
   \<and> \<not> isl (ForEachDirtyCell buf2x2_X)
   \<and> set (projr (ForEachDirtyCell buf2x2_X)) = {(1, 0, Cell 88 0)}
   \<and> \<not> isl (ForEachDirtySpan buf2x2_X)"
proof -
  have nd: "\<not> dirtyAll buf2x2_X" by (simp add: buf2x2_X_def)
  note t = dirty_tracking_invariant [OF reachable_2x2_X dims_2x2_X nd, of 1 0]
  from t obtain vs where vs: "ForEachDirtyCell buf2x2_X = Inr vs"
    "set vs = (\<lambda>i. (col_of buf2x2_X i, row_of buf2x2_X i, cells buf2x2_X ! i)) ` set (stamped buf2x2_X)"
    by blast
  from t obtain spans where sp: "ForEachDirtySpan buf2x2_X = Inr spans" by blast
  have v: "set vs = {(1, 0, Cell 88 0)}"
    unfolding vs(2) stamped_2x2_X by (simp add: col_of_def row_of_def buf2x2_X_def)
  from t have base: "dirtyCount buf2x2_X = 1
     \<and> rect_contains (dirtyRect buf2x2_X) (col_of buf2x2_X 1) (row_of buf2x2_X 1)
     \<and> set (dirtyIndices buf2x2_X) = {1}
     \<and> IsDirty buf2x2_X
     \<and> IsCellDirty buf2x2_X 1 0 = Inr True"
    using stamped_2x2_X by (simp add: buf2x2_X_def in_bounds_def)
  from base vs(1) v sp reachable_2x2_X dims_2x2_X nd stamped_2x2_X show ?thesis by simp
qed

text \<open>Claim C4 (resize), as stated, fails: a call of \<open>Resize\<close> with the current
  dimensions returns at once and marks nothing. A fresh 2 by 2 buffer resized to 2 by 2
  is unchanged and not dirty.\<close>

theorem resize_same_dims_counterexample:
  "NewBuffer 2 2 = Inr buf2x2 \<and> Buffer_Resize buf2x2 2 2 = Inr buf2x2 \<and> \<not> IsDirty buf2x2"
  by (simp add: NewBuffer_2x2 Buffer_Resize_def IsDirty_def) (simp add: buf2x2_def)

text \<open>Claim C4, amended. For a reachable buffer whose area does not wrap around and for
  target dimensions that are Go integers with a product from \<open>0\<close> up to \<open>2^63 - 1\<close>,
  \<open>Resize\<close> succeeds and every cell in the overlap of the old and the new dimensions keeps
  its content; when the dimensions differ from the current ones the buffer is fully dirty
  (\<open>IsDirty\<close> holds and \<open>DirtyRect\<close> is the whole new buffer), and when they are equal
  the buffer is returned unchanged.\<close>

theorem resize_preserves_overlap:
  assumes "reachable b" and "dims_fit (width b) (height b)" and "dims_fit w h"
  shows "\<exists>b'. Buffer_Resize b w h = Inr b'
          \<and> (\<forall>x y. 0 \<le> x \<and> x < min w (width b) \<and> 0 \<le> y \<and> y < min h (height b)
                \<longrightarrow> Buffer_Get b' x y = Buffer_Get b x y)
          \<and> (\<not> (w = width b \<and> h = height b)
                \<longrightarrow> width b' = w \<and> height b' = h \<and> IsDirty b' \<and> DirtyRect b' = Rect 0 0 w h)
          \<and> (w = width b \<and> h = height b \<longrightarrow> b' = b)"
proof (cases "w = width b \<and> h = height b")
  case True
  then show ?thesis by (simp add: Buffer_Resize_def)
next
  case False
  from reachable_inv [OF assms(1,2)] have wf: "buf_wf b" by (simp add: buf_inv_def)
  from Buffer_Resize_ok [OF wf assms(3) False]
  obtain b' where b': "Buffer_Resize b w h = Inr b'"
    "\<forall>x y. 0 \<le> x \<and> x < min w (width b) \<and> 0 \<le> y \<and> y < min h (height b)
                \<longrightarrow> cells b' ! nat (y * w + x) = cells b ! nat (y * width b + x)"
    by blast
  note fl = Buffer_Resize_fields [OF b'(1) False]
  have "buf_inv b'" by (rule Buffer_Resize_inv [OF b'(1) False assms(3)])
  then have wf': "buf_wf b'" by (simp add: buf_inv_def)
  have g: "Buffer_Get b' x y = Buffer_Get b x y"
    if "0 \<le> x \<and> x < min w (width b) \<and> 0 \<le> y \<and> y < min h (height b)" for x y
  proof -
    have "in_bounds b x y" "in_bounds b' x y" using that fl(1,2) by (simp_all add: in_bounds_def)
    then show ?thesis using b'(2) that fl(1)
      by (simp add: Buffer_Get_eq [OF wf] Buffer_Get_eq [OF wf'])
  qed
  have d: "IsDirty b' \<and> DirtyRect b' = Rect 0 0 w h"
    using fl(1,2,6) by (simp add: IsDirty_def DirtyRect_def)
  show ?thesis using b'(1) fl(1,2) g d False by blast
qed

theorem resize_preserves_overlap_witness:
  "reachable buf2x2_X \<and> dims_fit (width buf2x2_X) (height buf2x2_X) \<and> dims_fit 3 1
   \<and> \<not> isl (Buffer_Resize buf2x2_X 3 1)
   \<and> Buffer_Get (projr (Buffer_Resize buf2x2_X 3 1)) 1 0 = Inr (Cell 88 0)
   \<and> IsDirty (projr (Buffer_Resize buf2x2_X 3 1))
   \<and> DirtyRect (projr (Buffer_Resize buf2x2_X 3 1)) = Rect 0 0 3 1"
proof -
  have g: "Buffer_Get buf2x2_X 1 0 = Inr (Cell 88 0)"
    by (simp add: Buffer_Get_def buf2x2_X_def mul64_def add64_def i64_def)
  have f: "width buf2x2_X = 2" "height buf2x2_X = 2" by (simp_all add: buf2x2_X_def)
  have d31: "dims_fit 3 1" by (simp add: dims_fit_def is_i64_def)
  from resize_preserves_overlap [OF reachable_2x2_X dims_2x2_X d31]
  obtain b' where b': "Buffer_Resize buf2x2_X 3 1 = Inr b'"
    "\<forall>x y. 0 \<le> x \<and> x < min 3 (width buf2x2_X) \<and> 0 \<le> y \<and> y < min 1 (height buf2x2_X)
                \<longrightarrow> Buffer_Get b' x y = Buffer_Get buf2x2_X x y"
    "\<not> (3 = width buf2x2_X \<and> 1 = height buf2x2_X)
                \<longrightarrow> width b' = 3 \<and> height b' = 1 \<and> IsDirty b' \<and> DirtyRect b' = Rect 0 0 3 1"
    by auto
  have "Buffer_Get b' 1 0 = Buffer_Get buf2x2_X 1 0" using b'(2) f by simp
  then show ?thesis using b'(1,3) f g reachable_2x2_X dims_2x2_X d31 by simp
qed

text \<open>Claim C6 (sparse-list threshold), as stated, fails: the threshold is also capped by
  the area itself, so a 10 by 10 buffer has the threshold 100, below 256.\<close>

theorem threshold_floor_counterexample:
  "(0::int) < 10 * 10 \<and> calcDirtyListCap (10 * 10) = 100 \<and> calcDirtyListCap (10 * 10) < 256"
  by (simp add: calcDirtyListCap_def)

text \<open>On a buffer whose area wraps around a write can fail: the buffer of \<open>2^32\<close> by \<open>2^32\<close>
  has no cell, and after \<open>MarkAllDirty\<close>, which disables the sparse list, \<open>Set(0, 0)\<close>
  indexes outside the cell array. The statements about reachable buffers below therefore
  assume an area that does not wrap around.\<close>

lemma Set_wrapped_area_fails:
  "reachable (MarkAllDirty buf_wrap0)
   \<and> \<not> dirtyListEnabled (MarkAllDirty buf_wrap0)
   \<and> Buffer_Set (MarkAllDirty buf_wrap0) 0 0 88 0 = Inl IndexOutOfRange"
proof -
  have "reachable (MarkAllDirty buf_wrap0)"
    by (rule r_markAll [OF r_new [OF NewBuffer_wrap0]])
  then show ?thesis
    by (simp add: MarkAllDirty_def Buffer_Set_def put_cell_def buf_wrap0_def mul64_def add64_def i64_def)
qed

text \<open>Claim C6, amended. For an area \<open>A > 0\<close> the threshold is
  \<open>min A (max 256 (min 8192 (A div 4)))\<close>: never above 8192, and at least 256 once the area
  is at least 256. A reachable buffer whose area does not wrap around carries the
  threshold of its own area. When marking a cell takes the dirty count above the
  threshold, the sparse list is emptied and disabled; while it is disabled no write
  (\<open>Set\<close>, \<open>SetString\<close>, \<open>Fill\<close>) appends to it; \<open>ClearDirty\<close> enables it again, empty.\<close>

theorem sparse_list_threshold:
  assumes "reachable b" and "dims_fit (width b) (height b)"
  shows "(0 < A \<longrightarrow> calcDirtyListCap A = min A (max 256 (min 8192 (A div 4)))
                   \<and> calcDirtyListCap A \<le> 8192
                   \<and> (256 \<le> A \<longrightarrow> 256 \<le> calcDirtyListCap A))
       \<and> dirtyListCap b = calcDirtyListCap (width b * height b)
       \<and> (\<not> dirtyAll b \<and> in_bounds b x y \<and> dirtyStamp b ! nat (y * width b + x) \<noteq> dirtyGen b
            \<and> dirtyListEnabled b \<and> dirtyListCap b < dirtyCount b + 1
           \<longrightarrow> (\<exists>b'. markCellDirty b x y (y * width b + x) = Inr b'
                      \<and> \<not> dirtyListEnabled b' \<and> dirtyIndices b' = []))
       \<and> (\<not> dirtyListEnabled b
           \<longrightarrow> (\<exists>b'. Buffer_Set b x y r s = Inr b'
                      \<and> \<not> dirtyListEnabled b' \<and> dirtyIndices b' = dirtyIndices b)
             \<and> (\<exists>b'. Buffer_SetString b x y str s = Inr b'
                      \<and> \<not> dirtyListEnabled b' \<and> dirtyIndices b' = dirtyIndices b)
             \<and> (\<exists>b'. Buffer_Fill b rc ch s = Inr b'
                      \<and> \<not> dirtyListEnabled b' \<and> dirtyIndices b' = dirtyIndices b))
       \<and> dirtyListEnabled (ClearDirty b) \<and> dirtyIndices (ClearDirty b) = []"
proof -
  have inv: "buf_inv b" by (rule reachable_inv [OF assms])
  then have wf: "buf_wf b" by (simp add: buf_inv_def)
  have p1: "0 < A \<longrightarrow> calcDirtyListCap A = min A (max 256 (min 8192 (A div 4)))
                   \<and> calcDirtyListCap A \<le> 8192
                   \<and> (256 \<le> A \<longrightarrow> 256 \<le> calcDirtyListCap A)"
    by (auto simp: calcDirtyListCap_eq)
  have p2: "dirtyListCap b = calcDirtyListCap (width b * height b)"
    using reachable_cap [OF assms(1)] dims_fit_mul64 [OF assms(2)] by simp
  have p3: "\<not> dirtyAll b \<and> in_bounds b x y \<and> dirtyStamp b ! nat (y * width b + x) \<noteq> dirtyGen b
            \<and> dirtyListEnabled b \<and> dirtyListCap b < dirtyCount b + 1
           \<longrightarrow> (\<exists>b'. markCellDirty b x y (y * width b + x) = Inr b'
                      \<and> \<not> dirtyListEnabled b' \<and> dirtyIndices b' = [])"
  proof
    assume a: "\<not> dirtyAll b \<and> in_bounds b x y \<and> dirtyStamp b ! nat (y * width b + x) \<noteq> dirtyGen b
            \<and> dirtyListEnabled b \<and> dirtyListCap b < dirtyCount b + 1"
    then have ib: "in_bounds b x y" and nd: "\<not> dirtyAll b" by simp_all
    have r: "0 \<le> y * width b + x" "nat (y * width b + x) < length (dirtyStamp b)"
      using idx_in_range [OF wf ib] idx_nat_range [OF wf ib] by simp_all
    then have "\<not> (y * width b + x < 0 \<or> y * width b + x \<ge> int (length (dirtyStamp b)))" by linarith
    then have m: "markCellDirty b x y (y * width b + x) = Inr (mark_new b x y (y * width b + x))"
      using a by (simp add: markCellDirty_cases)
    have cnt: "dirtyCount b = int (length (stamped b))"
      using inv nd by (simp add: buf_inv_def dirty_agree_def)
    have inc: "add64 (dirtyCount b) 1 = dirtyCount b + 1"
      using dirtyCount_inc [OF wf cnt r(2)] a by simp
    show "\<exists>b'. markCellDirty b x y (y * width b + x) = Inr b'
                      \<and> \<not> dirtyListEnabled b' \<and> dirtyIndices b' = []"
      unfolding m using a by (simp add: mark_new_list inc)
  qed
  have p4: "\<not> dirtyListEnabled b
           \<longrightarrow> (\<exists>b'. Buffer_Set b x y r s = Inr b'
                      \<and> \<not> dirtyListEnabled b' \<and> dirtyIndices b' = dirtyIndices b)
             \<and> (\<exists>b'. Buffer_SetString b x y str s = Inr b'
                      \<and> \<not> dirtyListEnabled b' \<and> dirtyIndices b' = dirtyIndices b)
             \<and> (\<exists>b'. Buffer_Fill b rc ch s = Inr b'
                      \<and> \<not> dirtyListEnabled b' \<and> dirtyIndices b' = dirtyIndices b)"
    using Buffer_Set_writes [OF inv, of x y r s] Buffer_SetString_writes [OF inv, of x y str s]
      Buffer_Fill_writes [OF inv, of rc ch s] cell_writes_disabled
    by blast
  have p5: "dirtyListEnabled (ClearDirty b) \<and> dirtyIndices (ClearDirty b) = []"
    by (simp add: ClearDirty_def advanceDirtyGen_def Let_def)
  from p1 p2 p3 p4 p5 show ?thesis by blast
qed

theorem sparse_list_threshold_witness:
  "reachable buf2x2_X \<and> dims_fit (width buf2x2_X) (height buf2x2_X)
   \<and> calcDirtyListCap 100000 = 8192 \<and> calcDirtyListCap 2000 = 500 \<and> calcDirtyListCap 600 = 256
   \<and> dirtyListCap buf2x2_X = calcDirtyListCap (2 * 2)
   \<and> dirtyListEnabled (ClearDirty buf2x2_X)"
proof -
  have f: "width buf2x2_X = 2" "height buf2x2_X = 2" by (simp_all add: buf2x2_X_def)
  from sparse_list_threshold [OF reachable_2x2_X dims_2x2_X, of 100000]
    sparse_list_threshold [OF reachable_2x2_X dims_2x2_X, of 2000]
    sparse_list_threshold [OF reachable_2x2_X dims_2x2_X, of 600] f reachable_2x2_X dims_2x2_X
  show ?thesis by simp
qed

subsection \<open>The render flush\<close>

lemma fold_upd_apply:
  "fold (\<lambda>p bk'. bk'(p := f p)) ps bk q = (if q \<in> set ps then f q else bk q)"
  by (induction ps arbitrary: bk) auto

lemma set_all_positions: "set (all_positions b) = {(x, y). in_bounds b x y}"
  by (auto simp: all_positions_def in_bounds_def)

lemma naive_redraw_apply:
  "naive_redraw b bk (x, y) = (if in_bounds b x y then cells b ! nat (y * width b + x) else bk (x, y))"
  by (simp add: naive_redraw_def fold_upd_apply set_all_positions)

lemma SetRow_apply:
  "SetRow bk y x cs (u, v) =
     (if v = y \<and> x \<le> u \<and> u < x + int (length cs) then cs ! nat (u - x) else bk (u, v))"
proof (induction cs arbitrary: bk x u v)
  case Nil
  then show ?case by auto
next
  case (Cons c cs)
  show ?case
  proof (cases "v = y \<and> u = x")
    case True
    then show ?thesis by (simp add: Cons.IH)
  next
    case False
    have "nat (u - x) = Suc (nat (u - (x + 1)))" if "x + 1 \<le> u" using that by linarith
    then show ?thesis using False by (auto simp: Cons.IH)
  qed
qed

lemma content_row_SetRow: "content_row bk y x cs = SetRow bk y x cs"
  by (induction cs arbitrary: bk x) (simp_all add: SetContent_def)

lemma write_cells_apply:
  assumes "\<forall>(x, y, c)\<in>set vs. c = f (x, y)"
  shows "write_cells bk vs q = (if q \<in> (\<lambda>(x, y, c). (x, y)) ` set vs then f q else bk q)"
  using assms
proof (induction vs arbitrary: bk)
  case Nil
  then show ?case by simp
next
  case (Cons v vs)
  obtain x y c where v: "v = (x, y, c)" by (cases v)
  have c: "c = f (x, y)" and r: "\<forall>(x, y, c)\<in>set vs. c = f (x, y)" using Cons.prems v by auto
  show ?case using Cons.IH [OF r] c by (auto simp: v SetContent_def)
qed

lemma slice_Inr:
  assumes "0 \<le> lo" "lo \<le> hi" "hi \<le> int (length cs)"
  shows "\<exists>run. slice cs lo hi = Inr run \<and> length run = nat (hi - lo)
               \<and> (\<forall>k<nat (hi - lo). run ! k = cs ! (nat lo + k))"
proof -
  have "slice cs lo hi = Inr (take (nat (hi - lo)) (drop (nat lo) cs))"
    using assms by (simp add: slice_def slice_ok_def)
  moreover have "length (take (nat (hi - lo)) (drop (nat lo) cs)) = nat (hi - lo)"
    using assms by simp
  moreover have "\<forall>k<nat (hi - lo). take (nat (hi - lo)) (drop (nat lo) cs) ! k = cs ! (nat lo + k)"
    using assms by simp
  ultimately show ?thesis by blast
qed

lemma SetRect_rows_apply:
  assumes "w * h \<le> length cs"
  shows "SetRect_rows bk x y w h cs (u, v) =
     (if y \<le> v \<and> v < y + int h \<and> x \<le> u \<and> u < x + int w
      then cs ! (nat (v - y) * w + nat (u - x)) else bk (u, v))"
  using assms
proof (induction h arbitrary: bk y cs)
  case 0
  then show ?case by auto
next
  case (Suc h)
  have len: "w \<le> length cs" "w * h \<le> length (drop w cs)" using Suc.prems by simp_all
  note ih = Suc.IH [OF len(2), of "SetRow bk y x (take w cs)" "y + 1"]
  show ?case
  proof (cases "y + 1 \<le> v \<and> v < y + 1 + int h \<and> x \<le> u \<and> u < x + int w")
    case True
    then have n: "nat (v - y) = Suc (nat (v - (y + 1)))" by linarith
    have "nat (v - (y + 1)) * w + nat (u - x) < w * h"
    proof -
      have a: "nat (u - x) < w" using True by linarith
      have b: "Suc (nat (v - (y + 1))) \<le> h" using True by linarith
      have "nat (v - (y + 1)) * w + nat (u - x) < nat (v - (y + 1)) * w + w" using a by simp
      also have "\<dots> = Suc (nat (v - (y + 1))) * w" by simp
      also have "\<dots> \<le> h * w" using b by (rule mult_le_mono1)
      finally show ?thesis by (simp add: mult.commute)
    qed
    then have "w + (nat (v - (y + 1)) * w + nat (u - x)) \<le> length cs" using Suc.prems by simp
    then have "drop w cs ! (nat (v - (y + 1)) * w + nat (u - x))
               = cs ! (w + (nat (v - (y + 1)) * w + nat (u - x)))" by simp
    then show ?thesis using True ih by (simp add: n add.assoc)
  next
    case False
    have lt: "min (length cs) w = w" using len(1) by simp
    show ?thesis
    proof (cases "v = y \<and> x \<le> u \<and> u < x + int w")
      case True
      then have "nat (u - x) < w" by linarith
      then show ?thesis using True False ih by (simp add: SetRow_apply lt)
    next
      case F2: False
      then show ?thesis using False ih by (auto simp: SetRow_apply lt)
    qed
  qed
qed

lemma full_rows_apply:
  assumes "0 \<le> w" "\<forall>y\<in>set ys. 0 \<le> y \<and> (y + 1) * w \<le> int (length cs)"
    and "int (length cs) < 9223372036854775808"
  shows "\<exists>bk'. full_rows bk cs w ys = Inr bk'
          \<and> (\<forall>u v. bk' (u, v) = (if v \<in> set ys \<and> 0 \<le> u \<and> u < w then cs ! nat (v * w + u) else bk (u, v)))"
  using assms(2)
proof (induction ys arbitrary: bk)
  case Nil
  then show ?case by simp
next
  case (Cons y ys)
  then have y: "0 \<le> y" "(y + 1) * w \<le> int (length cs)" by simp_all
  have yw: "0 \<le> y * w" using y(1) assms(1) by simp
  have hi: "y * w + w \<le> int (length cs)" using y(2) by (simp add: algebra_simps)
  have m: "mul64 y w = y * w" using yw hi assms(1,3) by (intro mul64_id) (simp add: is_i64_def)
  have a: "add64 (y * w) w = y * w + w" using yw hi assms(1,3) by (intro add64_id) (simp add: is_i64_def)
  from slice_Inr [OF yw _ hi] assms(1)
  obtain row where row: "slice cs (y * w) (y * w + w) = Inr row" "length row = nat w"
    "\<forall>k<nat w. row ! k = cs ! (nat (y * w) + k)" by auto
  from Cons.IH [of "SetRow bk y 0 row"] Cons.prems
  obtain bk' where bk': "full_rows (SetRow bk y 0 row) cs w ys = Inr bk'"
    "\<forall>u v. bk' (u, v) = (if v \<in> set ys \<and> 0 \<le> u \<and> u < w then cs ! nat (v * w + u)
                          else SetRow bk y 0 row (u, v))" by auto
  have "bk' (u, v) = (if v \<in> set (y # ys) \<and> 0 \<le> u \<and> u < w then cs ! nat (v * w + u) else bk (u, v))"
    for u v
  proof (cases "v \<in> set ys \<and> 0 \<le> u \<and> u < w")
    case True
    then show ?thesis using bk'(2) by simp
  next
    case False
    show ?thesis
    proof (cases "v = y \<and> 0 \<le> u \<and> u < w")
      case True
      then have "nat u < nat w" by linarith
      moreover have "nat (y * w) + nat u = nat (y * w + u)" using yw True by linarith
      ultimately show ?thesis using True False bk'(2) row(2,3) by (simp add: SetRow_apply)
    next
      case F2: False
      then show ?thesis using False bk'(2) row(2) assms(1) by (auto simp: SetRow_apply)
    qed
  qed
  then show ?case using row(1) bk'(1) by (simp add: m a)
qed

lemma full_cells_rows: "full_cells bk cs w ys = full_rows bk cs w ys"
  by (induction ys arbitrary: bk) (simp_all add: content_row_SetRow split: sum.splits)

lemma write_spans_apply:
  assumes "\<forall>(y, s, e)\<in>set spans. 0 \<le> y * w \<and> 0 \<le> s \<and> s \<le> e \<and> y * w + e \<le> int (length cs)"
    and "int (length cs) < 9223372036854775808"
  shows "\<exists>bk'. write_spans bk cs w spans = Inr bk'
          \<and> (\<forall>u v. bk' (u, v) = (if \<exists>(y, s, e)\<in>set spans. v = y \<and> s \<le> u \<and> u < e
                                 then cs ! nat (v * w + u) else bk (u, v)))"
  using assms(1)
proof (induction spans arbitrary: bk)
  case Nil
  then show ?case by simp
next
  case (Cons sp spans)
  obtain y s e where sp: "sp = (y, s, e)" by (cases sp)
  from Cons.prems sp have v: "0 \<le> y * w" "0 \<le> s" "s \<le> e" "y * w + e \<le> int (length cs)"
    and rest: "\<forall>(y, s, e)\<in>set spans. 0 \<le> y * w \<and> 0 \<le> s \<and> s \<le> e \<and> y * w + e \<le> int (length cs)"
    by auto
  have lo: "0 \<le> y * w + s" using v by simp
  have m: "mul64 y w = y * w" using v assms(2) by (intro mul64_id) (simp add: is_i64_def)
  have a1: "add64 (y * w) s = y * w + s" using v assms(2) by (intro add64_id) (simp add: is_i64_def)
  have a2: "add64 (y * w) e = y * w + e" using v assms(2) by (intro add64_id) (simp add: is_i64_def)
  from slice_Inr [OF lo _ v(4)] v(3)
  obtain run where run: "slice cs (y * w + s) (y * w + e) = Inr run" "length run = nat (e - s)"
    "\<forall>k<nat (e - s). run ! k = cs ! (nat (y * w + s) + k)" by auto
  from Cons.IH [OF rest, of "SetRow bk y s run"]
  obtain bk' where bk': "write_spans (SetRow bk y s run) cs w spans = Inr bk'"
    "\<forall>u v. bk' (u, v) = (if \<exists>(y, s, e)\<in>set spans. v = y \<and> s \<le> u \<and> u < e
                                 then cs ! nat (v * w + u) else SetRow bk y s run (u, v))" by auto
  have "bk' (u, v) = (if \<exists>(y, s, e)\<in>set (sp # spans). v = y \<and> s \<le> u \<and> u < e
                                 then cs ! nat (v * w + u) else bk (u, v))" for u v
  proof (cases "\<exists>(y, s, e)\<in>set spans. v = y \<and> s \<le> u \<and> u < e")
    case True
    then show ?thesis using bk'(2) by auto
  next
    case False
    show ?thesis
    proof (cases "v = y \<and> s \<le> u \<and> u < e")
      case True
      then have "nat (u - s) < nat (e - s)" by linarith
      moreover have "nat (y * w + s) + nat (u - s) = nat (y * w + u)" using lo True by linarith
      moreover have "u < s + int (length run)" using True run(2) by linarith
      ultimately show ?thesis using True False bk'(2) run(3) sp by (simp add: SetRow_apply)
    next
      case F2: False
      have "\<not> (v = y \<and> s \<le> u \<and> u < s + int (length run))" using F2 run(2) v(3) by auto
      then show ?thesis using F2 False bk'(2) sp by (auto simp: SetRow_apply)
    qed
  qed
  then show ?case using run(1) bk'(1) sp by (simp add: m a1 a2)
qed

lemma IsCellDirty_eq:
  assumes "buf_wf b"
  shows "IsCellDirty b x y =
           Inr (in_bounds b x y \<and> (dirtyAll b \<or> dirtyStamp b ! nat (y * width b + x) = dirtyGen b))"
proof (cases "in_bounds b x y")
  case False
  then show ?thesis by (auto simp: IsCellDirty_def in_bounds_def)
next
  case True
  have r: "0 \<le> y * width b + x" "nat (y * width b + x) < length (dirtyStamp b)"
    using idx_in_range [OF assms True] idx_nat_range [OF assms True] by simp_all
  then have "\<not> (y * width b + x < 0 \<or> y * width b + x \<ge> int (length (dirtyStamp b)))" by linarith
  then show ?thesis using True
    by (simp add: IsCellDirty_def in_bounds_def Let_def idx64 [OF assms True])
qed

lemma synced_clean:
  assumes wf: "buf_wf b" and sync: "clean_cells_synced b bk" and ib: "in_bounds b x y"
    and nd: "\<not> dirtyAll b" "dirtyStamp b ! nat (y * width b + x) \<noteq> dirtyGen b"
  shows "bk (x, y) = cells b ! nat (y * width b + x)"
  using sync ib nd by (simp add: clean_cells_synced_def IsCellDirty_eq [OF wf] Buffer_Get_eq [OF wf])

text \<open>A strategy that stores the buffer's cell at every position of a set \<open>S\<close> of in-bounds
  positions that includes the dirty ones ends where the naive redraw ends.\<close>

lemma flush_close:
  assumes wf: "buf_wf b" and sync: "clean_cells_synced b bk"
    and w: "\<forall>u v. bk' (u, v) = (if S u v then cells b ! nat (v * width b + u) else bk (u, v))"
    and s1: "\<forall>u v. S u v \<longrightarrow> in_bounds b u v"
    and s2: "\<forall>u v. in_bounds b u v \<and> (dirtyAll b \<or> dirtyStamp b ! nat (v * width b + u) = dirtyGen b)
                   \<longrightarrow> S u v"
  shows "bk' = naive_redraw b bk"
proof (rule ext)
  fix p :: "int \<times> int"
  obtain u v where p: "p = (u, v)" by (cases p)
  show "bk' p = naive_redraw b bk p"
  proof (cases "S u v")
    case True
    then show ?thesis using w s1 by (simp add: p naive_redraw_apply)
  next
    case False
    show ?thesis
    proof (cases "in_bounds b u v")
      case ib: True
      with False s2 have "\<not> dirtyAll b" "dirtyStamp b ! nat (v * width b + u) \<noteq> dirtyGen b" by blast+
      from synced_clean [OF wf sync ib this] show ?thesis using w False ib by (simp add: p naive_redraw_apply)
    next
      case nb: False
      then show ?thesis using w False by (simp add: p naive_redraw_apply)
    qed
  qed
qed

lemma in_bounds_nat:
  assumes "in_bounds b u v"
  shows "nat v * nat (width b) + nat u = nat (v * width b + u)"
proof -
  from assms have n: "0 \<le> u" "0 \<le> v" "0 \<le> width b" by (simp_all add: in_bounds_def)
  have "int (nat v * nat (width b) + nat u) = v * width b + u" using n by simp
  then show ?thesis by linarith
qed

lemma SetRect_apply:
  assumes "0 \<le> w" "0 \<le> h" "nat (w * h) \<le> length cs"
  shows "SetRect bk x y w h cs (u, v) =
     (if y \<le> v \<and> v < y + h \<and> x \<le> u \<and> u < x + w
      then cs ! nat ((v - y) * w + (u - x)) else bk (u, v))"
proof -
  have len: "nat w * nat h \<le> length cs" using assms by (simp add: nat_mult_distrib)
  note r = SetRect_rows_apply [OF len, of bk x y u v]
  show ?thesis
  proof (cases "y \<le> v \<and> v < y + h \<and> x \<le> u \<and> u < x + w")
    case True
    have "int (nat (v - y) * nat w + nat (u - x)) = (v - y) * w + (u - x)" using True assms(1) by simp
    then have "nat (v - y) * nat w + nat (u - x) = nat ((v - y) * w + (u - x))" by linarith
    then show ?thesis using True assms(1,2) r by (simp add: SetRect_def)
  next
    case False
    then show ?thesis using assms(1,2) r by (auto simp: SetRect_def)
  qed
qed

lemma SetRect_empty:
  assumes "w < 0 \<or> h < 0"
  shows "SetRect bk x y w h cs = bk"
proof (rule ext)
  fix p :: "int \<times> int"
  obtain u v where p: "p = (u, v)" by (cases p)
  have "nat w * nat h \<le> length cs" using assms by auto
  from SetRect_rows_apply [OF this, of bk x y u v] assms
  show "SetRect bk x y w h cs p = bk p" by (auto simp: p SetRect_def)
qed

lemma full_rect_spec:
  assumes wf: "buf_wf b"
  shows "SetRect bk 0 0 (width b) (height b) (cells b) = naive_redraw b bk"
proof (cases "0 \<le> width b \<and> 0 \<le> height b")
  case False
  then have e: "SetRect bk 0 0 (width b) (height b) (cells b) = bk" by (intro SetRect_empty) auto
  have "naive_redraw b bk = bk"
    by (rule ext) (use False in \<open>auto simp: naive_redraw_apply in_bounds_def\<close>)
  then show ?thesis using e by simp
next
  case True
  then have w0: "0 \<le> width b" and h0: "0 \<le> height b" by simp_all
  have len: "nat (width b * height b) \<le> length (cells b)" using wf by (simp add: buf_wf_def)
  show ?thesis
  proof (rule ext)
    fix p :: "int \<times> int"
    obtain u v where p: "p = (u, v)" by (cases p)
    show "SetRect bk 0 0 (width b) (height b) (cells b) p = naive_redraw b bk p"
      unfolding p SetRect_apply [OF w0 h0 len] naive_redraw_apply
      by (auto simp: in_bounds_def)
  qed
qed

lemma full_rows_spec:
  assumes wf: "buf_wf b"
  shows "full_rows bk (cells b) (width b) [0..height b - 1] = Inr (naive_redraw b bk)"
proof (cases "0 < height b")
  case False
  then have e: "[0..height b - 1] = []" by simp
  have "naive_redraw b bk = bk"
    by (rule ext) (use False in \<open>auto simp: naive_redraw_apply in_bounds_def\<close>)
  then show ?thesis by (simp add: e)
next
  case True
  note fit = area_fits [OF wf]
  have w0: "0 \<le> width b" using fit(1) True by (auto simp: zero_le_mult_iff)
  have len: "int (length (cells b)) = width b * height b" using wf fit by (simp add: buf_wf_def)
  have rows: "\<forall>y\<in>set [0..height b - 1]. 0 \<le> y \<and> (y + 1) * width b \<le> int (length (cells b))"
  proof
    fix y assume "y \<in> set [0..height b - 1]"
    then have y: "0 \<le> y" "y + 1 \<le> height b" by auto
    have "(y + 1) * width b \<le> height b * width b" using y w0 by (intro mult_right_mono) simp_all
    then show "0 \<le> y \<and> (y + 1) * width b \<le> int (length (cells b))" using y len by (simp add: mult.commute)
  qed
  have l63: "int (length (cells b)) < 9223372036854775808" using len fit by simp
  from full_rows_apply [OF w0 rows l63, of bk]
  obtain bk' where bk': "full_rows bk (cells b) (width b) [0..height b - 1] = Inr bk'"
    "\<forall>u v. bk' (u, v) = (if v \<in> set [0..height b - 1] \<and> 0 \<le> u \<and> u < width b
                          then cells b ! nat (v * width b + u) else bk (u, v))" by blast
  have "bk' = naive_redraw b bk"
  proof (rule ext)
    fix p :: "int \<times> int"
    obtain u v where p: "p = (u, v)" by (cases p)
    show "bk' p = naive_redraw b bk p"
      using bk'(2) by (auto simp: p naive_redraw_apply in_bounds_def)
  qed
  then show ?thesis using bk'(1) by simp
qed

lemma partial_rect_spec:
  assumes inv: "buf_inv b" and sync: "clean_cells_synced b bk"
    and nd: "\<not> dirtyAll b" and pos: "0 < dirtyCount b" and ww: "Width (dirtyRect b) = width b"
  shows "(case slice (cells b) (mul64 (Y (dirtyRect b)) (width b))
                 (add64 (mul64 (Y (dirtyRect b)) (width b))
                        (mul64 (Width (dirtyRect b)) (Height (dirtyRect b)))) of
            Inl e \<Rightarrow> Inl e
          | Inr part \<Rightarrow> Inr (SetRect bk 0 (Y (dirtyRect b)) (width b) (Height (dirtyRect b)) part))
         = Inr (naive_redraw b bk)"
proof -
  from inv nd pos have wf: "buf_wf b" and ag: "dirty_agree b" and rw: "rect_within b (dirtyRect b)"
    by (simp_all add: buf_inv_def)
  note fit = area_fits [OF wf]
  let ?r = "dirtyRect b" and ?w = "width b"
  let ?Y = "Y ?r" and ?H = "Height ?r"
  have rb: "0 \<le> X ?r" "0 \<le> ?Y" "0 < ?w" "0 < ?H" "X ?r + ?w \<le> ?w" "?Y + ?H \<le> height b"
    using rw ww by (simp_all add: rect_within_def)
  then have x0: "X ?r = 0" by simp
  have len: "int (length (cells b)) = ?w * height b" using wf fit by (simp add: buf_wf_def)
  have top: "(?Y + ?H) * ?w \<le> height b * ?w" using rb by (intro mult_right_mono) simp_all
  have yw: "0 \<le> ?Y * ?w" using rb by simp
  have wh: "0 < ?w * ?H" using rb by simp
  have hi: "?Y * ?w + ?w * ?H \<le> int (length (cells b))"
    using top len by (simp add: algebra_simps)
  have m1: "mul64 ?Y ?w = ?Y * ?w" using yw hi wh fit by (intro mul64_id) (simp add: is_i64_def len)
  have m2: "mul64 ?w ?H = ?w * ?H" using yw hi wh fit by (intro mul64_id) (simp add: is_i64_def len)
  have a1: "add64 (?Y * ?w) (?w * ?H) = ?Y * ?w + ?w * ?H"
    using yw hi wh fit by (intro add64_id) (simp add: is_i64_def len)
  from slice_Inr [OF yw _ hi] wh
  obtain part where part: "slice (cells b) (?Y * ?w) (?Y * ?w + ?w * ?H) = Inr part"
    "length part = nat (?w * ?H)" "\<forall>k<nat (?w * ?H). part ! k = cells b ! (nat (?Y * ?w) + k)"
    by auto
  have pl: "nat (?w * ?H) \<le> length part" using part(2) by simp
  have w0: "0 \<le> ?w" and h0: "0 \<le> ?H" using rb by simp_all
  let ?bk' = "SetRect bk 0 ?Y ?w ?H part"
  let ?S = "\<lambda>u v. ?Y \<le> v \<and> v < ?Y + ?H \<and> 0 \<le> u \<and> u < ?w"
  have val: "?bk' (u, v) = (if ?S u v then cells b ! nat (v * ?w + u) else bk (u, v))" for u v
  proof (cases "?S u v")
    case False
    then show ?thesis unfolding SetRect_apply [OF w0 h0 pl] by auto
  next
    case True
    let ?k = "(v - ?Y) * ?w + u"
    have k0: "0 \<le> ?k" using True rb by simp
    have "?k < (v - ?Y) * ?w + ?w" using True by simp
    moreover have "(v - ?Y) * ?w + ?w = (v - ?Y + 1) * ?w" by (simp add: algebra_simps)
    moreover have "(v - ?Y + 1) * ?w \<le> ?H * ?w" using True rb by (intro mult_right_mono) simp_all
    ultimately have klt: "?k < ?w * ?H" by (simp add: mult.commute)
    have k: "nat ?k < nat (?w * ?H)" using klt k0 by linarith
    have "int (nat (?Y * ?w) + nat ?k) = v * ?w + u" using yw k0 by (simp add: algebra_simps)
    then have e: "nat (?Y * ?w) + nat ?k = nat (v * ?w + u)" by linarith
    have "?bk' (u, v) = part ! nat ?k" unfolding SetRect_apply [OF w0 h0 pl] using True by simp
    also have "\<dots> = cells b ! (nat (?Y * ?w) + nat ?k)" using part(3) k by simp
    finally show ?thesis using True e by simp
  qed
  have s1: "\<forall>u v. ?S u v \<longrightarrow> in_bounds b u v" using rb by (auto simp: in_bounds_def)
  have s2: "\<forall>u v. in_bounds b u v \<and> (dirtyAll b \<or> dirtyStamp b ! nat (v * ?w + u) = dirtyGen b)
                   \<longrightarrow> ?S u v"
  proof (intro allI impI)
    fix u v assume a: "in_bounds b u v \<and> (dirtyAll b \<or> dirtyStamp b ! nat (v * ?w + u) = dirtyGen b)"
    then have ib: "in_bounds b u v" and st: "dirtyStamp b ! nat (v * ?w + u) = dirtyGen b"
      using nd by simp_all
    have "nat (v * ?w + u) \<in> set (stamped b)" using st stamped_iff [OF wf ib] by simp
    then have "rect_contains ?r (col_of b (nat (v * ?w + u))) (row_of b (nat (v * ?w + u)))"
      using ag by (simp add: dirty_agree_def)
    then have "rect_contains ?r u v" using col_row_of_idx [OF ib] by simp
    then show "?S u v" using ib by (simp add: rect_contains_def in_bounds_def)
  qed
  have "?bk' = naive_redraw b bk"
    by (rule flush_close [OF wf sync _ s1 s2]) (use val in blast)
  then show ?thesis by (simp add: ww m1 m2 a1 part(1))
qed

lemma spans_spec:
  assumes inv: "buf_inv b" and sync: "clean_cells_synced b bk"
  shows "(case ForEachDirtySpan b of
            Inl e \<Rightarrow> Inl e
          | Inr spans \<Rightarrow> write_spans bk (cells b) (width b) spans) = Inr (naive_redraw b bk)"
proof -
  from inv have wf: "buf_wf b" by (simp add: buf_inv_def)
  note fit = area_fits [OF wf]
  have len: "int (length (cells b)) = width b * height b" using wf fit by (simp add: buf_wf_def)
  from ForEachDirtySpan_spec [OF inv]
  obtain spans where sp: "ForEachDirtySpan b = Inr spans"
    "\<forall>(y, s, e)\<in>set spans. 0 \<le> y \<and> y < height b \<and> 0 \<le> s \<and> s \<le> e \<and> e \<le> width b"
    "\<forall>x y. (\<exists>(y', s, e)\<in>set spans. y' = y \<and> s \<le> x \<and> x < e)
              \<longleftrightarrow> in_bounds b x y \<and> (dirtyAll b \<or> dirtyStamp b ! nat (y * width b + x) = dirtyGen b)"
    by blast
  have ok: "\<forall>(y, s, e)\<in>set spans. 0 \<le> y * width b \<and> 0 \<le> s \<and> s \<le> e
                \<and> y * width b + e \<le> int (length (cells b))"
  proof (intro ballI, clarify)
    fix y s e assume "(y, s, e) \<in> set spans"
    with sp(2) have p: "0 \<le> y" "y < height b" "0 \<le> s" "s \<le> e" "e \<le> width b" by auto
    then have w0: "0 \<le> width b" by simp
    have "(y + 1) * width b \<le> height b * width b" using p w0 by (intro mult_right_mono) simp_all
    then have "y * width b + e \<le> width b * height b" using p by (simp add: algebra_simps)
    then show "0 \<le> y * width b \<and> 0 \<le> s \<and> s \<le> e \<and> y * width b + e \<le> int (length (cells b))"
      using p w0 len by simp
  qed
  have l63: "int (length (cells b)) < 9223372036854775808" using len fit by simp
  from write_spans_apply [OF ok l63, of bk]
  obtain bk' where bk': "write_spans bk (cells b) (width b) spans = Inr bk'"
    "\<forall>u v. bk' (u, v) = (if \<exists>(y, s, e)\<in>set spans. v = y \<and> s \<le> u \<and> u < e
                                 then cells b ! nat (v * width b + u) else bk (u, v))" by blast
  let ?S = "\<lambda>u v. \<exists>(y, s, e)\<in>set spans. v = y \<and> s \<le> u \<and> u < e"
  have eqv: "?S u v \<longleftrightarrow> in_bounds b u v \<and> (dirtyAll b \<or> dirtyStamp b ! nat (v * width b + u) = dirtyGen b)"
    for u v
    using sp(3) [rule_format, of v u] by (auto simp: eq_commute)
  have "bk' = naive_redraw b bk"
    by (rule flush_close [OF wf sync, where S = ?S]) (use bk'(2) eqv in blast)+
  then show ?thesis using sp(1) bk'(1) by simp
qed

lemma cells_spec:
  assumes inv: "buf_inv b" and sync: "clean_cells_synced b bk"
  shows "(case ForEachDirtyCell b of
            Inl e \<Rightarrow> Inl e
          | Inr visits \<Rightarrow> Inr (write_cells bk visits)) = Inr (naive_redraw b bk)"
proof -
  from inv have wf: "buf_wf b" by (simp add: buf_inv_def)
  from ForEachDirtyCell_spec [OF inv]
  obtain vs where vs: "ForEachDirtyCell b = Inr vs"
    "set vs = {(x, y, c). in_bounds b x y
                    \<and> (dirtyAll b \<or> dirtyStamp b ! nat (y * width b + x) = dirtyGen b)
                    \<and> c = cells b ! nat (y * width b + x)}" by blast
  let ?f = "\<lambda>(x, y). cells b ! nat (y * width b + x)"
  let ?S = "\<lambda>u v. (u, v) \<in> (\<lambda>(x, y, c). (x, y)) ` set vs"
  have h: "\<forall>(x, y, c)\<in>set vs. c = ?f (x, y)" unfolding vs(2) by auto
  have val: "\<forall>u v. write_cells bk vs (u, v) = (if ?S u v then cells b ! nat (v * width b + u) else bk (u, v))"
    using write_cells_apply [OF h, of bk] by simp
  have s1: "\<forall>u v. ?S u v \<longrightarrow> in_bounds b u v" unfolding vs(2) by auto
  have s2: "\<forall>u v. in_bounds b u v \<and> (dirtyAll b \<or> dirtyStamp b ! nat (v * width b + u) = dirtyGen b)
                   \<longrightarrow> ?S u v"
    unfolding vs(2) by force
  have "write_cells bk vs = naive_redraw b bk"
    by (rule flush_close [OF wf sync val s1 s2])
  then show ?thesis using vs(1) by simp
qed

text \<open>The flush ends where the naive redraw ends, whichever strategy it picks.\<close>

lemma render_flush_spec:
  assumes inv: "buf_inv b" and sync: "clean_cells_synced b bk"
  shows "render_flush rw rc b bk = Inr (if IsDirty b then ClearDirty b else b, naive_redraw b bk)"
proof -
  from inv have wf: "buf_wf b" by (simp add: buf_inv_def)
  note fit = area_fits [OF wf]
  note full = full_rect_spec [OF wf, of bk] full_rows_spec [OF wf, of bk] full_cells_rows
  note part = spans_spec [OF inv sync] cells_spec [OF inv sync]
  have area: "mul64 (width b) (height b) = width b * height b"
    using fit by (intro mul64_id) (simp add: is_i64_def)
  show ?thesis
  proof (cases "dirtyAll b")
    case True
    show ?thesis
    proof (cases "0 < width b * height b")
      case pos: True
      then have "go_div (width b * height b) 2 < width b * height b"
        by (simp add: go_div_nonneg)
      then show ?thesis using True
        by (simp add: render_flush_def IsDirty_def DirtyCount_def Size_def Cells_def Let_def area full)
    next
      case False
      then have "width b * height b = 0" using fit(1) by simp
      then have z: "mul64 (width b) (height b) = 0" using area by simp
      show ?thesis using True
        by (simp add: render_flush_def IsDirty_def DirtyCount_def DirtyRect_def Size_def Cells_def
            Let_def z go_div_def part)
    qed
  next
    case nd: False
    then have ag: "dirty_agree b" using inv by (simp add: buf_inv_def)
    then have cnt: "dirtyCount b = int (length (stamped b))" by (simp add: dirty_agree_def)
    show ?thesis
    proof (cases "0 < dirtyCount b")
      case False
      then have "stamped b = []" using cnt by simp
      then have ns: "\<forall>u v. in_bounds b u v \<longrightarrow> dirtyStamp b ! nat (v * width b + u) \<noteq> dirtyGen b"
        using stamped_iff [OF wf] by auto
      have "bk = naive_redraw b bk"
        by (rule flush_close [OF wf sync, where S = "\<lambda>u v. False"]) (use ns nd in auto)
      then show ?thesis using False nd by (simp add: render_flush_def IsDirty_def)
    next
      case pos: True
      have pr: "(case slice (cells b) (mul64 (Y (dirtyRect b)) (width b))
                 (add64 (mul64 (Y (dirtyRect b)) (width b))
                        (mul64 (width b) (Height (dirtyRect b)))) of
            Inl e \<Rightarrow> Inl e
          | Inr part \<Rightarrow> Inr (SetRect bk 0 (Y (dirtyRect b)) (width b) (Height (dirtyRect b)) part))
         = Inr (naive_redraw b bk)" if "Width (dirtyRect b) = width b"
        using partial_rect_spec [OF inv sync nd pos that] that by simp
      show ?thesis using pos nd
        by (simp add: render_flush_def IsDirty_def DirtyCount_def DirtyRect_def Size_def Cells_def
            Let_def full part pr)
    qed
  qed
qed

lemma sync_2x2_X_zero: "clean_cells_synced buf2x2_X zero_backend"
proof -
  have wf: "buf_wf buf2x2_X"
    using reachable_inv [OF reachable_2x2_X dims_2x2_X] by (simp add: buf_inv_def)
  have "Buffer_Get buf2x2_X x y = Inr (zero_backend (x, y))"
    if a: "in_bounds buf2x2_X x y" "IsCellDirty buf2x2_X x y = Inr False" for x y
  proof -
    from a(1) have "x = 0 \<or> x = 1" "y = 0 \<or> y = 1" by (auto simp: in_bounds_def buf2x2_X_def)
    then show ?thesis using a
      by (elim disjE)
         (simp_all add: IsCellDirty_eq [OF wf] Buffer_Get_eq [OF wf] zero_backend_def,
          simp_all add: buf2x2_X_def)
  qed
  then show ?thesis by (simp add: clean_cells_synced_def)
qed

lemma FEDC_2x2_X: "ForEachDirtyCell buf2x2_X = Inr [(1, 0, Cell 88 0)]"
  by (simp add: ForEachDirtyCell_def buf2x2_X_def go_div_def mul64_def add64_def sub64_def i64_def
      visit_if_stamped_def visit_cell_def stamp_at_def cell_at_def upto.simps [of 0] upto.simps [of 1])

text \<open>Claim C2 (flush-strategy equivalence), as stated, fails: the flush writes the dirty
  cells only, so it ends where the naive redraw ends only if the backend already shows
  the cells that are not dirty. A fresh 2 by 2 buffer with \<open>X\<close> written at \<open>(1, 0)\<close> has one
  dirty cell; flushed to a blank backend without row or rectangle writer, the backend
  keeps its blank at \<open>(0, 0)\<close>, where the naive redraw stores the zero cell of the
  buffer.\<close>

theorem flush_unsynced_counterexample:
  "NewBuffer 2 2 = Inr buf2x2
   \<and> Buffer_Set buf2x2 1 0 88 0 = Inr buf2x2_X
   \<and> render_flush False False buf2x2_X blank_backend
       = Inr (ClearDirty buf2x2_X, SetContent blank_backend 1 0 88 0)
   \<and> SetContent blank_backend 1 0 88 0 (0, 0) = Cell 32 0
   \<and> naive_redraw buf2x2_X blank_backend (0, 0) = Cell 0 0"
proof -
  have r: "render_flush False False buf2x2_X blank_backend
            = Inr (ClearDirty buf2x2_X, SetContent blank_backend 1 0 88 0)"
    by (simp add: render_flush_def FEDC_2x2_X IsDirty_def DirtyCount_def DirtyRect_def Size_def
        Let_def go_div_def mul64_def i64_def)
       (simp add: buf2x2_X_def)
  have s: "SetContent blank_backend 1 0 88 0 (0, 0) = Cell 32 0"
    by (simp add: SetContent_def blank_backend_def)
  have n: "naive_redraw buf2x2_X blank_backend (0, 0) = Cell 0 0"
    by (simp add: naive_redraw_apply in_bounds_def) (simp add: buf2x2_X_def)
  from NewBuffer_2x2 Set_2x2_X r s n show ?thesis by simp
qed

text \<open>Claim C2, amended. For every reachable buffer whose area does not wrap around, every
  dirty pattern and every backend that already shows the cells of the buffer that are not
  reported dirty, the flush of \<open>App.render\<close> succeeds, whichever of the optional writers
  the backend has and whichever strategy is chosen (full redraw through \<open>SetRect\<close>,
  \<open>SetRow\<close> or \<open>SetContent\<close>, one bulk rectangle, the dirty spans, or the dirty cells),
  and leaves the backend with exactly the contents that the naive redraw of every cell
  leaves; the buffer is returned with its dirty flags cleared.\<close>

theorem flush_strategy_equivalence:
  assumes "reachable b" and "dims_fit (width b) (height b)" and "clean_cells_synced b bk"
  shows "render_flush hasRowWriter hasRectWriter b bk
         = Inr (if IsDirty b then ClearDirty b else b, naive_redraw b bk)"
  by (rule render_flush_spec [OF reachable_inv [OF assms(1,2)] assms(3)])

theorem flush_strategy_equivalence_witness:
  "reachable buf2x2_X \<and> dims_fit (width buf2x2_X) (height buf2x2_X)
   \<and> clean_cells_synced buf2x2_X zero_backend
   \<and> render_flush True True buf2x2_X zero_backend
       = Inr (ClearDirty buf2x2_X, naive_redraw buf2x2_X zero_backend)
   \<and> render_flush False False buf2x2_X zero_backend
       = Inr (ClearDirty buf2x2_X, naive_redraw buf2x2_X zero_backend)
   \<and> naive_redraw buf2x2_X zero_backend (1, 0) = Cell 88 0"
proof -
  have d: "IsDirty buf2x2_X" by (simp add: IsDirty_def buf2x2_X_def)
  have n: "naive_redraw buf2x2_X zero_backend (1, 0) = Cell 88 0"
    by (simp add: naive_redraw_apply in_bounds_def) (simp add: buf2x2_X_def)
  from flush_strategy_equivalence [OF reachable_2x2_X dims_2x2_X sync_2x2_X_zero, of True True]
    flush_strategy_equivalence [OF reachable_2x2_X dims_2x2_X sync_2x2_X_zero, of False False]
    d n reachable_2x2_X dims_2x2_X sync_2x2_X_zero
  show ?thesis by simp
qed

subsection \<open>Lifecycle hooks\<close>

lemma mount_ids_append: "mount_ids (xs @ ys) = mount_ids xs @ mount_ids ys"
  by (induction xs rule: mount_ids.induct) simp_all

lemma unmount_ids_append: "unmount_ids (xs @ ys) = unmount_ids xs @ unmount_ids ys"
  by (induction xs rule: unmount_ids.induct) simp_all

lemma mount_ids_concat: "mount_ids (concat xss) = concat (map mount_ids xss)"
  by (induction xss) (simp_all add: mount_ids_append)

lemma unmount_ids_concat: "unmount_ids (concat xss) = concat (map unmount_ids xss)"
  by (induction xss) (simp_all add: unmount_ids_append)

lemma subwidgets_unfold:
  "subwidgets (Widget i lc hb hu cp bp) =
     Widget i lc hb hu cp bp
     # (case cp of None \<Rightarrow> [] | Some cs \<Rightarrow> concat (map subwidgets_opt cs))"
proof -
  have "case_option [] subwidgets = subwidgets_opt"
    by (rule ext) (simp add: subwidgets_opt_def)
  then show ?thesis by (cases cp) simp_all
qed

lemma mount_ids_mountWidget:
  "mount_ids (mountWidget wo) = map wid (filter hasLifecycle (subwidgets_opt wo))"
proof (induction wo rule: mountWidget.induct)
  case 1
  show ?case by (simp add: subwidgets_opt_def)
next
  case (2 i lc hb hu cp bp)
  show ?case
  proof (cases cp)
    case None
    then show ?thesis by (simp add: subwidgets_opt_def)
  next
    case (Some cs)
    have e: "concat (map (\<lambda>c. mount_ids (mountWidget c)) cs)
          = concat (map (\<lambda>c. map wid (filter hasLifecycle (subwidgets_opt c))) cs)"
      using 2 [OF Some] by (intro arg_cong [where f = concat] map_cong) simp_all
    have s: "subwidgets_opt (Some (Widget i lc hb hu cp bp))
          = Widget i lc hb hu cp bp # concat (map subwidgets_opt cs)"
      unfolding subwidgets_opt_def [of "Some (Widget i lc hb hu cp bp)"]
      by (simp only: subwidgets_unfold Some option.case)
    show ?thesis unfolding s
      by (simp add: Some e mount_ids_append mount_ids_concat map_concat filter_concat comp_def)
  qed
qed

lemma mset_unmount_mount:
  "mset (unmount_ids (unmountWidget wo)) = mset (mount_ids (mountWidget wo))"
proof (induction wo rule: mountWidget.induct)
  case 1
  show ?case by simp
next
  case (2 i lc hb hu cp bp)
  show ?case
  proof (cases cp)
    case None
    then show ?thesis by simp
  next
    case (Some cs)
    have e: "(\<Sum>c\<leftarrow>cs. mset (unmount_ids (unmountWidget c)))
          = (\<Sum>c\<leftarrow>cs. mset (mount_ids (mountWidget c)))"
      using 2 [OF Some] by (intro arg_cong [where f = sum_list] map_cong) simp_all
    show ?thesis
      by (simp add: Some e mount_ids_append unmount_ids_append mount_ids_concat unmount_ids_concat
            mset_concat comp_def)
  qed
qed

lemma mount_ids_other:
  "mount_ids (unmountWidget wo) = []" "mount_ids (bindWidget wo) = []" "mount_ids (unbindWidget wo) = []"
proof -
  show "mount_ids (unmountWidget wo) = []"
  proof (induction wo rule: unmountWidget.induct)
    case (2 i lc hb hu cp bp)
    then show ?case by (cases cp) (simp_all add: mount_ids_append mount_ids_concat)
  qed simp
  show "mount_ids (bindWidget wo) = []"
  proof (induction wo rule: bindWidget.induct)
    case (2 i lc hb hu cp bp)
    then show ?case by (cases cp) (simp_all add: mount_ids_append mount_ids_concat)
  qed simp
  show "mount_ids (unbindWidget wo) = []"
  proof (induction wo rule: unbindWidget.induct)
    case (2 i lc hb hu cp bp)
    then show ?case by (cases cp) (simp_all add: mount_ids_append mount_ids_concat)
  qed simp
qed

lemma unmount_ids_other:
  "unmount_ids (mountWidget wo) = []" "unmount_ids (bindWidget wo) = []" "unmount_ids (unbindWidget wo) = []"
proof -
  show "unmount_ids (mountWidget wo) = []"
  proof (induction wo rule: mountWidget.induct)
    case (2 i lc hb hu cp bp)
    then show ?case by (cases cp) (simp_all add: unmount_ids_append unmount_ids_concat)
  qed simp
  show "unmount_ids (bindWidget wo) = []"
  proof (induction wo rule: bindWidget.induct)
    case (2 i lc hb hu cp bp)
    then show ?case by (cases cp) (simp_all add: unmount_ids_append unmount_ids_concat)
  qed simp
  show "unmount_ids (unbindWidget wo) = []"
  proof (induction wo rule: unbindWidget.induct)
    case (2 i lc hb hu cp bp)
    then show ?case by (cases cp) (simp_all add: unmount_ids_append unmount_ids_concat)
  qed simp
qed

lemma before_intro: "a \<in> set ys \<Longrightarrow> before a b (ys @ b # zs)"
proof -
  assume a: "a \<in> set ys"
  have d: "dropWhile (\<lambda>x. x \<noteq> a) (ys @ b # zs) = dropWhile (\<lambda>x. x \<noteq> a) ys @ b # zs"
    using a by (intro dropWhile_append1) auto
  have ne: "dropWhile (\<lambda>x. x \<noteq> a) ys \<noteq> []" using a by (simp add: dropWhile_eq_Nil_conv) 
  then have "tl (dropWhile (\<lambda>x. x \<noteq> a) ys @ b # zs) = tl (dropWhile (\<lambda>x. x \<noteq> a) ys) @ b # zs"
    by simp
  then show ?thesis using a by (simp add: before_def d)
qed

lemma subwidgets_opt_Some:
  "subwidgets_opt (Some (Widget i lc hb hu cp bp))
     = Widget i lc hb hu cp bp # (case cp of None \<Rightarrow> [] | Some cs \<Rightarrow> concat (map subwidgets_opt cs))"
  unfolding subwidgets_opt_def [of "Some (Widget i lc hb hu cp bp)"]
  by (simp only: subwidgets_unfold option.case)

lemma mount_split:
  "p \<in> set (subwidgets_opt wo) \<Longrightarrow>
   \<exists>pre post. mount_ids (mountWidget wo) = pre @ mount_ids (mountWidget (Some p)) @ post"
proof (induction wo rule: mountWidget.induct)
  case 1
  then show ?case by (simp add: subwidgets_opt_def)
next
  case (2 i lc hb hu cp bp)
  let ?W = "Widget i lc hb hu cp bp"
  show ?case
  proof (cases "p = ?W")
    case True
    have "mount_ids (mountWidget (Some ?W)) = [] @ mount_ids (mountWidget (Some p)) @ []"
      using True by simp
    then show ?thesis by blast
  next
    case False
    with 2(2) obtain cs c where cp: "cp = Some cs" and c: "c \<in> set cs" "p \<in> set (subwidgets_opt c)"
      by (auto simp: subwidgets_opt_Some split: option.splits)
    from 2(1) [OF cp c] obtain pre post
      where ih: "mount_ids (mountWidget c) = pre @ mount_ids (mountWidget (Some p)) @ post" by blast
    from c(1) obtain cs1 cs2 where s: "cs = cs1 @ c # cs2" by (auto dest: split_list)
    have "mount_ids (mountWidget (Some ?W))
          = ((if lc then [i] else []) @ concat (map (\<lambda>c. mount_ids (mountWidget c)) cs1) @ pre)
            @ mount_ids (mountWidget (Some p))
            @ (post @ concat (map (\<lambda>c. mount_ids (mountWidget c)) cs2))"
      by (simp add: cp s ih mount_ids_append mount_ids_concat comp_def)
    then show ?thesis by blast
  qed
qed

lemma unmount_split:
  "p \<in> set (subwidgets_opt wo) \<Longrightarrow>
   \<exists>pre post. unmount_ids (unmountWidget wo) = pre @ unmount_ids (unmountWidget (Some p)) @ post"
proof (induction wo rule: unmountWidget.induct)
  case 1
  then show ?case by (simp add: subwidgets_opt_def)
next
  case (2 i lc hb hu cp bp)
  let ?W = "Widget i lc hb hu cp bp"
  show ?case
  proof (cases "p = ?W")
    case True
    have "unmount_ids (unmountWidget (Some ?W)) = [] @ unmount_ids (unmountWidget (Some p)) @ []"
      using True by simp
    then show ?thesis by blast
  next
    case False
    with 2(2) obtain cs c where cp: "cp = Some cs" and c: "c \<in> set cs" "p \<in> set (subwidgets_opt c)"
      by (auto simp: subwidgets_opt_Some split: option.splits)
    from 2(1) [OF cp c] obtain pre post
      where ih: "unmount_ids (unmountWidget c) = pre @ unmount_ids (unmountWidget (Some p)) @ post" by blast
    from c(1) obtain cs1 cs2 where s: "cs = cs1 @ c # cs2" by (auto dest: split_list)
    have "unmount_ids (unmountWidget (Some ?W))
          = (concat (map (\<lambda>c. unmount_ids (unmountWidget c)) cs1) @ pre)
            @ unmount_ids (unmountWidget (Some p))
            @ (post @ concat (map (\<lambda>c. unmount_ids (unmountWidget c)) cs2) @ (if lc then [i] else []))"
      by (simp add: cp s ih unmount_ids_append unmount_ids_concat comp_def)
    then show ?thesis by blast
  qed
qed

lemma children_of_mem:
  assumes "c \<in> set (children_of p)"
  shows "\<exists>cs cs1 cs2. childProvider p = Some cs \<and> cs = cs1 @ Some c # cs2"
proof -
  from assms have "\<exists>cs. childProvider p = Some cs \<and> Some c \<in> set cs"
    by (cases "childProvider p") (auto simp: children_of_def split: option.splits)
  then obtain cs where cp: "childProvider p = Some cs" and "Some c \<in> set cs" by blast
  then show ?thesis by (auto dest: split_list)
qed

lemma mount_child:
  assumes "c \<in> set (children_of p)" "hasLifecycle p" "hasLifecycle c"
  shows "\<exists>B1 B2. mount_ids (mountWidget (Some p)) = wid p # B1 @ wid c # B2"
proof -
  from children_of_mem [OF assms(1)] obtain cs cs1 cs2
    where cp: "childProvider p = Some cs" "cs = cs1 @ Some c # cs2" by blast
  obtain i lc hb hu cq bp where p: "p = Widget i lc hb hu cq bp" by (cases p)
  obtain j lc' hb' hu' cq' bp' where c: "c = Widget j lc' hb' hu' cq' bp'" by (cases c)
  have hc: "mount_ids (mountWidget (Some c)) = wid c # tl (mount_ids (mountWidget (Some c)))"
    using assms(3) by (simp add: c mount_ids_append)
  have "mount_ids (mountWidget (Some p))
        = wid p # concat (map (\<lambda>c. mount_ids (mountWidget c)) cs1)
          @ wid c # (tl (mount_ids (mountWidget (Some c))) @ concat (map (\<lambda>c. mount_ids (mountWidget c)) cs2))"
    using cp assms(2) hc by (simp add: p mount_ids_append mount_ids_concat comp_def)
  then show ?thesis by blast
qed

lemma unmount_child:
  assumes "c \<in> set (children_of p)" "hasLifecycle p" "hasLifecycle c"
  shows "\<exists>B1 B2. unmount_ids (unmountWidget (Some p)) = B1 @ wid c # B2 @ [wid p]"
proof -
  from children_of_mem [OF assms(1)] obtain cs cs1 cs2
    where cp: "childProvider p = Some cs" "cs = cs1 @ Some c # cs2" by blast
  obtain i lc hb hu cq bp where p: "p = Widget i lc hb hu cq bp" by (cases p)
  obtain j lc' hb' hu' cq' bp' where c: "c = Widget j lc' hb' hu' cq' bp'" by (cases c)
  have hc: "unmount_ids (unmountWidget (Some c)) = butlast (unmount_ids (unmountWidget (Some c))) @ [wid c]"
    using assms(3) by (simp add: c unmount_ids_append)
  have "unmount_ids (unmountWidget (Some p))
        = (concat (map (\<lambda>c. unmount_ids (unmountWidget c)) cs1) @ butlast (unmount_ids (unmountWidget (Some c))))
          @ wid c # concat (map (\<lambda>c. unmount_ids (unmountWidget c)) cs2) @ [wid p]"
    using cp assms(2) by (simp add: p unmount_ids_append unmount_ids_concat comp_def) (use hc in simp)
  then show ?thesis by blast
qed

lemma mount_parent_first:
  assumes "p \<in> set (subwidgets root)" "c \<in> set (children_of p)" "hasLifecycle p" "hasLifecycle c"
  shows "before (wid p) (wid c) (mount_ids (mountWidget (Some root)))"
proof -
  from assms(1) have "p \<in> set (subwidgets_opt (Some root))" by (simp add: subwidgets_opt_def)
  from mount_split [OF this] obtain pre post
    where r: "mount_ids (mountWidget (Some root)) = pre @ mount_ids (mountWidget (Some p)) @ post" by blast
  from mount_child [OF assms(2-4)] obtain B1 B2
    where m: "mount_ids (mountWidget (Some p)) = wid p # B1 @ wid c # B2" by blast
  have "mount_ids (mountWidget (Some root)) = (pre @ wid p # B1) @ wid c # (B2 @ post)"
    by (simp add: r m)
  moreover have "wid p \<in> set (pre @ wid p # B1)" by simp
  ultimately show ?thesis by (metis before_intro)
qed

lemma unmount_children_first:
  assumes "p \<in> set (subwidgets root)" "c \<in> set (children_of p)" "hasLifecycle p" "hasLifecycle c"
  shows "before (wid c) (wid p) (unmount_ids (unmountWidget (Some root)))"
proof -
  from assms(1) have "p \<in> set (subwidgets_opt (Some root))" by (simp add: subwidgets_opt_def)
  from unmount_split [OF this] obtain pre post
    where r: "unmount_ids (unmountWidget (Some root)) = pre @ unmount_ids (unmountWidget (Some p)) @ post" by blast
  from unmount_child [OF assms(2-4)] obtain B1 B2
    where m: "unmount_ids (unmountWidget (Some p)) = B1 @ wid c # B2 @ [wid p]" by blast
  have "unmount_ids (unmountWidget (Some root)) = (pre @ B1 @ wid c # B2) @ wid p # post"
    by (simp add: r m)
  moreover have "wid c \<in> set (pre @ B1 @ wid c # B2)" by simp
  ultimately show ?thesis by (metis before_intro)
qed

lemma mount_once:
  assumes "distinct (tree_ids root)"
  shows "distinct (mount_ids (mountWidget (Some root)))"
    "set (mount_ids (mountWidget (Some root))) = lifecycle_ids root"
    "distinct (unmount_ids (unmountWidget (Some root)))"
    "set (unmount_ids (unmountWidget (Some root))) = lifecycle_ids root"
proof -
  have m: "mount_ids (mountWidget (Some root)) = map wid (filter hasLifecycle (subwidgets root))"
    by (simp add: mount_ids_mountWidget subwidgets_opt_def)
  show d: "distinct (mount_ids (mountWidget (Some root)))"
    unfolding m using assms by (simp add: tree_ids_def distinct_map_filter)
  show s: "set (mount_ids (mountWidget (Some root))) = lifecycle_ids root"
    unfolding m by (auto simp: lifecycle_ids_def)
  have e: "mset (unmount_ids (unmountWidget (Some root))) = mset (mount_ids (mountWidget (Some root)))"
    by (rule mset_unmount_mount)
  show "distinct (unmount_ids (unmountWidget (Some root)))"
    using d e by (metis mset_eq_imp_distinct_iff)
  show "set (unmount_ids (unmountWidget (Some root))) = lifecycle_ids root"
    using s e by (metis mset_eq_setD)
qed

lemma mount_ids_attach: "mount_ids (attach_root s (Some root)) = mount_ids (MountTree (Some root))"
  by (simp add: attach_root_def BindTree_def MountTree_def mount_ids_append mount_ids_other)

lemma mount_ids_detach: "mount_ids (detach_root old) = []"
  by (cases old) (simp_all add: detach_root_def UnmountTree_def UnbindTree_def mount_ids_append mount_ids_other)

lemma unmount_ids_attach: "unmount_ids (attach_root s new) = []"
  by (cases new) (simp_all add: attach_root_def BindTree_def MountTree_def unmount_ids_append unmount_ids_other)

lemma unmount_ids_detach: "unmount_ids (detach_root (Some root)) = unmount_ids (UnmountTree (Some root))"
  by (simp add: detach_root_def UnmountTree_def UnbindTree_def unmount_ids_append unmount_ids_other)

text \<open>Claim C7 (mount/unmount ordering). For a widget tree in which no widget occurs twice:
  attaching it with \<open>SetRoot\<close> or \<open>PushLayer\<close> fires exactly the \<open>Mount\<close> hooks of
  \<open>MountTree\<close>, and detaching it (replacing the base root, or \<open>PopLayer\<close> of its layer)
  fires exactly the \<open>Unmount\<close> hooks of \<open>UnmountTree\<close>; each widget with hooks is mounted
  once and unmounted once; every parent is mounted before each of its children and
  unmounted after each of them.\<close>

theorem mount_unmount_order:
  assumes "distinct (tree_ids root)"
  shows "mount_ids (snd (SetRoot s (Some root))) = mount_ids (MountTree (Some root))
       \<and> mount_ids (snd (PushLayer s (Some root) modal)) = mount_ids (MountTree (Some root))
       \<and> (layers s \<noteq> [] \<and> Root (hd (layers s)) = Some root
            \<longrightarrow> unmount_ids (snd (SetRoot s new)) = unmount_ids (UnmountTree (Some root)))
       \<and> (2 \<le> length (layers s) \<and> Root (last (layers s)) = Some root
            \<longrightarrow> unmount_ids (snd (snd (PopLayer s))) = unmount_ids (UnmountTree (Some root)))
       \<and> distinct (mount_ids (MountTree (Some root)))
       \<and> set (mount_ids (MountTree (Some root))) = lifecycle_ids root
       \<and> distinct (unmount_ids (UnmountTree (Some root)))
       \<and> set (unmount_ids (UnmountTree (Some root))) = lifecycle_ids root
       \<and> (\<forall>p\<in>set (subwidgets root). \<forall>c\<in>set (children_of p).
             hasLifecycle p \<and> hasLifecycle c
             \<longrightarrow> before (wid p) (wid c) (mount_ids (MountTree (Some root)))
               \<and> before (wid c) (wid p) (unmount_ids (UnmountTree (Some root))))"
proof -
  have a1: "mount_ids (snd (SetRoot s (Some root))) = mount_ids (MountTree (Some root))"
    by (cases "layers s")
       (simp_all add: SetRoot_def Let_def mount_ids_append mount_ids_attach mount_ids_detach)
  have a2: "mount_ids (snd (PushLayer s (Some root) modal)) = mount_ids (MountTree (Some root))"
    by (simp add: PushLayer_def Let_def mount_ids_attach)
  have a3: "layers s \<noteq> [] \<and> Root (hd (layers s)) = Some root
            \<longrightarrow> unmount_ids (snd (SetRoot s new)) = unmount_ids (UnmountTree (Some root))"
    by (cases "layers s")
       (simp_all add: SetRoot_def Let_def unmount_ids_append unmount_ids_attach unmount_ids_detach)
  have a4: "2 \<le> length (layers s) \<and> Root (last (layers s)) = Some root
            \<longrightarrow> unmount_ids (snd (snd (PopLayer s))) = unmount_ids (UnmountTree (Some root))"
    by (simp add: PopLayer_def Let_def unmount_ids_detach)
  note o = mount_once [OF assms]
  have a5: "\<forall>p\<in>set (subwidgets root). \<forall>c\<in>set (children_of p).
             hasLifecycle p \<and> hasLifecycle c
             \<longrightarrow> before (wid p) (wid c) (mount_ids (MountTree (Some root)))
               \<and> before (wid c) (wid p) (unmount_ids (UnmountTree (Some root)))"
    using mount_parent_first unmount_children_first
    by (simp add: MountTree_def UnmountTree_def)
  from a1 a2 a3 a4 a5 o show ?thesis by (simp add: MountTree_def UnmountTree_def)
qed

theorem mount_unmount_order_witness:
  "distinct (tree_ids root1)
   \<and> snd (SetRoot screen0 (Some root1)) = [Layout 1 (Rect 0 0 2 2), Mount 1, Mount 2]
   \<and> snd (SetRoot (fst (SetRoot screen0 (Some root1))) None) = [Unmount 2, Unmount 1]
   \<and> mount_ids (snd (SetRoot screen0 (Some root1))) = [1, 2]
   \<and> unmount_ids (snd (SetRoot (fst (SetRoot screen0 (Some root1))) None)) = [2, 1]
   \<and> before 1 2 (mount_ids (MountTree (Some root1)))
   \<and> before 2 1 (unmount_ids (UnmountTree (Some root1)))"
proof -
  have d: "distinct (tree_ids root1)" by (simp add: tree_ids_def root1_def leaf2_def)
  have e1: "snd (SetRoot screen0 (Some root1)) = [Layout 1 (Rect 0 0 2 2), Mount 1, Mount 2]"
    by (simp add: SetRoot_def screen0_def attach_root_def BindTree_def MountTree_def root1_def leaf2_def)
  have e2: "snd (SetRoot (fst (SetRoot screen0 (Some root1))) None) = [Unmount 2, Unmount 1]"
    by (simp add: SetRoot_def screen0_def attach_root_def detach_root_def UnmountTree_def
          UnbindTree_def root1_def leaf2_def)
  have c: "leaf2 \<in> set (children_of root1)" "root1 \<in> set (subwidgets root1)"
    "hasLifecycle root1" "hasLifecycle leaf2" "wid root1 = 1" "wid leaf2 = 2"
    by (simp_all add: children_of_def root1_def leaf2_def)
  have l: "layers (fst (SetRoot screen0 (Some root1))) \<noteq> []"
    "Root (hd (layers (fst (SetRoot screen0 (Some root1))))) = Some root1"
    by (simp_all add: SetRoot_def screen0_def Let_def)
  note t = mount_unmount_order [OF d, of "fst (SetRoot screen0 (Some root1))" False None]
  from t c have b: "before 1 2 (mount_ids (MountTree (Some root1)))"
    "before 2 1 (unmount_ids (UnmountTree (Some root1)))" by metis+
  from d e1 e2 b show ?thesis by simp
qed

subsection \<open>Message dispatch\<close>

lemma screen_modal_nil_layers:
  "layers screen_modal_nil = [\<lparr>Root = Some root1, Modal = False\<rparr>, \<lparr>Root = None, Modal = True\<rparr>]"
  by (simp add: screen_modal_nil_def PushLayer_def SetRoot_def screen0_def Let_def)

text \<open>Claim C8 (modal blocking) at a failing input: a base layer with root \<open>root1\<close> below a
  modal layer whose root is absent, as built by \<open>SetRoot(root1)\<close> and
  \<open>PushLayer(nil, true)\<close>. No widget consumes the key message, the topmost layer is
  modal, and still \<open>HandleMessage\<close> calls \<open>HandleMessage\<close> on the base root: the loop skips
  a layer without a root before it looks at the modal flag. The mouse path of the same
  screen does block.\<close>

theorem modal_nil_root_reaches_base:
  "Modal (last (layers screen_modal_nil))
   \<and> HandleMessage never_handles screen_modal_nil (KeyMsg 0)
       = Inr (Unhandled, screen_modal_nil, [HandleMsg (wid root1) (KeyMsg 0)])
   \<and> HandleMessage never_handles screen_modal_nil (MouseMsg 0 0)
       = Inr (Unhandled, buildHitGrid screen_modal_nil, [])"
proof -
  have m: "Modal (last (layers screen_modal_nil))" by (simp add: screen_modal_nil_layers)
  have hg: "hitGrid screen_modal_nil = Some (NewHitGrid 2 2)" "hitGridDirty screen_modal_nil"
    by (simp_all add: screen_modal_nil_def PushLayer_def SetRoot_def screen0_def Let_def)
  have k: "HandleMessage never_handles screen_modal_nil (KeyMsg 0)
       = Inr (Unhandled, screen_modal_nil, [HandleMsg (wid root1) (KeyMsg 0)])"
    by (simp add: HandleMessage_def screen_modal_nil_layers numeral_2_eq_2 never_handles_def
          Unhandled_def Let_def)
  have b: "hitGrid (buildHitGrid screen_modal_nil) = Some (NewHitGrid 2 2)"
    "hitGridModal (buildHitGrid screen_modal_nil)"
    by (simp_all add: buildHitGrid_def screen_modal_nil_layers Let_def NewHitGrid_def
          screen_modal_nil_def PushLayer_def SetRoot_def screen0_def)
  have mo: "HandleMessage never_handles screen_modal_nil (MouseMsg 0 0)
       = Inr (Unhandled, buildHitGrid screen_modal_nil, [])"
    using hg b by (simp add: HandleMessage_def Let_def WidgetAt_def NewHitGrid_def)
  from m k mo show ?thesis by blast
qed

lemma dispatched_append: "dispatched (xs @ ys) = dispatched xs @ dispatched ys"
  by (induction xs rule: dispatched.induct) simp_all

lemma dispatched_concat_Nil: "(\<forall>xs\<in>set xss. dispatched xs = []) \<Longrightarrow> dispatched (concat xss) = []"
  by (induction xss) (simp_all add: dispatched_append)

lemma dispatched_hooks:
  "dispatched (mountWidget wo) = []" "dispatched (unmountWidget wo) = []"
  "dispatched (bindWidget wo) = []" "dispatched (unbindWidget wo) = []"
proof -
  show "dispatched (mountWidget wo) = []"
  proof (induction wo rule: mountWidget.induct)
    case (2 i lc hb hu cp bp)
    then show ?case by (cases cp) (simp_all add: dispatched_append dispatched_concat_Nil)
  qed simp
  show "dispatched (unmountWidget wo) = []"
  proof (induction wo rule: unmountWidget.induct)
    case (2 i lc hb hu cp bp)
    then show ?case by (cases cp) (simp_all add: dispatched_append dispatched_concat_Nil)
  qed simp
  show "dispatched (bindWidget wo) = []"
  proof (induction wo rule: bindWidget.induct)
    case (2 i lc hb hu cp bp)
    then show ?case by (cases cp) (simp_all add: dispatched_append dispatched_concat_Nil)
  qed simp
  show "dispatched (unbindWidget wo) = []"
  proof (induction wo rule: unbindWidget.induct)
    case (2 i lc hb hu cp bp)
    then show ?case by (cases cp) (simp_all add: dispatched_append dispatched_concat_Nil)
  qed simp
qed

lemma dispatched_attach_detach:
  "dispatched (attach_root s root) = []" "dispatched (detach_root root) = []"
  by (cases root; simp add: attach_root_def detach_root_def BindTree_def MountTree_def
        UnmountTree_def UnbindTree_def dispatched_append dispatched_hooks)+

lemma dispatched_handleCommand: "dispatched (snd (handleCommand s cmd)) = []"
  by (cases cmd)
     (simp_all add: handleCommand_def PopLayer_def PushLayer_def Let_def dispatched_attach_detach
        split: prod.splits)

lemma dispatched_handleCommands: "dispatched (snd (handleCommands s cmds)) = []"
proof (induction cmds arbitrary: s)
  case Nil
  show ?case by simp
next
  case (Cons cmd cmds)
  obtain s1 evs1 where h: "handleCommand s cmd = (s1, evs1)" by (cases "handleCommand s cmd")
  obtain s2 evs2 where hs: "handleCommands s1 cmds = (s2, evs2)" by (cases "handleCommands s1 cmds")
  have "dispatched evs1 = []" using dispatched_handleCommand [of s cmd] h by simp
  moreover have "dispatched evs2 = []" using Cons.IH [of s1] hs by simp
  ultimately show ?case using h hs by (simp add: dispatched_append)
qed

lemma modal_blocks_when_root_present:
  assumes "layers s \<noteq> []" and "Root (last (layers s)) = Some r" and "Modal (last (layers s))"
    and "\<not> Handled (hm (wid r) msg)" and "\<forall>mx my. msg \<noteq> MouseMsg mx my"
  shows "\<exists>s' evs. HandleMessage hm s msg = Inr (Unhandled, s', evs) \<and> dispatched evs = [wid r]"
proof -
  obtain n where n: "length (layers s) = Suc n" using assms(1) by (cases "layers s") auto
  have l: "layers s ! n = last (layers s)" using n assms(1) by (simp add: last_conv_nth)
  obtain s' cevs where hc: "handleCommands s (Commands (hm (wid r) msg)) = (s', cevs)"
    by (cases "handleCommands s (Commands (hm (wid r) msg))")
  have d: "dispatched cevs = []" using dispatched_handleCommands [of s "Commands (hm (wid r) msg)"] hc by simp
  have "HandleMessage hm s msg = dispatch_layers hm msg (length (layers s)) s []"
    using assms(5) by (cases msg) (simp_all add: HandleMessage_def)
  also have "\<dots> = Inr (Unhandled, s', [HandleMsg (wid r) msg] @ cevs)"
    using n l assms(2,3,4) hc by (simp add: Let_def)
  finally show ?thesis using d by (simp add: dispatched_append)
qed

subsection \<open>Absent receivers\<close>

text \<open>Claim C5 (nil-receiver totality), as stated, fails: \<open>Buffer.Set\<close>, \<open>Buffer.Get\<close>,
  \<open>Screen.Resize\<close> and \<open>Screen.SetRoot\<close> carry no nil check and dereference an absent
  receiver.\<close>

theorem nil_receiver_counterexample:
  "Buffer_Set_recv None 0 0 88 0 = Inl NilDereference
   \<and> Buffer_Get_recv None 0 0 = Inl NilDereference
   \<and> Screen_Resize_recv None 80 24 = Inl NilDereference
   \<and> Screen_SetRoot_recv None None = Inl NilDereference"
  by (simp add: Buffer_Set_recv_def Buffer_Get_recv_def Screen_Resize_recv_def Screen_SetRoot_recv_def)

text \<open>Claim C5, amended. The operations that do carry the guard return without failure on
  an absent receiver, as a no-op or with the zero value: \<open>Invalidator.Invalidate\<close>,
  \<open>Invalidator.resetPending\<close>, \<open>QueueScheduler.Schedule\<close>, \<open>QueueScheduler.resetPending\<close>,
  \<open>App.TryPost\<close> (reporting false) and \<open>App.Post\<close>.\<close>

theorem nil_receiver_guarded:
  "Invalidate None w = (None, w)
   \<and> inv_resetPending None = None
   \<and> Schedule None fn w = (None, w)
   \<and> qs_resetPending None = None
   \<and> App_TryPost None msg = (False, None)
   \<and> App_Post None msg = None"
  by (simp add: Invalidate_def inv_resetPending_def Schedule_def qs_resetPending_def
        App_TryPost_def App_Post_def App_tryPost_def)

theorem nil_receiver_guarded_witness:
  "Invalidate None \<lparr>env = (0::nat), attempts = []\<rparr> = (None, \<lparr>env = 0, attempts = []\<rparr>)
   \<and> Schedule (None :: (nat, unit) QueueScheduler option) (Some ()) \<lparr>env = (0::nat), attempts = []\<rparr>
       = (None, \<lparr>env = 0, attempts = []\<rparr>)
   \<and> App_TryPost None InvalidateMsg = (False, None)
   \<and> App_Post None InvalidateMsg = None"
  using nil_receiver_guarded [of "\<lparr>env = (0::nat), attempts = []\<rparr>" "Some ()" InvalidateMsg]
  by blast

end
